theory Spec2Isabelle
  imports Complex_Main "HOL-Library.AList"
begin

section \<open>Data model (types.ts)\<close>

text \<open>
  JavaScript numbers are modelled as exact reals: the theorems below are about the
  algorithms (which entries are stamped, which indices are read, which branch is
  taken), not about IEEE rounding, infinities or NaN. Port indices, node ids and
  iteration counters are natural numbers. A JavaScript \<open>Map\<close> is an association
  list in insertion order, read with \<open>map_of\<close> and written with \<open>AList.update\<close>
  (which replaces the value of a present key in place and appends an absent key),
  exactly the behaviour of \<open>Map.get\<close> and \<open>Map.set\<close>.
\<close>

datatype ComponentType =
    RESISTOR | VOLTAGE_SOURCE | AC_SOURCE | GROUND | CAPACITOR | INDUCTOR
  | DIODE | LED | OPAMP | AND_GATE | OR_GATE | NOT_GATE | NAND_GATE | NOR_GATE
  | XOR_GATE | VOLTMETER | AMMETER

datatype SimulationMode = INTERACTIVE | TRANSIENT | AC_SWEEP

text \<open>
  The fields of \<open>CircuitComponent\<close> that the solver reads. The optional fields are
  options; \<open>waveform\<close> is the string found at run time (the union type of the
  source is erased by the compiler).
\<close>

record CircuitComponent =
  cid :: string
  ctype :: ComponentType
  cvalue :: real
  frequency :: "real option"
  waveform :: "string option"
  dcBias :: "real option"
  dutyCycle :: "real option"
  inputImpedance :: "real option"
  inputCount :: "nat option"

record Port =
  componentId :: string
  portIndex :: nat

record Wire =
  wid :: string
  wfrom :: Port
  wto :: Port

record SimulationNode =
  node_id :: nat
  voltage :: real
  phase :: real
  componentIds :: "string list"

text \<open>A plot point: \<open>px\<close> is the field \<open>x\<close>, \<open>pN\<close> the values \<open>N1, N2, ...\<close> in node order.\<close>

record DataPoint =
  px :: real
  pN :: "real list"

record SimulationResult =
  nodes :: "SimulationNode list"
  nodeVoltages :: "(nat \<times> real \<times> real) list"
  componentCurrents :: "(string \<times> real) list"
  error :: "string option"
  result_frequency :: real
  plotData :: "DataPoint list option"
  mode :: SimulationMode

record SimulationConfig =
  timeStep :: real
  stopTime :: real
  startFreq :: real
  stopFreq :: real
  points :: real

text \<open>
  \<open>a || d\<close> on an optional number: the default is taken when the field is
  undefined or zero.
\<close>

definition orDefault :: "real option \<Rightarrow> real \<Rightarrow> real" where
  "orDefault a d = (case a of None \<Rightarrow> d | Some v \<Rightarrow> if v = 0 then d else v)"

definition orDefaultNat :: "nat option \<Rightarrow> nat \<Rightarrow> nat" where
  "orDefaultNat a d = (case a of None \<Rightarrow> d | Some v \<Rightarrow> if v = 0 then d else v)"

section \<open>Graph builder (CircuitSolver.buildGraph)\<close>

text \<open>
  The source keys its maps by the string \<open>componentId:portIndex\<close>. The index is
  printed in decimal and holds no colon, so the string determines the pair and the pair
  is the key here. \<open>curr.split(':')[0]\<close> is the part of that string before its
  first colon, which is the part of the component id before its first colon.
\<close>

type_synonym PortKey = "string \<times> nat"

type_synonym Adj = "(PortKey \<times> PortKey list) list"

definition pk :: "Port \<Rightarrow> PortKey" where
  "pk p = (componentId p, portIndex p)"

definition splitCompId :: "PortKey \<Rightarrow> string" where
  "splitCompId k = takeWhile (\<lambda>c. c \<noteq> CHR '':'') (fst k)"

definition multiInputGates :: "ComponentType list" where
  "multiInputGates = [AND_GATE, OR_GATE, NAND_GATE, NOR_GATE, XOR_GATE]"

definition adjComponent :: "CircuitComponent \<Rightarrow> Adj \<Rightarrow> Adj" where
  "adjComponent c adj0 =
    (let a1 = AList.update (cid c, 0) [] adj0;
         a2 = (if ctype c \<noteq> GROUND \<and> ctype c \<noteq> NOT_GATE
                  \<and> ctype c \<notin> set (multiInputGates @ [OPAMP])
               then AList.update (cid c, 1) [] a1 else a1);
         a3 = (if ctype c \<in> set multiInputGates
               then (let count = orDefaultNat (inputCount c) 2
                     in AList.update (cid c, count) []
                          (fold (\<lambda>i. AList.update (cid c, i) []) [0..<count] a2))
               else a2);
         a4 = (if ctype c = OPAMP
               then AList.update (cid c, 2) [] (AList.update (cid c, 1) [] a3) else a3)
     in (if ctype c = NOT_GATE then AList.update (cid c, 1) [] a4 else a4))"

definition adjGet :: "Adj \<Rightarrow> PortKey \<Rightarrow> PortKey list" where
  "adjGet adj k = (case map_of adj k of None \<Rightarrow> [] | Some ns \<Rightarrow> ns)"

definition adjPush :: "PortKey \<Rightarrow> PortKey \<Rightarrow> Adj \<Rightarrow> Adj" where
  "adjPush k n adj = (case map_of adj k of None \<Rightarrow> adj
                      | Some ns \<Rightarrow> AList.update k (ns @ [n]) adj)"

definition adjEnsure :: "PortKey \<Rightarrow> Adj \<Rightarrow> Adj" where
  "adjEnsure k adj = (if map_of adj k = None then AList.update k [] adj else adj)"

definition adjWire :: "Wire \<Rightarrow> Adj \<Rightarrow> Adj" where
  "adjWire w adj =
    (let k1 = pk (wfrom w); k2 = pk (wto w)
     in adjPush k2 k1 (adjPush k1 k2 (adjEnsure k2 (adjEnsure k1 adj))))"

definition buildAdj :: "CircuitComponent list \<Rightarrow> Wire list \<Rightarrow> Adj" where
  "buildAdj components wires = fold adjWire wires (fold adjComponent components [])"

definition isGroundKey :: "CircuitComponent list \<Rightarrow> PortKey \<Rightarrow> bool" where
  "isGroundKey components k =
    (case find (\<lambda>c. cid c = splitCompId k) components of
       None \<Rightarrow> False | Some found \<Rightarrow> ctype found = GROUND)"

text \<open>The inner \<open>for (const n of neighbors)\<close> of the breadth-first search.\<close>

definition visitNeighbors ::
  "PortKey list \<Rightarrow> PortKey list \<times> PortKey set \<Rightarrow> PortKey list \<times> PortKey set" where
  "visitNeighbors ns qv =
     fold (\<lambda>n (q, v). if n \<notin> v then (q @ [n], insert n v) else (q, v)) ns qv"

definition adjUniverse :: "Adj \<Rightarrow> PortKey set" where
  "adjUniverse adj = (\<Union>p \<in> set adj. set (snd p))"

text \<open>
  The \<open>while (queue.length > 0)\<close> loop: arguments are the queue, the visited set,
  the group collected so far and the ground flag.
\<close>

function bfs :: "Adj \<Rightarrow> CircuitComponent list \<Rightarrow> PortKey list \<Rightarrow> PortKey set
    \<Rightarrow> PortKey list \<Rightarrow> bool \<Rightarrow> PortKey list \<times> PortKey set \<times> bool" where
  "bfs adj components [] visited grp isGround = (grp, visited, isGround)"
| "bfs adj components (cur # queue) visited grp isGround =
    (let qv = visitNeighbors (adjGet adj cur) (queue, visited)
     in bfs adj components (fst qv) (snd qv) (grp @ [cur])
          (isGround \<or> isGroundKey components cur))"
  by pat_completeness auto


lemma visitNeighbors_measure:
  "finite U \<Longrightarrow> set ns \<subseteq> U \<Longrightarrow>
   2 * card (U - snd (visitNeighbors ns (q, v))) + length (fst (visitNeighbors ns (q, v)))
     \<le> 2 * card (U - v) + length q"
proof (induction ns arbitrary: q v)
  case Nil
  then show ?case by (simp add: visitNeighbors_def)
next
  case (Cons n ns)
  show ?case
  proof (cases "n \<in> v")
    case True
    then have "visitNeighbors (n # ns) (q, v) = visitNeighbors ns (q, v)"
      by (simp add: visitNeighbors_def)
    with Cons show ?thesis by simp
  next
    case False
    then have step: "visitNeighbors (n # ns) (q, v) = visitNeighbors ns (q @ [n], insert n v)"
      by (simp add: visitNeighbors_def)
    from Cons.prems have nU: "n \<in> U - v" using False by simp
    have fin: "finite (U - v)" using Cons.prems by simp
    have "U - insert n v = (U - v) - {n}" by blast
    then have c: "card (U - insert n v) = card (U - v) - 1" using nU fin by simp
    have pos: "0 < card (U - v)" using nU fin by (auto simp: card_gt_0_iff)
    have "2 * card (U - snd (visitNeighbors ns (q @ [n], insert n v)))
            + length (fst (visitNeighbors ns (q @ [n], insert n v)))
          \<le> 2 * card (U - insert n v) + length (q @ [n])"
      using Cons.IH [of "q @ [n]" "insert n v"] Cons.prems by simp
    with c pos show ?thesis by (simp add: step)
  qed
qed

lemma adjGet_universe: "set (adjGet adj k) \<subseteq> adjUniverse adj"
proof (cases "map_of adj k")
  case None
  then show ?thesis by (simp add: adjGet_def)
next
  case (Some ns)
  then have "(k, ns) \<in> set adj" by (rule map_of_SomeD)
  then show ?thesis using Some by (force simp: adjGet_def adjUniverse_def)
qed

lemma adjUniverse_finite: "finite (adjUniverse adj)"
  by (simp add: adjUniverse_def)

termination bfs
proof (relation "measure (\<lambda>(adj, components, queue, visited, grp, isGround).
          2 * card (adjUniverse adj - visited) + length queue)", goal_cases)
  case 1
  show ?case by simp
next
  case (2 adj components cur queue visited grp isGround qv)
  have "2 * card (adjUniverse adj - snd (visitNeighbors (adjGet adj cur) (queue, visited)))
          + length (fst (visitNeighbors (adjGet adj cur) (queue, visited)))
        \<le> 2 * card (adjUniverse adj - visited) + length queue"
    by (rule visitNeighbors_measure [OF adjUniverse_finite adjGet_universe])
  with 2 show ?case by simp
qed


type_synonym PortMap = "(PortKey \<times> nat) list"

record Graph =
  portToNode :: PortMap
  numNodes :: nat

definition setGroup :: "PortKey list \<Rightarrow> nat \<Rightarrow> PortMap \<Rightarrow> PortMap" where
  "setGroup grp n p2n = fold (\<lambda>p. AList.update p n) grp p2n"

text \<open>
  One round of \<open>for (const portKey of adj.keys())\<close>; the state is the visited set,
  \<open>portToNode\<close> and \<open>nodeCount\<close>.
\<close>

definition graphStep :: "Adj \<Rightarrow> CircuitComponent list \<Rightarrow> PortKey
    \<Rightarrow> PortKey set \<times> PortMap \<times> nat \<Rightarrow> PortKey set \<times> PortMap \<times> nat" where
  "graphStep adj components portKey st =
    (case st of (visited, p2n, nodeCount) \<Rightarrow>
      if portKey \<in> visited then st
      else (case bfs adj components [portKey] (insert portKey visited) [] False of
              (grp, visited', isGround) \<Rightarrow>
                if isGround then (visited', setGroup grp 0 p2n, nodeCount)
                else (visited', setGroup grp nodeCount p2n, nodeCount + 1)))"

definition graphLoop :: "Adj \<Rightarrow> CircuitComponent list \<Rightarrow> PortKey set \<times> PortMap \<times> nat" where
  "graphLoop adj components = fold (graphStep adj components) (map fst adj) ({}, [], 1)"

definition buildGraph :: "CircuitComponent list \<Rightarrow> Wire list \<Rightarrow> Graph" where
  "buildGraph components wires =
    (case graphLoop (buildAdj components wires) components of
       (visited, p2n, nodeCount) \<Rightarrow> \<lparr>portToNode = p2n, numNodes = nodeCount - 1\<rparr>)"

section \<open>Real linear solver (MatrixSolver.solve)\<close>

type_synonym Matrix = "real list list"

definition swapList :: "nat \<Rightarrow> nat \<Rightarrow> 'a list \<Rightarrow> 'a list" where
  "swapList i j xs = xs[i := xs ! j, j := xs ! i]"

definition findPivot :: "Matrix \<Rightarrow> nat \<Rightarrow> nat \<Rightarrow> nat" where
  "findPivot M n i =
     fst (fold (\<lambda>k (maxRow, maxVal).
                  if \<bar>M ! k ! i\<bar> > maxVal then (k, \<bar>M ! k ! i\<bar>) else (maxRow, maxVal))
            [i + 1..<n] (i, \<bar>M ! i ! i\<bar>))"

definition eliminateRow :: "nat \<Rightarrow> nat \<Rightarrow> nat \<Rightarrow> Matrix \<times> real list \<Rightarrow> Matrix \<times> real list" where
  "eliminateRow n i k MV =
    (case MV of (M, V) \<Rightarrow>
      (let factor = M ! k ! i / M ! i ! i;
           V' = V[k := V ! k - factor * V ! i];
           M' = fold (\<lambda>j Mx. Mx[k := (Mx ! k)[j := Mx ! k ! j - factor * Mx ! i ! j]]) [i..<n] M
       in (M', V')))"

definition forwardStep :: "nat \<Rightarrow> nat \<Rightarrow> Matrix \<times> real list \<Rightarrow> Matrix \<times> real list" where
  "forwardStep n i MV =
    (case MV of (M, V) \<Rightarrow>
      (let maxRow = findPivot M n i;
           M1 = swapList i maxRow M;
           V1 = swapList i maxRow V
       in if \<bar>M1 ! i ! i\<bar> < 1 / 10 ^ 12 then (M1, V1)
          else fold (eliminateRow n i) [i + 1..<n] (M1, V1)))"

definition backStep :: "nat \<Rightarrow> Matrix \<Rightarrow> real list \<Rightarrow> nat \<Rightarrow> real list \<Rightarrow> real list" where
  "backStep n M V i xs =
    (if \<bar>M ! i ! i\<bar> < 1 / 10 ^ 12 then xs
     else (let sum = fold (\<lambda>j s. s + M ! i ! j * xs ! j) [i + 1..<n] 0
           in xs[i := (V ! i - sum) / M ! i ! i]))"

definition MatrixSolver_solve :: "Matrix \<Rightarrow> real list \<Rightarrow> real list" where
  "MatrixSolver_solve A B =
    (let n = length A;
         MV = fold (forwardStep n) [0..<n] (A, B)
     in fold (backStep n (fst MV) (snd MV)) (rev [0..<n]) (replicate n 0))"


section \<open>DC / interactive engine (CircuitSolver.solveCircuit)\<close>

definition getNodeIdx :: "nat \<Rightarrow> nat" where
  "getNodeIdx nodeId = nodeId - 1"

text \<open>
  \<open>G[r][c] += v\<close>, \<open>G[r][c] = v\<close>, \<open>I_rhs[r] += v\<close> and \<open>I_rhs[r] = v\<close>.
  The assignment is the same for the real and the complex matrix.
\<close>

definition matAdd :: "nat \<Rightarrow> nat \<Rightarrow> real \<Rightarrow> Matrix \<Rightarrow> Matrix" where
  "matAdd r c v G = G[r := (G ! r)[c := G ! r ! c + v]]"

definition matSet :: "nat \<Rightarrow> nat \<Rightarrow> 'a \<Rightarrow> 'a list list \<Rightarrow> 'a list list" where
  "matSet r c v G = G[r := (G ! r)[c := v]]"

definition vecAdd :: "nat \<Rightarrow> real \<Rightarrow> real list \<Rightarrow> real list" where
  "vecAdd r v I = I[r := I ! r + v]"

definition vecSet :: "nat \<Rightarrow> real \<Rightarrow> real list \<Rightarrow> real list" where
  "vecSet r v I = I[r := v]"

type_synonym Voltages = "(nat \<times> real) list"

text \<open>\<open>currentVoltages.get(n) || 0\<close>.\<close>

definition cvGet :: "Voltages \<Rightarrow> nat \<Rightarrow> real" where
  "cvGet cv n = (case map_of cv n of None \<Rightarrow> 0 | Some v \<Rightarrow> v)"

definition isVoltageSource :: "CircuitComponent \<Rightarrow> bool" where
  "isVoltageSource c = (ctype c = VOLTAGE_SOURCE \<or> ctype c = AC_SOURCE)"

definition isLogicGate :: "CircuitComponent \<Rightarrow> bool" where
  "isLogicGate c =
     (ctype c \<in> set [AND_GATE, OR_GATE, NOT_GATE, NAND_GATE, NOR_GATE, XOR_GATE])"

definition dcSkipped :: "ComponentType list" where
  "dcSkipped = [VOLTAGE_SOURCE, AC_SOURCE, GROUND, AND_GATE, OR_GATE, NOT_GATE, NAND_GATE,
                NOR_GATE, XOR_GATE, AMMETER, OPAMP]"

text \<open>The values fixed before the fixed-point loop starts.\<close>

record DCContext =
  dc_components :: "CircuitComponent list"
  dc_portToNode :: PortMap
  dc_numNodes :: nat
  voltageSources :: "CircuitComponent list"
  ammeters :: "CircuitComponent list"
  opamps :: "CircuitComponent list"
  logicGates :: "CircuitComponent list"

definition dcContext :: "CircuitComponent list \<Rightarrow> Graph \<Rightarrow> DCContext" where
  "dcContext components g =
    \<lparr>dc_components = components,
     dc_portToNode = portToNode g,
     dc_numNodes = numNodes g,
     voltageSources = filter isVoltageSource components,
     ammeters = filter (\<lambda>c. ctype c = AMMETER) components,
     opamps = filter (\<lambda>c. ctype c = OPAMP) components,
     logicGates = filter isLogicGate components\<rparr>"

definition dcSize :: "DCContext \<Rightarrow> nat" where
  "dcSize ctx = dc_numNodes ctx
     + (length (voltageSources ctx) + length (logicGates ctx) + length (ammeters ctx)
        + length (opamps ctx))"

subsection \<open>Logic-gate targets\<close>

definition gateTarget :: "PortMap \<Rightarrow> Voltages \<Rightarrow> CircuitComponent \<Rightarrow> real" where
  "gateTarget p2n cv g =
    (let getV = (\<lambda>idx. case map_of p2n (cid g, idx) of
                          None \<Rightarrow> 0 | Some n \<Rightarrow> if n = 0 then 0 else cvGet cv n);
         logicHigh = (if cvalue g > 0 then cvalue g else 5);
         threshold = logicHigh / 2
     in if ctype g = NOT_GATE then (if getV 0 > threshold then 0 else logicHigh)
        else (let count = orDefaultNat (inputCount g) 2;
                  inputs = map getV [0..<count]
              in if ctype g = AND_GATE
                 then (if list_all (\<lambda>v. v > threshold) inputs then logicHigh else 0)
                 else if ctype g = OR_GATE
                 then (if list_ex (\<lambda>v. v > threshold) inputs then logicHigh else 0)
                 else if ctype g = NAND_GATE
                 then (if \<not> list_all (\<lambda>v. v > threshold) inputs then logicHigh else 0)
                 else if ctype g = NOR_GATE
                 then (if \<not> list_ex (\<lambda>v. v > threshold) inputs then logicHigh else 0)
                 else if ctype g = XOR_GATE
                 then (if length (filter (\<lambda>v. v > threshold) inputs) mod 2 \<noteq> 0
                       then logicHigh else 0)
                 else 0))"

definition updateGateTargets ::
  "DCContext \<Rightarrow> Voltages \<Rightarrow> (string \<times> real) list \<Rightarrow> (string \<times> real) list" where
  "updateGateTargets ctx cv gt =
     fold (\<lambda>g. AList.update (cid g) (gateTarget (dc_portToNode ctx) cv g)) (logicGates ctx) gt"

subsection \<open>Stamps\<close>

text \<open>
  The admittance and companion current of a passive two-port, from the current iterate.
\<close>

definition dcEquivalent :: "Voltages \<Rightarrow> CircuitComponent \<Rightarrow> nat \<Rightarrow> nat \<Rightarrow> real \<times> real" where
  "dcEquivalent cv c n1 n2 =
    (if ctype c = RESISTOR then (1 / max (cvalue c) (1 / 10 ^ 6), 0)
     else if ctype c = CAPACITOR then (1 / 10 ^ 12, 0)
     else if ctype c = INDUCTOR then (10 ^ 6, 0)
     else if ctype c = VOLTMETER then (1 / 10 ^ 9, 0)
     else if ctype c = DIODE \<or> ctype c = LED
     then (let vFwd = (if cvalue c > 0 then cvalue c else 7 / 10);
               vD = cvGet cv n1 - cvGet cv n2
           in if vD > vFwd then (1 / 10, 1 / 10 * vFwd) else (1 / 10 ^ 9, 0))
     else (0, 0))"

text \<open>The three guarded blocks that add \<open>g_equiv\<close> and \<open>i_equiv\<close> to the system.\<close>

definition stampConductance ::
  "nat \<Rightarrow> nat \<Rightarrow> real \<Rightarrow> real \<Rightarrow> Matrix \<times> real list \<Rightarrow> Matrix \<times> real list" where
  "stampConductance n1 n2 g_equiv i_equiv GI =
    (case GI of (G, I) \<Rightarrow>
      (let GI1 = (if n1 \<noteq> 0
                  then (matAdd (getNodeIdx n1) (getNodeIdx n1) g_equiv G,
                        vecAdd (getNodeIdx n1) i_equiv I)
                  else (G, I));
           GI2 = (if n2 \<noteq> 0
                  then (matAdd (getNodeIdx n2) (getNodeIdx n2) g_equiv (fst GI1),
                        vecAdd (getNodeIdx n2) (- i_equiv) (snd GI1))
                  else GI1)
       in if n1 \<noteq> 0 \<and> n2 \<noteq> 0
          then (matAdd (getNodeIdx n2) (getNodeIdx n1) (- g_equiv)
                  (matAdd (getNodeIdx n1) (getNodeIdx n2) (- g_equiv) (fst GI2)), snd GI2)
          else GI2))"

definition stampPassiveDC ::
  "PortMap \<Rightarrow> Voltages \<Rightarrow> CircuitComponent \<Rightarrow> Matrix \<times> real list \<Rightarrow> Matrix \<times> real list" where
  "stampPassiveDC p2n cv c GI =
    (if ctype c \<in> set dcSkipped then GI
     else (case (map_of p2n (cid c, 0), map_of p2n (cid c, 1)) of
             (Some n1, Some n2) \<Rightarrow>
               (case dcEquivalent cv c n1 n2 of
                  (g_equiv, i_equiv) \<Rightarrow> stampConductance n1 n2 g_equiv i_equiv GI)
           | _ \<Rightarrow> GI))"

definition stampOpampInput ::
  "PortMap \<Rightarrow> CircuitComponent \<Rightarrow> Matrix \<times> real list \<Rightarrow> Matrix \<times> real list" where
  "stampOpampInput p2n c GI =
    (case (map_of p2n (cid c, 0), map_of p2n (cid c, 1)) of
       (Some n1, Some n2) \<Rightarrow>
         (let rIn = orDefault (inputImpedance c) (10 ^ 7);
              g_in = 1 / rIn;
              G1 = (if n1 \<noteq> 0 then matAdd (getNodeIdx n1) (getNodeIdx n1) g_in (fst GI)
                    else fst GI);
              G2 = (if n2 \<noteq> 0 then matAdd (getNodeIdx n2) (getNodeIdx n2) g_in G1 else G1)
          in if n1 \<noteq> 0 \<and> n2 \<noteq> 0
             then (matAdd (getNodeIdx n2) (getNodeIdx n1) (- g_in)
                     (matAdd (getNodeIdx n1) (getNodeIdx n2) (- g_in) G2), snd GI)
             else (G2, snd GI))
     | _ \<Rightarrow> GI)"

text \<open>
  The symmetric \<open>+1\<close>/\<open>-1\<close> entries of a branch with an extra unknown at \<open>idx\<close>
  (voltage sources and ammeters), written by assignment.
\<close>

definition stampBranch :: "nat option \<Rightarrow> nat option \<Rightarrow> nat \<Rightarrow> Matrix \<Rightarrow> Matrix" where
  "stampBranch nPos nNeg idx G =
    (let G1 = (case nPos of
                 Some n \<Rightarrow> if n \<noteq> 0
                           then matSet idx (getNodeIdx n) 1 (matSet (getNodeIdx n) idx 1 G)
                           else G
               | None \<Rightarrow> G)
     in (case nNeg of
           Some n \<Rightarrow> if n \<noteq> 0
                     then matSet idx (getNodeIdx n) (- 1) (matSet (getNodeIdx n) idx (- 1) G1)
                     else G1
         | None \<Rightarrow> G1))"

definition dcSourceValue :: "CircuitComponent \<Rightarrow> real" where
  "dcSourceValue v = (if ctype v = AC_SOURCE then orDefault (dcBias v) 0 else cvalue v)"

definition stampVoltageSourceDC ::
  "DCContext \<Rightarrow> nat \<times> CircuitComponent \<Rightarrow> Matrix \<times> real list \<Rightarrow> Matrix \<times> real list" where
  "stampVoltageSourceDC ctx iv GI =
    (case iv of (i, v) \<Rightarrow>
      (let nPos = map_of (dc_portToNode ctx) (cid v, 0);
           nNeg = map_of (dc_portToNode ctx) (cid v, 1);
           idxVs = dc_numNodes ctx + i
       in (stampBranch nPos nNeg idxVs (fst GI), vecSet idxVs (dcSourceValue v) (snd GI))))"

definition stampAmmeter ::
  "DCContext \<Rightarrow> nat \<times> CircuitComponent \<Rightarrow> Matrix \<times> real list \<Rightarrow> Matrix \<times> real list" where
  "stampAmmeter ctx ia GI =
    (case ia of (i, a) \<Rightarrow>
      (let nPos = map_of (dc_portToNode ctx) (cid a, 0);
           nNeg = map_of (dc_portToNode ctx) (cid a, 1);
           idxAm = dc_numNodes ctx + length (voltageSources ctx) + i
       in (stampBranch nPos nNeg idxAm (fst GI), vecSet idxAm 0 (snd GI))))"


text \<open>
  \<open>nPos && nPos !== 0 ? currentVoltages.get(nPos) || 0 : 0\<close>: the iterate at an
  op-amp input, zero at ground or at a port with no node.
\<close>

definition opampInputV :: "Voltages \<Rightarrow> nat option \<Rightarrow> real" where
  "opampInputV cv n = (case n of None \<Rightarrow> 0 | Some k \<Rightarrow> if k \<noteq> 0 then cvGet cv k else 0)"

definition opampGain :: "CircuitComponent \<Rightarrow> real" where
  "opampGain op = (if cvalue op > 0 then cvalue op else 100000)"

definition RAIL_POS :: real where "RAIL_POS = 15"

definition RAIL_NEG :: real where "RAIL_NEG = - 15"

text \<open>The pair \<open>(clampedV, isSaturated)\<close> after the two rail tests.\<close>

definition clampToRails :: "real \<Rightarrow> real \<times> bool" where
  "clampToRails targetV =
    (let cs1 = (if targetV > RAIL_POS then (RAIL_POS, True) else (targetV, False))
     in if targetV < RAIL_NEG then (RAIL_NEG, True) else cs1)"

text \<open>\<open>if (n !== undefined && n !== 0) G[r][c] = v\<close> with the node as row or column.\<close>

definition setAtNodeRow :: "nat option \<Rightarrow> nat \<Rightarrow> 'a \<Rightarrow> 'a list list \<Rightarrow> 'a list list" where
  "setAtNodeRow n c v G =
    (case n of Some k \<Rightarrow> if k \<noteq> 0 then matSet (getNodeIdx k) c v G else G | None \<Rightarrow> G)"

definition setAtNodeCol :: "nat \<Rightarrow> nat option \<Rightarrow> 'a \<Rightarrow> 'a list list \<Rightarrow> 'a list list" where
  "setAtNodeCol r n v G =
    (case n of Some k \<Rightarrow> if k \<noteq> 0 then matSet r (getNodeIdx k) v G else G | None \<Rightarrow> G)"

definition stampOpampDC ::
  "DCContext \<Rightarrow> Voltages \<Rightarrow> nat \<times> CircuitComponent \<Rightarrow> Matrix \<times> real list
     \<Rightarrow> Matrix \<times> real list" where
  "stampOpampDC ctx cv iop GI =
    (case iop of (i, op) \<Rightarrow>
      (let nPos = map_of (dc_portToNode ctx) (cid op, 0);
           nNeg = map_of (dc_portToNode ctx) (cid op, 1);
           nOut = map_of (dc_portToNode ctx) (cid op, 2);
           idxOp = dc_numNodes ctx + length (voltageSources ctx) + length (ammeters ctx) + i;
           Gain = opampGain op;
           targetV = Gain * (opampInputV cv nPos - opampInputV cv nNeg);
           clampedV = fst (clampToRails targetV);
           isSaturated = snd (clampToRails targetV);
           G1 = setAtNodeRow nOut idxOp 1 (fst GI)
       in if isSaturated
          then (setAtNodeCol idxOp nOut 1 G1, vecSet idxOp clampedV (snd GI))
          else (setAtNodeCol idxOp nNeg Gain
                  (setAtNodeCol idxOp nPos (- Gain) (setAtNodeCol idxOp nOut 1 G1)),
                vecSet idxOp 0 (snd GI))))"

definition gateGet :: "(string \<times> real) list \<Rightarrow> string \<Rightarrow> real" where
  "gateGet gt k = (case map_of gt k of None \<Rightarrow> 0 | Some v \<Rightarrow> v)"

definition stampGate ::
  "DCContext \<Rightarrow> (string \<times> real) list \<Rightarrow> nat \<times> CircuitComponent \<Rightarrow> Matrix \<times> real list
     \<Rightarrow> Matrix \<times> real list" where
  "stampGate ctx gt ig GI =
    (case ig of (i, g) \<Rightarrow>
      (let isNot = (ctype g = NOT_GATE);
           inputCnt = orDefaultNat (inputCount g) 2;
           portOutIdx = (if isNot then 1 else inputCnt);
           nOut = map_of (dc_portToNode ctx) (cid g, portOutIdx);
           idxGate = dc_numNodes ctx + length (voltageSources ctx) + length (ammeters ctx)
                       + length (opamps ctx) + i;
           G1 = setAtNodeCol idxGate nOut 1 (setAtNodeRow nOut idxGate 1 (fst GI));
           I1 = vecSet idxGate (gateGet gt (cid g)) (snd GI);
           count = (if isNot then 1 else inputCnt);
           G2 = fold (\<lambda>k Gx. case map_of (dc_portToNode ctx) (cid g, k) of
                                  Some nIn \<Rightarrow>
                                    if nIn \<noteq> 0
                                    then matAdd (getNodeIdx nIn) (getNodeIdx nIn) (1 / 10 ^ 12) Gx
                                    else Gx
                                | None \<Rightarrow> Gx) [0..<count] G1
       in (G2, I1)))"

text \<open>Fresh \<open>G\<close> and \<open>I_rhs\<close>, then the six \<open>forEach\<close> passes in source order.\<close>

definition assembleDC ::
  "DCContext \<Rightarrow> Voltages \<Rightarrow> (string \<times> real) list \<Rightarrow> Matrix \<times> real list" where
  "assembleDC ctx cv gt =
    (let size = dcSize ctx;
         GI0 = (replicate size (replicate size 0), replicate size 0);
         GI1 = fold (stampPassiveDC (dc_portToNode ctx) cv) (dc_components ctx) GI0;
         GI2 = fold (stampOpampInput (dc_portToNode ctx)) (opamps ctx) GI1;
         GI3 = fold (stampVoltageSourceDC ctx) (enumerate 0 (voltageSources ctx)) GI2;
         GI4 = fold (stampAmmeter ctx) (enumerate 0 (ammeters ctx)) GI3;
         GI5 = fold (stampOpampDC ctx cv) (enumerate 0 (opamps ctx)) GI4
     in fold (stampGate ctx gt) (enumerate 0 (logicGates ctx)) GI5)"

subsection \<open>The fixed-point loop\<close>

record DCState =
  iteration :: nat
  converged :: bool
  currentVoltages :: Voltages
  gateTargets :: "(string \<times> real) list"
  finalX :: "real list"

text \<open>The \<open>for (n = 1; n <= numNodes; n++)\<close> pass: \<open>maxDiff\<close> and the new iterate.\<close>

definition updateVoltages :: "nat \<Rightarrow> real list \<Rightarrow> Voltages \<Rightarrow> real \<times> Voltages" where
  "updateVoltages nNodes xs cv =
     fold (\<lambda>n (maxDiff, cvx).
             (let vNew = xs ! getNodeIdx n; vOld = cvGet cvx n
              in (max maxDiff \<bar>vNew - vOld\<bar>, AList.update n vNew cvx)))
       [1..<nNodes + 1] (0, cv)"

text \<open>
  One pass of the loop body. \<open>MatrixSolver.solve\<close> has no \<open>throw\<close> and reads only
  rows below \<open>A.length\<close>, so the \<open>catch\<close> branch that would return
  \<open>Singular matrix\<close> has no source of exceptions and the body always reaches the
  voltage update.
\<close>

definition dcIteration :: "DCContext \<Rightarrow> DCState \<Rightarrow> DCState" where
  "dcIteration ctx st =
    (let gt = updateGateTargets ctx (currentVoltages st) (gateTargets st);
         GI = assembleDC ctx (currentVoltages st) gt;
         xs = MatrixSolver_solve (fst GI) (snd GI);
         dv = updateVoltages (dc_numNodes ctx) xs (currentVoltages st)
     in \<lparr>iteration = iteration st + 1,
         converged = (fst dv < 1 / 100),
         currentVoltages = snd dv,
         gateTargets = gt,
         finalX = xs\<rparr>)"

definition maxIterations :: nat where "maxIterations = 20"

text \<open>
  \<open>while (iteration < maxIterations && !converged)\<close>: the first argument is
  \<open>maxIterations - iteration\<close>.
\<close>

fun dcLoop :: "nat \<Rightarrow> DCContext \<Rightarrow> DCState \<Rightarrow> DCState" where
  "dcLoop 0 ctx st = st"
| "dcLoop (Suc k) ctx st = (if converged st then st else dcLoop k ctx (dcIteration ctx st))"

definition dcInitial :: "DCContext \<Rightarrow> DCState" where
  "dcInitial ctx =
    \<lparr>iteration = 0,
     converged = False,
     currentVoltages = map (\<lambda>i. (i, 0)) [0..<dc_numNodes ctx + 1],
     gateTargets = fold (\<lambda>g. AList.update (cid g) 0) (logicGates ctx) [],
     finalX = []\<rparr>"

subsection \<open>Harvesting the result\<close>

definition resultVoltages :: "Voltages \<Rightarrow> (nat \<times> real \<times> real) list" where
  "resultVoltages cv =
     fold (\<lambda>(k, v) rv. if k \<noteq> 0 then AList.update k (v, 0) rv else rv) cv [(0, (0, 0))]"

text \<open>The four passes that read the extra unknowns.\<close>

definition harvestExtra :: "DCContext \<Rightarrow> real list \<Rightarrow> (string \<times> real) list" where
  "harvestExtra ctx xs =
    (let n = dc_numNodes ctx;
         cc1 = fold (\<lambda>(i, v). AList.update (cid v) (xs ! (n + i)))
                 (enumerate 0 (voltageSources ctx)) [];
         cc2 = fold (\<lambda>(i, a). AList.update (cid a) (xs ! (n + length (voltageSources ctx) + i)))
                 (enumerate 0 (ammeters ctx)) cc1;
         cc3 = fold (\<lambda>(i, op). AList.update (cid op)
                       (xs ! (n + length (voltageSources ctx) + length (ammeters ctx) + i)))
                 (enumerate 0 (opamps ctx)) cc2
     in fold (\<lambda>(i, g). AList.update (cid g)
                 (xs ! (n + length (voltageSources ctx) + length (ammeters ctx)
                          + length (opamps ctx) + i)))
          (enumerate 0 (logicGates ctx)) cc3)"

definition harvestPassive ::
  "PortMap \<Rightarrow> real list \<Rightarrow> CircuitComponent \<Rightarrow> (string \<times> real) list \<Rightarrow> (string \<times> real) list" where
  "harvestPassive p2n xs c cc =
    (if ctype c \<in> set dcSkipped then cc
     else (case (map_of p2n (cid c, 0), map_of p2n (cid c, 1)) of
             (Some n1, Some n2) \<Rightarrow>
               (let v1 = (if n1 = 0 then 0 else xs ! getNodeIdx n1);
                    v2 = (if n2 = 0 then 0 else xs ! getNodeIdx n2);
                    vDiff = v1 - v2;
                    iVal = (if ctype c = RESISTOR then vDiff / cvalue c
                            else if ctype c = VOLTMETER then vDiff / 10 ^ 9
                            else if ctype c = DIODE \<or> ctype c = LED
                            then (let vFwd = (if cvalue c > 0 then cvalue c else 7 / 10)
                                  in if vDiff > vFwd then (vDiff - vFwd) / 10
                                     else vDiff * (1 / 10 ^ 9))
                            else 0)
                in AList.update (cid c) iVal cc)
           | _ \<Rightarrow> cc))"

definition nodeToComponents :: "PortMap \<Rightarrow> (nat \<times> string list) list" where
  "nodeToComponents p2n =
     fold (\<lambda>(portKey, nodeId) m.
             (let compId = splitCompId portKey;
                  m1 = (if map_of m nodeId = None then AList.update nodeId [] m else m);
                  ids = (case map_of m1 nodeId of None \<Rightarrow> [] | Some l \<Rightarrow> l)
              in if compId \<in> set ids then m1 else AList.update nodeId (ids @ [compId]) m1))
       p2n []"

definition simNodes ::
  "(nat \<times> string list) list \<Rightarrow> (nat \<times> real \<times> real) list \<Rightarrow> SimulationNode list" where
  "simNodes n2c rv =
     map (\<lambda>(k, v). \<lparr>node_id = k, voltage = fst v, phase = snd v,
                     componentIds = (case map_of n2c k of None \<Rightarrow> [] | Some l \<Rightarrow> l)\<rparr>) rv"

definition noGroundResult :: "real \<Rightarrow> SimulationResult" where
  "noGroundResult f =
    \<lparr>nodes = [], nodeVoltages = [], componentCurrents = [],
     error = Some ''No Ground (GND) found.'', result_frequency = f, plotData = None,
     mode = INTERACTIVE\<rparr>"

definition hasGround :: "PortMap \<Rightarrow> bool" where
  "hasGround p2n = (0 \<in> set (map snd p2n))"

definition dcRun :: "CircuitComponent list \<Rightarrow> Wire list \<Rightarrow> DCState" where
  "dcRun components wires =
    (let ctx = dcContext components (buildGraph components wires)
     in dcLoop maxIterations ctx (dcInitial ctx))"

definition solveCircuit :: "CircuitComponent list \<Rightarrow> Wire list \<Rightarrow> real \<Rightarrow> SimulationResult" where
  "solveCircuit components wires freq =
    (let g = buildGraph components wires
     in if \<not> hasGround (portToNode g) then noGroundResult freq
        else (let ctx = dcContext components g;
                  st = dcLoop maxIterations ctx (dcInitial ctx);
                  rv = resultVoltages (currentVoltages st);
                  cc = fold (harvestPassive (portToNode g) (finalX st)) components
                         (harvestExtra ctx (finalX st))
              in \<lparr>nodes = simNodes (nodeToComponents (portToNode g)) rv,
                  nodeVoltages = rv,
                  componentCurrents = cc,
                  error = None,
                  result_frequency = freq,
                  plotData = None,
                  mode = INTERACTIVE\<rparr>))"


section \<open>Complex numbers and the complex solver (Complex, ComplexMatrixSolver.solve)\<close>

datatype JComplex = JComplex (creal: real) (imag: real)

definition cadd :: "JComplex \<Rightarrow> JComplex \<Rightarrow> JComplex" where
  "cadd a o' = JComplex (creal a + creal o') (imag a + imag o')"

definition csub :: "JComplex \<Rightarrow> JComplex \<Rightarrow> JComplex" where
  "csub a o' = JComplex (creal a - creal o') (imag a - imag o')"

definition cmul :: "JComplex \<Rightarrow> JComplex \<Rightarrow> JComplex" where
  "cmul a o' = JComplex (creal a * creal o' - imag a * imag o')
                        (creal a * imag o' + imag a * creal o')"

definition cdiv :: "JComplex \<Rightarrow> JComplex \<Rightarrow> JComplex" where
  "cdiv a o' =
    (let den = creal o' * creal o' + imag o' * imag o'
     in if den = 0 then JComplex 0 0
        else JComplex ((creal a * creal o' + imag a * imag o') / den)
                      ((imag a * creal o' - creal a * imag o') / den))"

definition magnitude :: "JComplex \<Rightarrow> real" where
  "magnitude a = sqrt ((creal a)\<^sup>2 + (imag a)\<^sup>2)"

definition czero :: JComplex where "czero = JComplex 0 0"

definition cone :: JComplex where "cone = JComplex 1 0"

type_synonym CMatrix = "JComplex list list"

definition cfindPivot :: "CMatrix \<Rightarrow> nat \<Rightarrow> nat \<Rightarrow> nat" where
  "cfindPivot Ac n i =
     fst (fold (\<lambda>k (maxRow, maxVal).
                  if magnitude (Ac ! k ! i) > maxVal then (k, magnitude (Ac ! k ! i))
                  else (maxRow, maxVal))
            [i + 1..<n] (i, magnitude (Ac ! i ! i)))"

definition celiminateRow ::
  "nat \<Rightarrow> nat \<Rightarrow> nat \<Rightarrow> CMatrix \<times> JComplex list \<Rightarrow> CMatrix \<times> JComplex list" where
  "celiminateRow n i k AB =
    (case AB of (Ac, Bc) \<Rightarrow>
      (let factor = cdiv (Ac ! k ! i) (Ac ! i ! i);
           Bc' = Bc[k := csub (Bc ! k) (cmul factor (Bc ! i))];
           Ac' = fold (\<lambda>j Ax. Ax[k := (Ax ! k)[j := csub (Ax ! k ! j) (cmul factor (Ax ! i ! j))]])
                   [i..<n] Ac
       in (Ac', Bc')))"

definition cforwardStep ::
  "nat \<Rightarrow> nat \<Rightarrow> CMatrix \<times> JComplex list \<Rightarrow> CMatrix \<times> JComplex list" where
  "cforwardStep n i AB =
    (case AB of (Ac, Bc) \<Rightarrow>
      (let maxRow = cfindPivot Ac n i;
           A1 = swapList i maxRow Ac;
           B1 = swapList i maxRow Bc
       in if magnitude (A1 ! i ! i) < 1 / 10 ^ 12 then (A1, B1)
          else fold (celiminateRow n i) [i + 1..<n] (A1, B1)))"

definition cbackStep ::
  "nat \<Rightarrow> CMatrix \<Rightarrow> JComplex list \<Rightarrow> nat \<Rightarrow> JComplex list \<Rightarrow> JComplex list" where
  "cbackStep n Ac Bc i xs =
    (if magnitude (Ac ! i ! i) < 1 / 10 ^ 12 then xs
     else (let sum = fold (\<lambda>j s. cadd s (cmul (Ac ! i ! j) (xs ! j))) [i + 1..<n] czero
           in xs[i := cdiv (csub (Bc ! i) sum) (Ac ! i ! i)]))"

definition ComplexMatrixSolver_solve :: "CMatrix \<Rightarrow> JComplex list \<Rightarrow> JComplex list" where
  "ComplexMatrixSolver_solve A B =
    (let n = length A;
         AB = fold (cforwardStep n) [0..<n] (A, B)
     in fold (cbackStep n (fst AB) (snd AB)) (rev [0..<n]) (replicate n czero))"

section \<open>Number formatting\<close>

text \<open>
  \<open>parseFloat(v.toPrecision(4))\<close>: the number with four significant decimal digits
  nearest to \<open>v\<close>, ties away from zero. \<open>parseFloat(v.toFixed(4))\<close>: the same
  with four digits after the decimal point.
\<close>

definition toPrecision4 :: "real \<Rightarrow> real" where
  "toPrecision4 v =
    (if v = 0 then 0
     else (let e = \<lfloor>log 10 \<bar>v\<bar>\<rfloor>;
               n = \<lfloor>\<bar>v\<bar> / 10 powr (of_int e - 3) + 1 / 2\<rfloor>
           in sgn v * of_int n * 10 powr (of_int e - 3)))"


section \<open>AC sweep engine (CircuitSolver.solveACSweep)\<close>

definition cmatAdd :: "nat \<Rightarrow> nat \<Rightarrow> JComplex \<Rightarrow> CMatrix \<Rightarrow> CMatrix" where
  "cmatAdd r c v G = G[r := (G ! r)[c := cadd (G ! r ! c) v]]"

definition cmatSub :: "nat \<Rightarrow> nat \<Rightarrow> JComplex \<Rightarrow> CMatrix \<Rightarrow> CMatrix" where
  "cmatSub r c v G = G[r := (G ! r)[c := csub (G ! r ! c) v]]"

definition acSkipped :: "ComponentType list" where
  "acSkipped = [VOLTAGE_SOURCE, AC_SOURCE, GROUND, VOLTMETER, AMMETER]"

definition stampAdmittance :: "nat \<Rightarrow> nat \<Rightarrow> JComplex \<Rightarrow> CMatrix \<Rightarrow> CMatrix" where
  "stampAdmittance n1 n2 Y G =
    (let G1 = (if n1 \<noteq> 0 then cmatAdd (getNodeIdx n1) (getNodeIdx n1) Y G else G);
         G2 = (if n2 \<noteq> 0 then cmatAdd (getNodeIdx n2) (getNodeIdx n2) Y G1 else G1)
     in if n1 \<noteq> 0 \<and> n2 \<noteq> 0
        then cmatSub (getNodeIdx n2) (getNodeIdx n1) Y
               (cmatSub (getNodeIdx n1) (getNodeIdx n2) Y G2)
        else G2)"

definition stampComponentAC :: "PortMap \<Rightarrow> real \<Rightarrow> CircuitComponent \<Rightarrow> CMatrix \<Rightarrow> CMatrix" where
  "stampComponentAC p2n omega c G =
    (if ctype c \<in> set acSkipped then G
     else if isLogicGate c then G
     else (case (map_of p2n (cid c, 0), map_of p2n (cid c, 1)) of
             (Some n1, Some n2) \<Rightarrow>
               if ctype c = OPAMP
               then stampAdmittance n1 n2
                      (JComplex (1 / orDefault (inputImpedance c) (10 ^ 7)) 0) G
               else stampAdmittance n1 n2
                      (if ctype c = RESISTOR then JComplex (1 / cvalue c) 0
                       else if ctype c = CAPACITOR then JComplex 0 (omega * cvalue c)
                       else if ctype c = INDUCTOR then JComplex 0 (- 1 / (omega * cvalue c))
                       else czero) G
           | _ \<Rightarrow> G))"

definition stampVoltageSourceAC ::
  "PortMap \<Rightarrow> nat \<Rightarrow> nat \<times> CircuitComponent \<Rightarrow> CMatrix \<times> JComplex list
     \<Rightarrow> CMatrix \<times> JComplex list" where
  "stampVoltageSourceAC p2n nNodes iv GI =
    (case iv of (idx, v) \<Rightarrow>
      (let nPos = map_of p2n (cid v, 0);
           nNeg = map_of p2n (cid v, 1);
           idxVs = nNodes + idx;
           G1 = setAtNodeCol idxVs nPos cone (setAtNodeRow nPos idxVs cone (fst GI));
           G2 = setAtNodeCol idxVs nNeg (JComplex (- 1) 0)
                  (setAtNodeRow nNeg idxVs (JComplex (- 1) 0) G1);
           val = (if ctype v = AC_SOURCE then cvalue v else 0)
       in (G2, (snd GI)[idxVs := JComplex val 0])))"

definition stampOpampAC ::
  "PortMap \<Rightarrow> nat \<Rightarrow> nat \<Rightarrow> nat \<times> CircuitComponent \<Rightarrow> CMatrix \<times> JComplex list
     \<Rightarrow> CMatrix \<times> JComplex list" where
  "stampOpampAC p2n nNodes nVs iop GI =
    (case iop of (idx, op) \<Rightarrow>
      (let nPos = map_of p2n (cid op, 0);
           nNeg = map_of p2n (cid op, 1);
           nOut = map_of p2n (cid op, 2);
           idxOp = nNodes + nVs + idx;
           Gain = opampGain op;
           G1 = setAtNodeRow nOut idxOp cone (fst GI);
           G2 = setAtNodeCol idxOp nOut cone G1;
           G3 = setAtNodeCol idxOp nPos (JComplex (- Gain) 0) G2;
           G4 = setAtNodeCol idxOp nNeg (JComplex Gain 0) G3
       in (G4, (snd GI)[idxOp := czero])))"

definition assembleAC ::
  "CircuitComponent list \<Rightarrow> Graph \<Rightarrow> real \<Rightarrow> CMatrix \<times> JComplex list" where
  "assembleAC components g omega =
    (let vs = filter isVoltageSource components;
         ops = filter (\<lambda>c. ctype c = OPAMP) components;
         size = numNodes g + length vs + length ops;
         G0 = replicate size (replicate size czero);
         I0 = replicate size czero;
         G1 = fold (stampComponentAC (portToNode g) omega) components G0;
         GI2 = fold (stampVoltageSourceAC (portToNode g) (numNodes g)) (enumerate 0 vs) (G1, I0)
     in fold (stampOpampAC (portToNode g) (numNodes g) (length vs)) (enumerate 0 ops) GI2)"

text \<open>
  The real number \<open>10^(logStart + i * stepSize)\<close>. \<open>config.points\<close> is a number
  the panel fills with \<open>parseFloat\<close>, not necessarily whole. For \<open>points = 1\<close> the
  source divides by zero and the frequency is not a number; what is said below of the
  frequencies takes \<open>points\<close> different from 1.
\<close>

definition sweepFrequency :: "SimulationConfig \<Rightarrow> nat \<Rightarrow> real" where
  "sweepFrequency config i =
    (let logStart = log 10 (max 1 (startFreq config));
         logStop = log 10 (stopFreq config);
         stepSize = (logStop - logStart) / (points config - 1)
     in 10 powr (logStart + real i * stepSize))"

text \<open>
  \<open>Math.pow(10, logStart + i * stepSize)\<close> is evaluated in double precision, and its
  result is then rounded by \<open>toPrecision(4)\<close>, which is discontinuous: a double just
  below a tie and the real number on the tie round to different values. The double is
  therefore not replaced by the real number it approximates: \<open>computed\<close> maps the real
  frequency to the double the source holds, and \<open>accurate\<close> bounds its relative error.
\<close>

type_synonym Evaluation = "real \<Rightarrow> real"

definition accurate :: "Evaluation \<Rightarrow> bool" where
  "accurate computed = (\<forall>v>0. \<bar>computed v - v\<bar> \<le> v / 10 ^ 9)"

definition acPoint ::
  "Evaluation \<Rightarrow> CircuitComponent list \<Rightarrow> Graph \<Rightarrow> SimulationConfig \<Rightarrow> nat \<Rightarrow> DataPoint" where
  "acPoint computed components g config i =
    (let freq = computed (sweepFrequency config i);
         omega = 2 * pi * freq;
         GI = assembleAC components g omega;
         sol = ComplexMatrixSolver_solve (fst GI) (snd GI)
     in \<lparr>px = toPrecision4 freq,
         pN = map (\<lambda>n. toPrecision4 (magnitude (sol ! getNodeIdx n))) [1..<numNodes g + 1]\<rparr>)"

definition emptyPlotResult :: "SimulationMode \<Rightarrow> SimulationResult" where
  "emptyPlotResult m =
    \<lparr>nodes = [], nodeVoltages = [], componentCurrents = [], error = None,
     result_frequency = 0, plotData = Some [], mode = m\<rparr>"

text \<open>
  \<open>for (let i = 0; i < steps; i++)\<close> with \<open>steps = config.points\<close>: the body runs for
  every natural number below \<open>points\<close>, that is \<open>ceil(points)\<close> times, and not at
  all when \<open>points\<close> is zero or negative.
\<close>

definition sweepIndices :: "SimulationConfig \<Rightarrow> nat list" where
  "sweepIndices config = [0..<nat \<lceil>points config\<rceil>]"

definition solveACSweep ::
  "Evaluation \<Rightarrow> CircuitComponent list \<Rightarrow> Wire list \<Rightarrow> SimulationConfig \<Rightarrow> SimulationResult" where
  "solveACSweep computed components wires config =
    (let g = buildGraph components wires
     in if numNodes g = 0 then emptyPlotResult AC_SWEEP
        else \<lparr>nodes = [], nodeVoltages = [], componentCurrents = [], error = None,
              result_frequency = 0,
              plotData = Some (map (acPoint computed components g config) (sweepIndices config)),
              mode = AC_SWEEP\<rparr>)"


section \<open>Transient engine (CircuitSolver.solveTransient)\<close>

text \<open>The remainder \<open>a % b\<close>: the quotient is truncated towards zero.\<close>

definition jsMod :: "real \<Rightarrow> real \<Rightarrow> real" where
  "jsMod a b = a - b * of_int (if a / b < 0 then \<lceil>a / b\<rceil> else \<lfloor>a / b\<rfloor>)"

text \<open>
  The value of an independent source at \<open>time\<close>. The \<open>switch\<close> has no
  \<open>default\<close>: a waveform string that matches no \<open>case\<close> leaves \<open>val\<close> at its
  initial \<open>v.value\<close>. \<open>v.waveform || 'SINE'\<close> replaces a missing or empty string.
\<close>

definition sourceValue :: "CircuitComponent \<Rightarrow> real \<Rightarrow> real" where
  "sourceValue v time =
    (if ctype v = AC_SOURCE
     then (let freq = orDefault (frequency v) 60;
               bias = orDefault (dcBias v) 0;
               wf = (case waveform v of None \<Rightarrow> ''SINE''
                     | Some w \<Rightarrow> if w = [] then ''SINE'' else w);
               period = 1 / freq;
               tMod = jsMod time period
           in if wf = ''SINE'' then cvalue v * sin (2 * pi * freq * time) + bias
              else if wf = ''SQUARE''
              then (let duty = orDefault (dutyCycle v) (1 / 2)
                    in (if tMod < period * duty then cvalue v else - cvalue v) + bias)
              else if wf = ''TRIANGLE''
              then (let triPhase = tMod / period
                    in (if triPhase < 1 / 4 then 4 * cvalue v * triPhase
                        else if triPhase < 3 / 4 then cvalue v * (2 - 4 * triPhase)
                        else cvalue v * (4 * triPhase - 4)) + bias)
              else if wf = ''SAWTOOTH''
              then 2 * cvalue v * (tMod / period) - cvalue v + bias
              else if wf = ''PULSE''
              then (let pDuty = orDefault (dutyCycle v) (1 / 2)
                    in (if tMod < period * pDuty then cvalue v else 0) + bias)
              else cvalue v)
     else cvalue v)"

definition icGet :: "(string \<times> real) list \<Rightarrow> string \<Rightarrow> real" where
  "icGet ic k = (case map_of ic k of None \<Rightarrow> 0 | Some v \<Rightarrow> v)"

record TransientState =
  prevVoltages :: "real list"
  inductorCurrents :: "(string \<times> real) list"
  finalVoltages :: "real list"
  tr_plotData :: "DataPoint list"

definition stampComponentTR ::
  "PortMap \<Rightarrow> real \<Rightarrow> TransientState \<Rightarrow> CircuitComponent \<Rightarrow> Matrix \<times> real list
     \<Rightarrow> Matrix \<times> real list" where
  "stampComponentTR p2n dt st c GI =
    (if ctype c \<in> set acSkipped then GI
     else if isLogicGate c then GI
     else if ctype c = OPAMP then stampOpampInput p2n c GI
     else (case (map_of p2n (cid c, 0), map_of p2n (cid c, 1)) of
             (Some n1, Some n2) \<Rightarrow>
               (let g_equiv =
                      (if ctype c = RESISTOR then 1 / cvalue c
                       else if ctype c = CAPACITOR then cvalue c / dt
                       else if ctype c = INDUCTOR then dt / cvalue c
                       else 0);
                    i_source =
                      (if ctype c = CAPACITOR
                       then cvalue c / dt * (prevVoltages st ! n1 - prevVoltages st ! n2)
                       else if ctype c = INDUCTOR then - icGet (inductorCurrents st) (cid c)
                       else 0);
                    i_rhs = (if ctype c = CAPACITOR then i_source
                             else if ctype c = INDUCTOR
                             then - icGet (inductorCurrents st) (cid c)
                             else 0)
                in stampConductance n1 n2 g_equiv i_rhs GI)
           | _ \<Rightarrow> GI))"

definition stampVoltageSourceTR ::
  "PortMap \<Rightarrow> nat \<Rightarrow> real \<Rightarrow> nat \<times> CircuitComponent \<Rightarrow> Matrix \<times> real list
     \<Rightarrow> Matrix \<times> real list" where
  "stampVoltageSourceTR p2n nNodes time iv GI =
    (case iv of (idx, v) \<Rightarrow>
      (let nPos = map_of p2n (cid v, 0);
           nNeg = map_of p2n (cid v, 1);
           idxVs = nNodes + idx
       in (stampBranch nPos nNeg idxVs (fst GI), vecSet idxVs (sourceValue v time) (snd GI))))"

definition stampOpampTR ::
  "PortMap \<Rightarrow> nat \<Rightarrow> nat \<Rightarrow> nat \<times> CircuitComponent \<Rightarrow> Matrix \<times> real list
     \<Rightarrow> Matrix \<times> real list" where
  "stampOpampTR p2n nNodes nVs iop GI =
    (case iop of (idx, op) \<Rightarrow>
      (let nPos = map_of p2n (cid op, 0);
           nNeg = map_of p2n (cid op, 1);
           nOut = map_of p2n (cid op, 2);
           idxOp = nNodes + nVs + idx;
           Gain = opampGain op;
           G1 = setAtNodeRow nOut idxOp 1 (fst GI);
           G2 = setAtNodeCol idxOp nOut 1 G1;
           G3 = setAtNodeCol idxOp nPos (- Gain) G2;
           G4 = setAtNodeCol idxOp nNeg Gain G3
       in (G4, vecSet idxOp 0 (snd GI))))"

definition assembleTR ::
  "CircuitComponent list \<Rightarrow> Graph \<Rightarrow> real \<Rightarrow> real \<Rightarrow> TransientState \<Rightarrow> Matrix \<times> real list" where
  "assembleTR components g dt time st =
    (let vs = filter isVoltageSource components;
         ops = filter (\<lambda>c. ctype c = OPAMP) components;
         size = numNodes g + length vs + length ops;
         GI0 = (replicate size (replicate size 0), replicate size 0);
         GI1 = fold (stampComponentTR (portToNode g) dt st) components GI0;
         GI2 = fold (stampVoltageSourceTR (portToNode g) (numNodes g) time) (enumerate 0 vs) GI1
     in fold (stampOpampTR (portToNode g) (numNodes g) (length vs)) (enumerate 0 ops) GI2)"



definition transientInitial :: "CircuitComponent list \<Rightarrow> Graph \<Rightarrow> TransientState" where
  "transientInitial components g =
    \<lparr>prevVoltages = replicate (numNodes g + 1) 0,
     inductorCurrents = fold (\<lambda>c. AList.update (cid c) 0)
                          (filter (\<lambda>c. ctype c = INDUCTOR) components) [],
     finalVoltages = replicate (numNodes g) 0,
     tr_plotData = []\<rparr>"




section \<open>Specification-level definitions and example circuits\<close>

text \<open>Components and wires for the concrete instances below.\<close>

definition exampleComponent :: "string \<Rightarrow> ComponentType \<Rightarrow> real \<Rightarrow> CircuitComponent" where
  "exampleComponent i t v =
    \<lparr>cid = i, ctype = t, cvalue = v, frequency = None, waveform = None, dcBias = None,
     dutyCycle = None, inputImpedance = None, inputCount = None\<rparr>"

definition exampleWire :: "string \<Rightarrow> nat \<Rightarrow> string \<Rightarrow> nat \<Rightarrow> Wire" where
  "exampleWire a i b j =
    \<lparr>wid = ''w'', wfrom = \<lparr>componentId = a, portIndex = i\<rparr>,
     wto = \<lparr>componentId = b, portIndex = j\<rparr>\<rparr>"




text \<open>
  The specification's stamp of an admittance \<open>Y\<close> between nodes \<open>n1\<close> and
  \<open>n2\<close>, as the amount added to coefficient \<open>(r, k)\<close>: \<open>+Y\<close> at \<open>(n1, n1)\<close>
  and \<open>(n2, n2)\<close>, \<open>-Y\<close> at the two off-diagonals, with \<open>idx n = n - 1\<close> and
  ground contributions dropped (row \<open>r\<close> belongs to node \<open>Suc r\<close>, so no row
  belongs to node 0). Likewise a current \<open>i\<close> added at \<open>n1\<close> and
  subtracted at \<open>n2\<close>.
\<close>

definition admittanceAt :: "nat \<Rightarrow> nat \<Rightarrow> real \<Rightarrow> nat \<Rightarrow> nat \<Rightarrow> real" where
  "admittanceAt n1 n2 Y r k =
     (if Suc r = n1 \<and> Suc k = n1 then Y else 0)
   + (if Suc r = n2 \<and> Suc k = n2 then Y else 0)
   - (if Suc r = n1 \<and> Suc k = n2 then Y else 0)
   - (if Suc r = n2 \<and> Suc k = n1 then Y else 0)"

definition currentAt :: "nat \<Rightarrow> nat \<Rightarrow> real \<Rightarrow> nat \<Rightarrow> real" where
  "currentAt n1 n2 i r = (if Suc r = n1 then i else 0) - (if Suc r = n2 then i else 0)"

text \<open>The diode rule of the specification.\<close>

definition diodeForwardVoltage :: "CircuitComponent \<Rightarrow> real" where
  "diodeForwardVoltage c = (if cvalue c > 0 then cvalue c else 7 / 10)"

definition diodeConducting :: "Voltages \<Rightarrow> CircuitComponent \<Rightarrow> nat \<Rightarrow> nat \<Rightarrow> bool" where
  "diodeConducting cv c n1 n2 = (cvGet cv n1 - cvGet cv n2 > diodeForwardVoltage c)"

definition diodeAdmittance :: "Voltages \<Rightarrow> CircuitComponent \<Rightarrow> nat \<Rightarrow> nat \<Rightarrow> real" where
  "diodeAdmittance cv c n1 n2 = (if diodeConducting cv c n1 n2 then 1 / 10 else 1 / 10 ^ 9)"

definition diodeCurrent :: "Voltages \<Rightarrow> CircuitComponent \<Rightarrow> nat \<Rightarrow> nat \<Rightarrow> real" where
  "diodeCurrent cv c n1 n2 =
     (if diodeConducting cv c n1 n2 then 1 / 10 * diodeForwardVoltage c else 0)"



text \<open>
  Circuits with no DIODE, LED, OPAMP or logic gate, and the Ohm's-law example: a 10 V
  source across a 100 Ohm resistor to ground.
\<close>

definition nonlinearTypes :: "ComponentType list" where
  "nonlinearTypes = [DIODE, LED, OPAMP, AND_GATE, OR_GATE, NOT_GATE, NAND_GATE, NOR_GATE, XOR_GATE]"

definition linearCircuit :: "CircuitComponent list \<Rightarrow> bool" where
  "linearCircuit components = list_all (\<lambda>c. ctype c \<notin> set nonlinearTypes) components"

definition ohmCircuit :: "CircuitComponent list" where
  "ohmCircuit = [exampleComponent ''g'' GROUND 0, exampleComponent ''v'' VOLTAGE_SOURCE 10,
                 exampleComponent ''r'' RESISTOR 100]"

definition ohmWires :: "Wire list" where
  "ohmWires = [exampleWire ''v'' 0 ''r'' 0, exampleWire ''r'' 1 ''g'' 0, exampleWire ''v'' 1 ''g'' 0]"

text \<open>The forward-elimination phase of \<open>MatrixSolver.solve\<close>, named for the statements below.\<close>

definition forwardElimination :: "Matrix \<Rightarrow> real list \<Rightarrow> Matrix \<times> real list" where
  "forwardElimination A B = fold (forwardStep (length A)) [0..<length A] (A, B)"

text \<open>
  The ports of a component by kind, the links made by the wires (both directions), the
  edges of an adjacency, and what the breadth-first search establishes.
\<close>

definition validPorts :: "CircuitComponent \<Rightarrow> nat list" where
  "validPorts c =
    (if ctype c = GROUND then [0]
     else if ctype c = OPAMP then [0, 1, 2]
     else if ctype c \<in> set multiInputGates then [0..<orDefaultNat (inputCount c) 2 + 1]
     else [0, 1])"

definition wireLinks :: "Wire list \<Rightarrow> (PortKey \<times> PortKey) set" where
  "wireLinks wires =
     (\<Union>w \<in> set wires. {(pk (wfrom w), pk (wto w)), (pk (wto w), pk (wfrom w))})"

definition adjEdges :: "Adj \<Rightarrow> (PortKey \<times> PortKey) set" where
  "adjEdges adj = {(u, v). v \<in> set (adjGet adj u)}"

definition bfsPost :: "Adj \<Rightarrow> CircuitComponent list \<Rightarrow> PortKey list \<Rightarrow> PortKey set
    \<Rightarrow> PortKey list \<Rightarrow> bool \<Rightarrow> PortKey list \<times> PortKey set \<times> bool \<Rightarrow> bool" where
  "bfsPost adj components queue visited grp isGround res =
    (case res of (grp', visited', isGround') \<Rightarrow>
       visited \<subseteq> visited'
     \<and> set grp' = set grp \<union> set queue \<union> (visited' - visited)
     \<and> (\<forall>u. u \<in> set queue \<union> (visited' - visited) \<longrightarrow> set (adjGet adj u) \<subseteq> visited')
     \<and> (isGround' = (isGround \<or> (\<exists>u. u \<in> set queue \<union> (visited' - visited)
                                       \<and> isGroundKey components u)))
     \<and> (\<forall>v. v \<in> visited' - visited \<longrightarrow> (\<exists>s. s \<in> set queue \<and> (s, v) \<in> (adjEdges adj)\<^sup>*)))"

text \<open>
  The invariant of \<open>for (const portKey of adj.keys())\<close>: the ports numbered so far are
  closed under the adjacency, linked ports share a node, node 0 marks the groups that reach
  a port whose component is found to be a GROUND, equal positive ids mean linked ports, and
  every id is below \<open>nodeCount\<close>.
\<close>

definition graphInv :: "Adj \<Rightarrow> CircuitComponent list \<Rightarrow> PortKey set \<times> PortMap \<times> nat \<Rightarrow> bool" where
  "graphInv adj components st =
    (case st of (visited, p2n, nodeCount) \<Rightarrow>
       dom (map_of p2n) = visited
     \<and> (\<forall>u v. u \<in> visited \<and> (u, v) \<in> adjEdges adj \<longrightarrow> v \<in> visited)
     \<and> (\<forall>u v. u \<in> visited \<and> (u, v) \<in> adjEdges adj \<longrightarrow> map_of p2n u = map_of p2n v)
     \<and> (\<forall>u. u \<in> visited \<longrightarrow>
            (map_of p2n u = Some 0)
              = (\<exists>v. (u, v) \<in> (adjEdges adj)\<^sup>* \<and> isGroundKey components v))
     \<and> (\<forall>u v n. n \<noteq> 0 \<and> map_of p2n u = Some n \<and> map_of p2n v = Some n
            \<longrightarrow> (u, v) \<in> (adjEdges adj)\<^sup>*)
     \<and> (\<forall>u n. map_of p2n u = Some n \<longrightarrow> n < nodeCount)
     \<and> 1 \<le> nodeCount)"

text \<open>
  The ports of a circuit (the valid ports of its components and the end points of its
  wires), what it means for a port to belong to a GROUND component, the assumption that
  no component id holds a colon, and the node of a port.
\<close>

definition circuitPorts :: "CircuitComponent list \<Rightarrow> Wire list \<Rightarrow> PortKey set" where
  "circuitPorts components wires =
     (\<Union>c\<in>set components. (\<lambda>i. (cid c, i)) ` set (validPorts c)) \<union> fst ` wireLinks wires"

definition groundPort :: "CircuitComponent list \<Rightarrow> PortKey \<Rightarrow> bool" where
  "groundPort components k = (\<exists>c\<in>set components. ctype c = GROUND \<and> cid c = fst k)"

definition colonFree :: "CircuitComponent list \<Rightarrow> Wire list \<Rightarrow> bool" where
  "colonFree components wires =
     (list_all (\<lambda>c. CHR '':'' \<notin> set (cid c)) components
      \<and> list_all (\<lambda>w. CHR '':'' \<notin> set (componentId (wfrom w))
                      \<and> CHR '':'' \<notin> set (componentId (wto w))) wires)"

definition nodeOf :: "Graph \<Rightarrow> PortKey \<Rightarrow> nat option" where
  "nodeOf g k = map_of (portToNode g) k"

definition colonCircuit :: "CircuitComponent list" where
  "colonCircuit = [exampleComponent ''a'' GROUND 0, exampleComponent ''a:b'' RESISTOR 100]"

text \<open>
  The shape of a system of size \<open>n\<close>, one of its rows with its right-hand side, node
  ids bounded by the number of nodes, and the rows the assignments of the extra equations
  leave in a fresh row: a later assignment to the same column replaces the earlier one.
\<close>

definition shaped :: "nat \<Rightarrow> 'a list list \<times> 'b list \<Rightarrow> bool" where
  "shaped n GI = (length (fst GI) = n \<and> length (snd GI) = n
                  \<and> list_all (\<lambda>row. length row = n) (fst GI))"

definition rowAt :: "nat \<Rightarrow> 'a list list \<times> 'b list \<Rightarrow> 'a list \<times> 'b" where
  "rowAt r GI = (fst GI ! r, snd GI ! r)"

definition nodesBounded :: "PortMap \<Rightarrow> nat \<Rightarrow> bool" where
  "nodesBounded p2n n = list_all (\<lambda>kn. snd kn \<le> n) p2n"

definition optBounded :: "nat option \<Rightarrow> nat \<Rightarrow> bool" where
  "optBounded nd n = (case nd of None \<Rightarrow> True | Some m \<Rightarrow> m \<le> n)"

definition branchCoeff :: "nat option \<Rightarrow> nat option \<Rightarrow> nat \<Rightarrow> real" where
  "branchCoeff nPos nNeg k =
     (if nNeg = Some (Suc k) then - 1 else if nPos = Some (Suc k) then 1 else 0)"

definition saturatedCoeff :: "nat option \<Rightarrow> nat \<Rightarrow> real" where
  "saturatedCoeff nOut k = (if nOut = Some (Suc k) then 1 else 0)"

definition linearCoeff :: "nat option \<Rightarrow> nat option \<Rightarrow> nat option \<Rightarrow> real \<Rightarrow> nat \<Rightarrow> real" where
  "linearCoeff nOut nPos nNeg Gain k =
     (if nNeg = Some (Suc k) then Gain
      else if nPos = Some (Suc k) then - Gain
      else if nOut = Some (Suc k) then 1 else 0)"

definition opampNodes :: "DCContext \<Rightarrow> CircuitComponent \<Rightarrow> nat option \<times> nat option \<times> nat option" where
  "opampNodes ctx op =
     (map_of (dc_portToNode ctx) (cid op, 2), map_of (dc_portToNode ctx) (cid op, 0),
      map_of (dc_portToNode ctx) (cid op, 1))"

definition opampTarget :: "DCContext \<Rightarrow> Voltages \<Rightarrow> CircuitComponent \<Rightarrow> real" where
  "opampTarget ctx cv op =
     (case opampNodes ctx op of (nOut, nPos, nNeg) \<Rightarrow>
        opampGain op * (opampInputV cv nPos - opampInputV cv nNeg))"

definition opampRow :: "DCContext \<Rightarrow> Voltages \<Rightarrow> CircuitComponent \<Rightarrow> nat \<Rightarrow> real" where
  "opampRow ctx cv op k =
     (case opampNodes ctx op of (nOut, nPos, nNeg) \<Rightarrow>
        if snd (clampToRails (opampTarget ctx cv op)) then saturatedCoeff nOut k
        else linearCoeff nOut nPos nNeg (opampGain op) k)"

definition opampRhs :: "DCContext \<Rightarrow> Voltages \<Rightarrow> CircuitComponent \<Rightarrow> real" where
  "opampRhs ctx cv op =
     (if snd (clampToRails (opampTarget ctx cv op)) then fst (clampToRails (opampTarget ctx cv op))
      else 0)"

definition gateOutNode :: "DCContext \<Rightarrow> CircuitComponent \<Rightarrow> nat option" where
  "gateOutNode ctx g =
     map_of (dc_portToNode ctx)
       (cid g, if ctype g = NOT_GATE then 1 else orDefaultNat (inputCount g) 2)"

text \<open>
  The index of the extra unknown of the i-th voltage source, ammeter, op-amp and logic
  gate, in the order of the specification, and the row of a source or an ammeter.
\<close>

definition vsIndex :: "DCContext \<Rightarrow> nat \<Rightarrow> nat" where
  "vsIndex ctx i = dc_numNodes ctx + i"

definition amIndex :: "DCContext \<Rightarrow> nat \<Rightarrow> nat" where
  "amIndex ctx i = dc_numNodes ctx + length (voltageSources ctx) + i"

definition opIndex :: "DCContext \<Rightarrow> nat \<Rightarrow> nat" where
  "opIndex ctx i = dc_numNodes ctx + length (voltageSources ctx) + length (ammeters ctx) + i"

definition gateIndex :: "DCContext \<Rightarrow> nat \<Rightarrow> nat" where
  "gateIndex ctx i = dc_numNodes ctx + length (voltageSources ctx) + length (ammeters ctx)
                       + length (opamps ctx) + i"

definition branchRow :: "DCContext \<Rightarrow> CircuitComponent \<Rightarrow> real list" where
  "branchRow ctx c =
     map (branchCoeff (map_of (dc_portToNode ctx) (cid c, 0))
                      (map_of (dc_portToNode ctx) (cid c, 1))) [0..<dcSize ctx]"

text \<open>
  The bound on node ids carried through the numbering loop, the context of a circuit, the
  indices of the extra unknowns in order, and what it means that the current of a
  component is read from the solution at an index.
\<close>

definition valuesBelow :: "PortKey set \<times> PortMap \<times> nat \<Rightarrow> bool" where
  "valuesBelow st = (case st of (visited, p2n, nodeCount) \<Rightarrow>
      list_all (\<lambda>kn. snd kn < nodeCount) p2n \<and> 1 \<le> nodeCount)"


definition circuitContext :: "CircuitComponent list \<Rightarrow> Wire list \<Rightarrow> DCContext" where
  "circuitContext components wires = dcContext components (buildGraph components wires)"


text \<open>
  The coefficient of the voltage of node \<open>k + 1\<close> in the relation
  \<open>V(out) - gain * V(+) + gain * V(-) = 0\<close> of the specification (the voltage of
  ground is 0 and has no column), ports of which no two share a non-ground node, and two
  op-amp circuits on a 10 V source: a voltage follower, the output wired to the inverting
  input, with gain 1, and a comparator, the inverting input at ground, with the default
  gain.
\<close>

definition relationCoeff :: "nat option \<Rightarrow> nat option \<Rightarrow> nat option \<Rightarrow> real \<Rightarrow> nat \<Rightarrow> real" where
  "relationCoeff nOut nPos nNeg Gain k =
     (if nOut = Some (Suc k) then 1 else 0) - (if nPos = Some (Suc k) then Gain else 0)
       + (if nNeg = Some (Suc k) then Gain else 0)"

definition grounded :: "nat option \<Rightarrow> bool" where
  "grounded nd = (nd = None \<or> nd = Some 0)"

definition separateNodes :: "nat option \<Rightarrow> nat option \<Rightarrow> nat option \<Rightarrow> bool" where
  "separateNodes nOut nPos nNeg =
     ((nOut \<noteq> nPos \<or> grounded nOut) \<and> (nOut \<noteq> nNeg \<or> grounded nOut)
      \<and> (nPos \<noteq> nNeg \<or> grounded nPos))"

definition followerCircuit :: "CircuitComponent list" where
  "followerCircuit = [exampleComponent ''g'' GROUND 0, exampleComponent ''v'' VOLTAGE_SOURCE 10,
                      exampleComponent ''u'' OPAMP 1]"

definition followerWires :: "Wire list" where
  "followerWires = [exampleWire ''v'' 0 ''u'' 0, exampleWire ''v'' 1 ''g'' 0,
                    exampleWire ''u'' 2 ''u'' 1]"

definition comparatorCircuit :: "CircuitComponent list" where
  "comparatorCircuit = [exampleComponent ''g'' GROUND 0, exampleComponent ''v'' VOLTAGE_SOURCE 10,
                        exampleComponent ''u'' OPAMP 0]"

definition comparatorWires :: "Wire list" where
  "comparatorWires = [exampleWire ''v'' 0 ''u'' 0, exampleWire ''v'' 1 ''g'' 0,
                      exampleWire ''u'' 1 ''g'' 0]"

text \<open>
  Two sweeps of two points, from 1 Hz to 1.0001 Hz and from 1 Hz to 12346 Hz, a sweep
  with \<open>points = 2.5\<close>, and the evaluation without rounding error.
\<close>

definition narrowSweep :: SimulationConfig where
  "narrowSweep = \<lparr>timeStep = 1, stopTime = 1, startFreq = 1, stopFreq = 10001 / 10000, points = 2\<rparr>"

definition wideSweep :: SimulationConfig where
  "wideSweep = \<lparr>timeStep = 1, stopTime = 1, startFreq = 1, stopFreq = 12346, points = 2\<rparr>"

definition fractionalSweep :: SimulationConfig where
  "fractionalSweep = \<lparr>timeStep = 1, stopTime = 1, startFreq = 1, stopFreq = 10, points = 5 / 2\<rparr>"

definition exactEvaluation :: Evaluation where
  "exactEvaluation v = v"

section \<open>Exceptions of the solver and the catch branch of solveCircuit\<close>

text \<open>
  \<open>MatrixSolver.solve\<close> has no \<open>throw\<close> statement; what it can raise is the
  \<open>TypeError\<close> of reading \<open>M[i][j]\<close> when \<open>M[i]\<close> is undefined, that is when
  \<open>i\<close> is not an index of \<open>M\<close>. Reading an element outside a row gives
  \<open>undefined\<close> and raises nothing. The functions below are the solver with every row
  access checked, and \<open>solveCircuit\<close> with its \<open>try { ... } catch (e)\<close>, which
  returns the \<open>Singular matrix\<close> result for whatever the solver raises.
\<close>

datatype Thrown = TypeError

definition rowOf :: "'a list list \<Rightarrow> nat \<Rightarrow> Thrown + 'a list" where
  "rowOf M i = (if i < length M then Inr (M ! i) else Inl TypeError)"

fun foldTry :: "('b \<Rightarrow> 'a \<Rightarrow> Thrown + 'a) \<Rightarrow> 'b list \<Rightarrow> 'a \<Rightarrow> Thrown + 'a" where
  "foldTry f [] a = Inr a"
| "foldTry f (x # xs) a = (case f x a of Inl e \<Rightarrow> Inl e | Inr b \<Rightarrow> foldTry f xs b)"

definition findPivot_try :: "Matrix \<Rightarrow> nat \<Rightarrow> nat \<Rightarrow> Thrown + nat" where
  "findPivot_try M n i =
     (case rowOf M i of Inl e \<Rightarrow> Inl e
      | Inr Mi \<Rightarrow>
          map_sum id fst
            (foldTry (\<lambda>k (maxRow, maxVal).
                        case rowOf M k of Inl e \<Rightarrow> Inl e
                        | Inr Mk \<Rightarrow> Inr (if \<bar>Mk ! i\<bar> > maxVal then (k, \<bar>Mk ! i\<bar>)
                                         else (maxRow, maxVal)))
               [i + 1..<n] (i, \<bar>Mi ! i\<bar>)))"

definition eliminateRow_try ::
  "nat \<Rightarrow> nat \<Rightarrow> nat \<Rightarrow> Matrix \<times> real list \<Rightarrow> Thrown + Matrix \<times> real list" where
  "eliminateRow_try n i k MV =
    (case MV of (M, V) \<Rightarrow>
      (case rowOf M k of Inl e \<Rightarrow> Inl e
       | Inr Mk \<Rightarrow>
          (case rowOf M i of Inl e \<Rightarrow> Inl e
           | Inr Mi \<Rightarrow>
              (let factor = Mk ! i / Mi ! i;
                   V' = V[k := V ! k - factor * V ! i]
               in map_sum id (\<lambda>M'. (M', V'))
                    (foldTry (\<lambda>j Mx.
                                case rowOf Mx k of Inl e \<Rightarrow> Inl e
                                | Inr Xk \<Rightarrow>
                                   (case rowOf Mx i of Inl e \<Rightarrow> Inl e
                                    | Inr Xi \<Rightarrow> Inr (Mx[k := Xk[j := Xk ! j - factor * Xi ! j]])))
                       [i..<n] M)))))"

definition forwardStep_try ::
  "nat \<Rightarrow> nat \<Rightarrow> Matrix \<times> real list \<Rightarrow> Thrown + Matrix \<times> real list" where
  "forwardStep_try n i MV =
    (case MV of (M, V) \<Rightarrow>
      (case findPivot_try M n i of Inl e \<Rightarrow> Inl e
       | Inr maxRow \<Rightarrow>
          (let M1 = swapList i maxRow M;
               V1 = swapList i maxRow V
           in case rowOf M1 i of Inl e \<Rightarrow> Inl e
              | Inr Mi \<Rightarrow> if \<bar>Mi ! i\<bar> < 1 / 10 ^ 12 then Inr (M1, V1)
                         else foldTry (eliminateRow_try n i) [i + 1..<n] (M1, V1))))"

definition backStep_try ::
  "nat \<Rightarrow> Matrix \<Rightarrow> real list \<Rightarrow> nat \<Rightarrow> real list \<Rightarrow> Thrown + real list" where
  "backStep_try n M V i xs =
    (case rowOf M i of Inl e \<Rightarrow> Inl e
     | Inr Mi \<Rightarrow>
        if \<bar>Mi ! i\<bar> < 1 / 10 ^ 12 then Inr xs
        else (let sum = fold (\<lambda>j s. s + Mi ! j * xs ! j) [i + 1..<n] 0
              in Inr (xs[i := (V ! i - sum) / Mi ! i])))"

definition MatrixSolver_solve_try :: "Matrix \<Rightarrow> real list \<Rightarrow> Thrown + real list" where
  "MatrixSolver_solve_try A B =
    (let n = length A
     in case foldTry (forwardStep_try n) [0..<n] (A, B) of Inl e \<Rightarrow> Inl e
        | Inr MV \<Rightarrow> foldTry (backStep_try n (fst MV) (snd MV)) (rev [0..<n]) (replicate n 0))"

definition dcIteration_try :: "DCContext \<Rightarrow> DCState \<Rightarrow> Thrown + DCState" where
  "dcIteration_try ctx st =
    (let gt = updateGateTargets ctx (currentVoltages st) (gateTargets st);
         GI = assembleDC ctx (currentVoltages st) gt
     in case MatrixSolver_solve_try (fst GI) (snd GI) of
          Inl e \<Rightarrow> Inl e
        | Inr xs \<Rightarrow>
            (let dv = updateVoltages (dc_numNodes ctx) xs (currentVoltages st)
             in Inr \<lparr>iteration = iteration st + 1,
                     converged = (fst dv < 1 / 100),
                     currentVoltages = snd dv,
                     gateTargets = gt,
                     finalX = xs\<rparr>))"

fun dcLoop_try :: "nat \<Rightarrow> DCContext \<Rightarrow> DCState \<Rightarrow> Thrown + DCState" where
  "dcLoop_try 0 ctx st = Inr st"
| "dcLoop_try (Suc k) ctx st =
     (if converged st then Inr st
      else (case dcIteration_try ctx st of Inl e \<Rightarrow> Inl e | Inr st' \<Rightarrow> dcLoop_try k ctx st'))"

definition singularResult :: "real \<Rightarrow> SimulationResult" where
  "singularResult f =
    \<lparr>nodes = [], nodeVoltages = [], componentCurrents = [],
     error = Some ''Singular matrix'', result_frequency = f, plotData = None,
     mode = INTERACTIVE\<rparr>"

definition solveCircuit_try ::
  "CircuitComponent list \<Rightarrow> Wire list \<Rightarrow> real \<Rightarrow> SimulationResult" where
  "solveCircuit_try components wires freq =
    (let g = buildGraph components wires
     in if \<not> hasGround (portToNode g) then noGroundResult freq
        else (let ctx = dcContext components g
              in case dcLoop_try maxIterations ctx (dcInitial ctx) of
                   Inl e \<Rightarrow> singularResult freq
                 | Inr st \<Rightarrow>
                     (let rv = resultVoltages (currentVoltages st);
                          cc = fold (harvestPassive (portToNode g) (finalX st)) components
                                 (harvestExtra ctx (finalX st))
                      in \<lparr>nodes = simNodes (nodeToComponents (portToNode g)) rv,
                          nodeVoltages = rv,
                          componentCurrents = cc,
                          error = None,
                          result_frequency = freq,
                          plotData = None,
                          mode = INTERACTIVE\<rparr>)))"










text \<open>
  Two systems that differ by \<open>S\<close> in the matrix and by \<open>T\<close> in the right-hand
  side, where \<open>S\<close> and \<open>T\<close> vanish outside the node block; the context in which
  the passive pass skips the component at position \<open>j\<close> (graph, sizes and the lists
  of sources, ammeters, op-amps and gates unchanged); the system an iteration of the loop
  assembles and solves from the state it starts in; the state after \<open>i\<close> iterations;
  and a diode circuit: a 5 V source, a diode with no forward voltage given, and a
  100 Ohm resistor to ground.
\<close>

definition differ ::
  "nat \<Rightarrow> nat \<Rightarrow> (nat \<Rightarrow> nat \<Rightarrow> real) \<Rightarrow> (nat \<Rightarrow> real) \<Rightarrow> Matrix \<times> real list
     \<Rightarrow> Matrix \<times> real list \<Rightarrow> bool" where
  "differ m n S T GI GI' =
     (shaped n GI \<and> shaped n GI'
      \<and> (\<forall>r<n. \<forall>k<n. fst GI ! r ! k = fst GI' ! r ! k + S r k)
      \<and> (\<forall>r<n. snd GI ! r = snd GI' ! r + T r)
      \<and> (\<forall>r k. m \<le> r \<or> m \<le> k \<longrightarrow> S r k = 0)
      \<and> (\<forall>r. m \<le> r \<longrightarrow> T r = 0))"

definition withoutComponent :: "DCContext \<Rightarrow> nat \<Rightarrow> DCContext" where
  "withoutComponent ctx j =
     ctx\<lparr>dc_components := take j (dc_components ctx) @ drop (Suc j) (dc_components ctx)\<rparr>"

definition dcSystem :: "DCContext \<Rightarrow> DCState \<Rightarrow> Matrix \<times> real list" where
  "dcSystem ctx st =
     assembleDC ctx (currentVoltages st)
       (updateGateTargets ctx (currentVoltages st) (gateTargets st))"

primrec dcIterate :: "DCContext \<Rightarrow> DCState \<Rightarrow> nat \<Rightarrow> DCState" where
  "dcIterate ctx st 0 = st"
| "dcIterate ctx st (Suc i) = dcIteration ctx (dcIterate ctx st i)"

definition diodeCircuit :: "CircuitComponent list" where
  "diodeCircuit = [exampleComponent ''g'' GROUND 0, exampleComponent ''v'' VOLTAGE_SOURCE 5,
                   exampleComponent ''d'' DIODE 0, exampleComponent ''r'' RESISTOR 100]"

definition diodeWires :: "Wire list" where
  "diodeWires = [exampleWire ''v'' 0 ''d'' 0, exampleWire ''d'' 1 ''r'' 0,
                 exampleWire ''r'' 1 ''g'' 0, exampleWire ''v'' 1 ''g'' 0]"

section \<open>Matrix and vector updates\<close>

lemma matAdd_length [simp]: "length (matAdd a b v G) = length G"
  by (simp add: matAdd_def)

lemma matAdd_row_length [simp]: "length (matAdd a b v G ! r) = length (G ! r)"
  by (cases "a < length G"; cases "r = a") (simp_all add: matAdd_def list_update_beyond)

lemma matAdd_nth:
  "r < length G \<Longrightarrow> k < length (G ! r) \<Longrightarrow>
   matAdd a b v G ! r ! k = G ! r ! k + (if r = a \<and> k = b then v else 0)"
  by (cases "r = a"; cases "k = b") (simp_all add: matAdd_def)

lemma matSet_length [simp]: "length (matSet a b v G) = length G"
  by (simp add: matSet_def)

lemma matSet_row_length [simp]: "length (matSet a b v G ! r) = length (G ! r)"
  by (cases "a < length G"; cases "r = a") (simp_all add: matSet_def list_update_beyond)

lemma matSet_nth:
  "r < length G \<Longrightarrow> k < length (G ! r) \<Longrightarrow>
   matSet a b v G ! r ! k = (if r = a \<and> k = b then v else G ! r ! k)"
  by (cases "r = a"; cases "k = b") (simp_all add: matSet_def)

lemma vecAdd_length [simp]: "length (vecAdd a v I) = length I"
  by (simp add: vecAdd_def)

lemma vecAdd_nth: "r < length I \<Longrightarrow> vecAdd a v I ! r = I ! r + (if r = a then v else 0)"
  by (cases "r = a") (simp_all add: vecAdd_def)

lemma vecSet_length [simp]: "length (vecSet a v I) = length I"
  by (simp add: vecSet_def)

lemma vecSet_nth: "r < length I \<Longrightarrow> vecSet a v I ! r = (if r = a then v else I ! r)"
  by (cases "r = a") (simp_all add: vecSet_def)

section \<open>The conductance stamp\<close>

lemma getNodeIdx_eq: "n \<noteq> 0 \<Longrightarrow> (r = getNodeIdx n) = (Suc r = n)"
  by (auto simp: getNodeIdx_def)

lemma matAdd_node_nth:
  "n1 \<noteq> 0 \<Longrightarrow> n2 \<noteq> 0 \<Longrightarrow> r < length G \<Longrightarrow> k < length (G ! r) \<Longrightarrow>
   matAdd (getNodeIdx n1) (getNodeIdx n2) v G ! r ! k
     = G ! r ! k + (if Suc r = n1 \<and> Suc k = n2 then v else 0)"
  by (simp add: matAdd_nth getNodeIdx_eq)

lemma vecAdd_node_nth:
  "n \<noteq> 0 \<Longrightarrow> r < length I \<Longrightarrow>
   vecAdd (getNodeIdx n) v I ! r = I ! r + (if Suc r = n then v else 0)"
  by (simp add: vecAdd_nth getNodeIdx_eq)

lemma if_minus: "(if c then - g else 0) = - (if c then g else (0::real))"
  by simp

lemma stampConductance_matrix:
  assumes "r < length G" and "k < length (G ! r)"
  shows "fst (stampConductance n1 n2 g i (G, I)) ! r ! k = G ! r ! k + admittanceAt n1 n2 g r k"
proof -
  consider (a) "n1 = 0" "n2 = 0" | (b) "n1 = 0" "n2 \<noteq> 0" | (c) "n1 \<noteq> 0" "n2 = 0"
    | (d) "n1 \<noteq> 0" "n2 \<noteq> 0" by blast
  then show ?thesis
  proof cases
    case a
    then show ?thesis by (simp add: stampConductance_def admittanceAt_def)
  next
    case b
    then show ?thesis using assms
      by (simp add: stampConductance_def admittanceAt_def matAdd_node_nth split del: if_split)
  next
    case c
    then show ?thesis using assms
      by (simp add: stampConductance_def admittanceAt_def matAdd_node_nth split del: if_split)
  next
    case d
    then show ?thesis using assms
      by (simp add: stampConductance_def admittanceAt_def matAdd_node_nth if_minus
            split del: if_split)
  qed
qed

lemma stampConductance_rhs:
  assumes "r < length I"
  shows "snd (stampConductance n1 n2 g i (G, I)) ! r = I ! r + currentAt n1 n2 i r"
  using assms
  by (cases "n1 = 0"; cases "n2 = 0")
     (simp_all add: stampConductance_def Let_def vecAdd_node_nth currentAt_def if_minus
        split del: if_split)

lemma dcEquivalent_diode:
  "ctype c = DIODE \<or> ctype c = LED \<Longrightarrow>
   dcEquivalent cv c n1 n2 = (diodeAdmittance cv c n1 n2, diodeCurrent cv c n1 n2)"
  by (auto simp: dcEquivalent_def diodeAdmittance_def diodeCurrent_def diodeConducting_def
        diodeForwardVoltage_def Let_def)

section \<open>Circuits without a GROUND component\<close>



lemma update_values: "set (map snd (AList.update k v al)) \<subseteq> insert v (set (map snd al))"
  by (induction al) auto

lemma setGroup_values: "set (map snd (setGroup grp n p2n)) \<subseteq> insert n (set (map snd p2n))"
proof (induction grp arbitrary: p2n)
  case Nil
  then show ?case by (auto simp: setGroup_def)
next
  case (Cons p grp)
  have "set (map snd (setGroup grp n (AList.update p n p2n)))
          \<subseteq> insert n (set (map snd (AList.update p n p2n)))"
    using Cons.IH .
  also have "\<dots> \<subseteq> insert n (set (map snd p2n))"
    using update_values [of p n p2n] by auto
  finally show ?case by (simp add: setGroup_def)
qed

















lemma example_resistor_graph:
  "buildGraph [exampleComponent ''r'' RESISTOR 100] []
     = \<lparr>portToNode = [((''r'', 0), 1), ((''r'', 1), 2)], numNodes = 2\<rparr>"
  by code_simp



section \<open>Linear circuits: the fixed point is reached at once\<close>

lemma linear_no_opamps: "linearCircuit components \<Longrightarrow> filter (\<lambda>c. ctype c = OPAMP) components = []"
  by (auto simp: linearCircuit_def nonlinearTypes_def list_all_iff filter_empty_conv)

lemma linear_no_gates: "linearCircuit components \<Longrightarrow> filter isLogicGate components = []"
  by (auto simp: linearCircuit_def nonlinearTypes_def list_all_iff filter_empty_conv isLogicGate_def)

lemma linear_passive_stamp:
  assumes "linearCircuit components" and "c \<in> set components"
  shows "stampPassiveDC p2n cv c = stampPassiveDC p2n cv' c"
proof -
  have "ctype c \<noteq> DIODE" "ctype c \<noteq> LED"
    using assms by (auto simp: linearCircuit_def nonlinearTypes_def list_all_iff)
  then have "dcEquivalent cv c n1 n2 = dcEquivalent cv' c n1 n2" for n1 n2
    by (simp add: dcEquivalent_def)
  then show ?thesis by (auto simp: stampPassiveDC_def fun_eq_iff split: option.splits)
qed

lemma linear_assemble:
  assumes "linearCircuit components"
  shows "assembleDC (dcContext components g) cv gt = assembleDC (dcContext components g) cv' gt'"
proof -
  have "fold (stampPassiveDC (portToNode g) cv) components GI
          = fold (stampPassiveDC (portToNode g) cv') components GI" for GI
    by (rule fold_cong) (simp_all add: linear_passive_stamp [OF assms])
  then show ?thesis
    by (simp add: assembleDC_def dcContext_def linear_no_opamps [OF assms]
          linear_no_gates [OF assms] Let_def)
qed

lemma cvGet_update: "cvGet (AList.update k v cv) k' = (if k' = k then v else cvGet cv k')"
  by (simp add: cvGet_def update_conv')

lemma updateVoltages_fold_get:
  "cvGet (snd (fold (\<lambda>n (maxDiff, cvx).
             (let vNew = xs ! getNodeIdx n; vOld = cvGet cvx n
              in (max maxDiff \<bar>vNew - vOld\<bar>, AList.update n vNew cvx))) ks (m, cv))) k
     = (if k \<in> set ks then xs ! getNodeIdx k else cvGet cv k)"
proof (induction ks arbitrary: m cv rule: rev_induct)
  case Nil
  then show ?case by simp
next
  case (snoc a ks)
  then show ?case by (simp add: Let_def case_prod_unfold cvGet_update)
qed

lemma updateVoltages_get:
  "1 \<le> k \<Longrightarrow> k \<le> nNodes \<Longrightarrow> cvGet (snd (updateVoltages nNodes xs cv)) k = xs ! getNodeIdx k"
proof -
  assume "1 \<le> k" "k \<le> nNodes"
  then have "k \<in> set [1..<nNodes + 1]" by auto
  then show ?thesis
    unfolding updateVoltages_def by (simp only: updateVoltages_fold_get if_True)
qed

lemma updateVoltages_fold_same:
  assumes "\<forall>k\<in>set ks. cvGet cv k = xs ! getNodeIdx k"
  shows "fst (fold (\<lambda>n (maxDiff, cvx).
             (let vNew = xs ! getNodeIdx n; vOld = cvGet cvx n
              in (max maxDiff \<bar>vNew - vOld\<bar>, AList.update n vNew cvx))) ks (0, cv)) = 0"
  using assms
proof (induction ks arbitrary: cv)
  case Nil
  then show ?case by simp
next
  case (Cons a ks)
  have "\<forall>k\<in>set ks. cvGet (AList.update a (xs ! getNodeIdx a) cv) k = xs ! getNodeIdx k"
    using Cons.prems by (simp add: cvGet_update)
  then show ?case using Cons.IH Cons.prems by (simp add: Let_def)
qed

lemma updateVoltages_same:
  assumes "\<forall>k. 1 \<le> k \<and> k \<le> nNodes \<longrightarrow> cvGet cv k = xs ! getNodeIdx k"
  shows "fst (updateVoltages nNodes xs cv) = 0"
  unfolding updateVoltages_def
  by (rule updateVoltages_fold_same) (use assms in auto)

lemma linear_second_iteration:
  assumes "linearCircuit components" and ctx_def: "ctx = dcContext components g"
  shows "converged (dcIteration ctx (dcIteration ctx st))
       \<and> finalX (dcIteration ctx (dcIteration ctx st)) = finalX (dcIteration ctx st)"
proof -
  let ?st1 = "dcIteration ctx st"
  let ?xs = "finalX ?st1"
  have xs2: "finalX (dcIteration ctx ?st1) = ?xs"
    unfolding ctx_def
    using linear_assemble [OF assms(1), of g "currentVoltages (dcIteration (dcContext components g) st)"
            "updateGateTargets (dcContext components g)
               (currentVoltages (dcIteration (dcContext components g) st))
               (gateTargets (dcIteration (dcContext components g) st))"
            "currentVoltages st"
            "updateGateTargets (dcContext components g) (currentVoltages st) (gateTargets st)"]
    by (simp add: dcIteration_def Let_def)
  have cv1: "\<forall>k. 1 \<le> k \<and> k \<le> dc_numNodes ctx \<longrightarrow> cvGet (currentVoltages ?st1) k = ?xs ! getNodeIdx k"
    by (simp add: dcIteration_def Let_def updateVoltages_get)
  have "fst (updateVoltages (dc_numNodes ctx) ?xs (currentVoltages ?st1)) = 0"
    by (rule updateVoltages_same [OF cv1])
  moreover have "converged (dcIteration ctx ?st1)
      = (fst (updateVoltages (dc_numNodes ctx) (finalX (dcIteration ctx ?st1)) (currentVoltages ?st1))
           < 1 / 100)"
    by (simp add: dcIteration_def Let_def)
  ultimately show ?thesis using xs2 by simp
qed

lemma dcIteration_count: "iteration (dcIteration ctx st) = iteration st + 1"
  by (simp add: dcIteration_def Let_def)

text \<open>
  C10. For a circuit with no DIODE, LED, OPAMP or logic gate the system assembled by an
  iteration of \<open>solveCircuit\<close> is the same for every voltage iterate and every table of
  gate targets; the second iteration therefore reproduces the first solution, its
  \<open>maxDiff\<close> is 0, and the loop ends converged after one or two iterations with the
  solution of that one system.
\<close>

theorem linear_circuit_converges:
  assumes "linearCircuit components"
  shows "assembleDC (dcContext components g) cv gt = assembleDC (dcContext components g) cv' gt'
       \<and> converged (dcRun components wires)
       \<and> 1 \<le> iteration (dcRun components wires) \<and> iteration (dcRun components wires) \<le> 2
       \<and> finalX (dcRun components wires)
           = MatrixSolver_solve
               (fst (assembleDC (dcContext components (buildGraph components wires)) cv gt))
               (snd (assembleDC (dcContext components (buildGraph components wires)) cv gt))"
proof -
  define ctx where "ctx = dcContext components (buildGraph components wires)"
  define st0 where "st0 = dcInitial ctx"
  define st1 where "st1 = dcIteration ctx st0"
  define st2 where "st2 = dcIteration ctx st1"
  have c0: "\<not> converged st0" "iteration st0 = 0" by (simp_all add: st0_def dcInitial_def)
  have c2: "converged st2"
    unfolding st2_def st1_def using linear_second_iteration [OF assms ctx_def] by simp
  have i1: "iteration st1 = 1" by (simp add: st1_def dcIteration_count c0)
  have i2: "iteration st2 = 2" by (simp add: st2_def dcIteration_count i1)
  have m: "maxIterations = Suc (Suc (Suc 17))" by (simp add: maxIterations_def)
  have l1: "dcLoop (Suc (Suc (Suc 17))) ctx st0 = dcLoop (Suc (Suc 17)) ctx st1"
    using c0 by (simp only: dcLoop.simps st1_def if_False)
  have l2: "dcLoop (Suc (Suc 17)) ctx st1 = (if converged st1 then st1 else dcLoop (Suc 17) ctx st2)"
    by (simp only: dcLoop.simps st2_def)
  have l3: "dcLoop (Suc 17) ctx st2 = st2"
    using c2 by (simp only: dcLoop.simps if_True)
  have "dcRun components wires = dcLoop maxIterations ctx st0"
    by (simp add: dcRun_def Let_def ctx_def st0_def)
  then have run: "dcRun components wires = (if converged st1 then st1 else st2)"
    by (simp only: m l1 l2 l3)
  have x1: "finalX st1 = MatrixSolver_solve (fst (assembleDC ctx cv gt)) (snd (assembleDC ctx cv gt))"
  proof -
    have "assembleDC ctx (currentVoltages st0)
            (updateGateTargets ctx (currentVoltages st0) (gateTargets st0))
          = assembleDC ctx cv gt"
      unfolding ctx_def by (rule linear_assemble [OF assms])
    then show ?thesis by (simp add: st1_def dcIteration_def Let_def)
  qed
  have x2: "finalX st2 = finalX st1"
    unfolding st2_def st1_def using linear_second_iteration [OF assms ctx_def] by simp
  have "assembleDC (dcContext components g) cv gt = assembleDC (dcContext components g) cv' gt'"
    by (rule linear_assemble [OF assms])
  moreover have "converged (dcRun components wires)" using run c2 by simp
  moreover have "1 \<le> iteration (dcRun components wires) \<and> iteration (dcRun components wires) \<le> 2"
    using run i1 i2 by simp
  moreover have "finalX (dcRun components wires)
      = MatrixSolver_solve (fst (assembleDC ctx cv gt)) (snd (assembleDC ctx cv gt))"
    using run x1 x2 by simp
  ultimately show ?thesis unfolding ctx_def by blast
qed

theorem linear_circuit_converges_witness:
  "linearCircuit ohmCircuit \<and> converged (dcRun ohmCircuit ohmWires)
   \<and> iteration (dcRun ohmCircuit ohmWires) \<le> 2"
proof -
  have l: "linearCircuit ohmCircuit"
    by (simp add: linearCircuit_def ohmCircuit_def exampleComponent_def nonlinearTypes_def)
  show ?thesis using l linear_circuit_converges [OF l, of _ _ _ _ _ ohmWires] by simp
qed

section \<open>The real solver is total and skips degenerate pivots\<close>

lemma backStep_length: "length (backStep n M V i xs) = length xs"
  by (simp add: backStep_def Let_def)

lemma backStep_other: "j \<noteq> i \<Longrightarrow> backStep n M V j xs ! i = xs ! i"
  by (simp add: backStep_def Let_def)

lemma backStep_degenerate: "\<bar>M ! i ! i\<bar> < 1 / 10 ^ 12 \<Longrightarrow> backStep n M V i xs = xs"
  by (simp add: backStep_def)

lemma fold_backStep_length: "length (fold (backStep n M V) js xs) = length xs"
  by (induction js arbitrary: xs) (simp_all add: backStep_length)

lemma fold_backStep_degenerate:
  "\<bar>M ! i ! i\<bar> < 1 / 10 ^ 12 \<Longrightarrow> fold (backStep n M V) js xs ! i = xs ! i"
proof (induction js arbitrary: xs)
  case Nil
  then show ?case by simp
next
  case (Cons j js)
  have "backStep n M V j xs ! i = xs ! i"
    using Cons.prems by (cases "j = i") (simp_all add: backStep_other backStep_degenerate)
  then show ?case using Cons by simp
qed

lemma MatrixSolver_solve_eq:
  "MatrixSolver_solve A B
     = fold (backStep (length A) (fst (forwardElimination A B)) (snd (forwardElimination A B)))
         (rev [0..<length A]) (replicate (length A) 0)"
  by (simp add: MatrixSolver_solve_def forwardElimination_def Let_def)

lemma MatrixSolver_solve_length: "length (MatrixSolver_solve A B) = length A"
  by (simp add: MatrixSolver_solve_eq fold_backStep_length)

lemma MatrixSolver_solve_degenerate:
  assumes "i < length A" and "\<bar>fst (forwardElimination A B) ! i ! i\<bar> < 1 / 10 ^ 12"
  shows "MatrixSolver_solve A B ! i = 0"
  using assms by (simp add: MatrixSolver_solve_eq fold_backStep_degenerate)

lemma ohm_graph:
  "buildGraph ohmCircuit ohmWires
     = \<lparr>portToNode = [((''g'', 0), 0), ((''r'', 1), 0), ((''v'', 1), 0), ((''v'', 0), 1),
                       ((''r'', 0), 1)], numNodes = 1\<rparr>"
  by code_simp

section \<open>The adjacency built from components and wires\<close>

lemma map_of_fold_update:
  "map_of (fold (\<lambda>i. AList.update (f i) v) js a) k
     = (if k \<in> f ` set js then Some v else map_of a k)"
  by (induction js arbitrary: a) (auto simp: update_conv')

lemma adjComponent_map_of:
  "map_of (adjComponent c a) k
     = (if k \<in> (\<lambda>i. (cid c, i)) ` set (validPorts c) then Some [] else map_of a k)"
  by (cases "ctype c")
     (auto simp: adjComponent_def validPorts_def multiInputGates_def update_conv'
        map_of_fold_update Let_def)

lemma fold_adjComponent_map_of:
  "map_of (fold adjComponent cs a) k
     = (if \<exists>c\<in>set cs. k \<in> (\<lambda>i. (cid c, i)) ` set (validPorts c) then Some [] else map_of a k)"
  by (induction cs arbitrary: a) (auto simp: adjComponent_map_of)

lemma adjGet_after_components: "adjGet (fold adjComponent cs []) k = []"
  by (simp add: adjGet_def fold_adjComponent_map_of)

lemma adjWire_adjGet:
  "set (adjGet (adjWire w a) k)
     = set (adjGet a k) \<union> (if k = pk (wfrom w) then {pk (wto w)} else {})
         \<union> (if k = pk (wto w) then {pk (wfrom w)} else {})"
  by (auto simp: adjWire_def adjPush_def adjEnsure_def adjGet_def update_conv' Let_def
        split: option.splits if_splits)

lemma adjWire_dom:
  "dom (map_of (adjWire w a)) = dom (map_of a) \<union> {pk (wfrom w), pk (wto w)}"
  by (auto simp: adjWire_def adjPush_def adjEnsure_def update_conv' Let_def
        split: option.splits if_splits)

lemma fold_adjWire_adjGet:
  "set (adjGet (fold adjWire ws a) k) = set (adjGet a k) \<union> {k'. (k, k') \<in> wireLinks ws}"
proof (induction ws arbitrary: a)
  case Nil
  then show ?case by (simp add: wireLinks_def)
next
  case (Cons w ws)
  show ?case
    by (simp add: Cons.IH adjWire_adjGet) (auto simp: wireLinks_def)
qed

lemma fold_adjWire_dom:
  "dom (map_of (fold adjWire ws a)) = dom (map_of a) \<union> fst ` wireLinks ws"
proof (induction ws arbitrary: a)
  case Nil
  then show ?case by (simp add: wireLinks_def)
next
  case (Cons w ws)
  show ?case
    by (simp add: Cons.IH adjWire_dom) (auto simp: wireLinks_def image_iff)
qed

lemma buildAdj_neighbors:
  "set (adjGet (buildAdj components wires) k) = {k'. (k, k') \<in> wireLinks wires}"
  by (simp add: buildAdj_def fold_adjWire_adjGet adjGet_after_components)

lemma buildAdj_keys:
  "set (map fst (buildAdj components wires))
     = (\<Union>c\<in>set components. (\<lambda>i. (cid c, i)) ` set (validPorts c)) \<union> fst ` wireLinks wires"
proof -
  have "set (map fst (buildAdj components wires)) = dom (map_of (buildAdj components wires))"
    by (simp add: dom_map_of_conv_image_fst)
  also have "\<dots> = dom (map_of (fold adjComponent components [])) \<union> fst ` wireLinks wires"
    by (simp add: buildAdj_def fold_adjWire_dom)
  also have "dom (map_of (fold adjComponent components []))
      = (\<Union>c\<in>set components. (\<lambda>i. (cid c, i)) ` set (validPorts c))"
    by (auto simp: dom_def fold_adjComponent_map_of split: if_splits)
  finally show ?thesis .
qed

lemma wireLinks_sym: "(a, b) \<in> wireLinks wires \<Longrightarrow> (b, a) \<in> wireLinks wires"
  by (auto simp: wireLinks_def)

section \<open>The breadth-first search\<close>

lemma visitNeighbors_sets:
  "snd (visitNeighbors ns (q, V)) = V \<union> set ns
   \<and> set (fst (visitNeighbors ns (q, V))) = set q \<union> (set ns - V)"
proof (induction ns arbitrary: q V)
  case Nil
  then show ?case by (simp add: visitNeighbors_def)
next
  case (Cons n ns)
  have step: "visitNeighbors (n # ns) (q, V)
      = visitNeighbors ns (if n \<notin> V then (q @ [n], insert n V) else (q, V))"
    by (simp add: visitNeighbors_def)
  show ?case
  proof (cases "n \<in> V")
    case True
    then show ?thesis using Cons.IH [of q V] step by auto
  next
    case False
    then show ?thesis using Cons.IH [of "q @ [n]" "insert n V"] step by auto
  qed
qed

lemma bfs_post:
  "set queue \<subseteq> visited \<Longrightarrow>
   bfsPost adj components queue visited grp isGround (bfs adj components queue visited grp isGround)"
proof (induction adj components queue visited grp isGround rule: bfs.induct)
  case (1 adj components visited grp isGround)
  then show ?case by (auto simp: bfsPost_def)
next
  case (2 adj components cur queue visited grp isGround)
  define qv where "qv = visitNeighbors (adjGet adj cur) (queue, visited)"
  define V1 where "V1 = snd qv"
  define q1 where "q1 = fst qv"
  have V1: "V1 = visited \<union> set (adjGet adj cur)"
    and q1: "set q1 = set queue \<union> (set (adjGet adj cur) - visited)"
    using visitNeighbors_sets [of "adjGet adj cur" queue visited] by (simp_all add: V1_def q1_def qv_def)
  have sub: "set q1 \<subseteq> V1" using "2.prems" V1 q1 by auto
  obtain g' V' b' where res:
    "bfs adj components q1 V1 (grp @ [cur]) (isGround \<or> isGroundKey components cur) = (g', V', b')"
    by (cases "bfs adj components q1 V1 (grp @ [cur]) (isGround \<or> isGroundKey components cur)") auto
  have ih: "bfsPost adj components q1 V1 (grp @ [cur]) (isGround \<or> isGroundKey components cur) (g', V', b')"
    using "2.IH" [OF qv_def] sub res by (simp add: q1_def V1_def)
  have eq: "bfs adj components (cur # queue) visited grp isGround = (g', V', b')"
    using res by (simp add: Let_def qv_def [symmetric] q1_def [symmetric] V1_def [symmetric])
  have ihc: "V1 \<subseteq> V'
     \<and> set g' = set (grp @ [cur]) \<union> set q1 \<union> (V' - V1)
     \<and> (\<forall>u. u \<in> set q1 \<union> (V' - V1) \<longrightarrow> set (adjGet adj u) \<subseteq> V')
     \<and> (b' = ((isGround \<or> isGroundKey components cur)
                    \<or> (\<exists>u. u \<in> set q1 \<union> (V' - V1) \<and> isGroundKey components u)))
     \<and> (\<forall>v. v \<in> V' - V1 \<longrightarrow> (\<exists>s. s \<in> set q1 \<and> (s, v) \<in> (adjEdges adj)\<^sup>*))"
    using ih unfolding bfsPost_def by simp
  have p1: "V1 \<subseteq> V'" using ihc by blast
  have p2: "set g' = set (grp @ [cur]) \<union> set q1 \<union> (V' - V1)" using ihc by blast
  have p3: "\<And>u. u \<in> set q1 \<union> (V' - V1) \<Longrightarrow> set (adjGet adj u) \<subseteq> V'"
    using ihc by blast
  have p4: "b' = ((isGround \<or> isGroundKey components cur)
                    \<or> (\<exists>u. u \<in> set q1 \<union> (V' - V1) \<and> isGroundKey components u))"
    using ihc by blast
  have p5: "\<And>v. v \<in> V' - V1 \<Longrightarrow> \<exists>s. s \<in> set q1 \<and> (s, v) \<in> (adjEdges adj)\<^sup>*"
    using ihc by blast
  have curV: "cur \<in> visited" using "2.prems" by simp
  have parts: "set (cur # queue) \<union> (V' - visited) = insert cur (set q1 \<union> (V' - V1))"
    using V1 q1 p1 curV "2.prems" by auto
  have c1: "visited \<subseteq> V'" using V1 p1 by auto
  have c2: "set g' = set grp \<union> set (cur # queue) \<union> (V' - visited)"
    using p2 parts by auto
  have c3: "\<forall>u. u \<in> set (cur # queue) \<union> (V' - visited) \<longrightarrow> set (adjGet adj u) \<subseteq> V'"
  proof (intro allI impI)
    fix u assume "u \<in> set (cur # queue) \<union> (V' - visited)"
    then have "u = cur \<or> u \<in> set q1 \<union> (V' - V1)" using parts by auto
    then show "set (adjGet adj u) \<subseteq> V'"
    proof
      assume "u = cur"
      then show ?thesis using V1 p1 by auto
    next
      assume "u \<in> set q1 \<union> (V' - V1)"
      then show ?thesis by (rule p3)
    qed
  qed
  have c4: "b' = (isGround \<or> (\<exists>u. u \<in> set (cur # queue) \<union> (V' - visited)
                                  \<and> isGroundKey components u))"
    unfolding p4 parts by blast
  have c5: "\<forall>v. v \<in> V' - visited \<longrightarrow> (\<exists>s. s \<in> set (cur # queue) \<and> (s, v) \<in> (adjEdges adj)\<^sup>*)"
  proof (intro allI impI)
    fix v assume v: "v \<in> V' - visited"
    have nb: "\<And>t. t \<in> set (adjGet adj cur) \<Longrightarrow> (cur, t) \<in> (adjEdges adj)\<^sup>*"
      by (rule r_into_rtrancl) (simp add: adjEdges_def)
    show "\<exists>s. s \<in> set (cur # queue) \<and> (s, v) \<in> (adjEdges adj)\<^sup>*"
    proof (cases "v \<in> V1")
      case True
      then have "v \<in> set (adjGet adj cur)" using v V1 by blast
      then have "(cur, v) \<in> (adjEdges adj)\<^sup>*" by (rule nb)
      then show ?thesis by (intro exI [of _ cur]) simp
    next
      case False
      then obtain s where s: "s \<in> set q1" "(s, v) \<in> (adjEdges adj)\<^sup>*" using p5 v by blast
      show ?thesis
      proof (cases "s \<in> set queue")
        case True
        then show ?thesis using s by (intro exI [of _ s]) simp
      next
        case False
        then have "s \<in> set (adjGet adj cur)" using s q1 by blast
        then have "(cur, s) \<in> (adjEdges adj)\<^sup>*" by (rule nb)
        then have "(cur, v) \<in> (adjEdges adj)\<^sup>*" using s(2) by (rule rtrancl_trans)
        then show ?thesis by (intro exI [of _ cur]) simp
      qed
    qed
  qed
  show ?case unfolding eq bfsPost_def using c1 c2 c3 c4 c5 by simp
qed

section \<open>The invariant of the node-numbering loop\<close>

lemma map_of_setGroup:
  "map_of (setGroup grp n p2n) k = (if k \<in> set grp then Some n else map_of p2n k)"
  unfolding setGroup_def
  by (induction grp arbitrary: p2n) (auto simp: update_conv')

lemma closed_rtrancl:
  assumes "(u, v) \<in> E\<^sup>*" and "u \<in> S" and "\<And>a b. a \<in> S \<Longrightarrow> (a, b) \<in> E \<Longrightarrow> b \<in> S"
  shows "v \<in> S"
  using assms(1,2) by (induction rule: rtrancl_induct) (auto intro: assms(3))

lemma sym_rtrancl_rev: "sym E \<Longrightarrow> (u, v) \<in> E\<^sup>* \<Longrightarrow> (v, u) \<in> E\<^sup>*"
  using sym_rtrancl [of E] by (blast dest: symD)

lemma graphStep_inv:
  assumes sym: "sym (adjEdges adj)" and inv: "graphInv adj components st"
  shows "graphInv adj components (graphStep adj components k st)"
proof -
  obtain V p nc where st: "st = (V, p, nc)" by (cases st) auto
  let ?E = "adjEdges adj"
  have invc: "dom (map_of p) = V
     \<and> (\<forall>u v. u \<in> V \<and> (u, v) \<in> ?E \<longrightarrow> v \<in> V)
     \<and> (\<forall>u v. u \<in> V \<and> (u, v) \<in> ?E \<longrightarrow> map_of p u = map_of p v)
     \<and> (\<forall>u. u \<in> V \<longrightarrow>
            (map_of p u = Some 0) = (\<exists>v. (u, v) \<in> ?E\<^sup>* \<and> isGroundKey components v))
     \<and> (\<forall>u v n. n \<noteq> 0 \<and> map_of p u = Some n \<and> map_of p v = Some n \<longrightarrow> (u, v) \<in> ?E\<^sup>*)
     \<and> (\<forall>u n. map_of p u = Some n \<longrightarrow> n < nc)
     \<and> 1 \<le> nc"
    using inv unfolding graphInv_def st by simp
  have i1: "dom (map_of p) = V" using invc by (elim conjE)
  have i2: "\<And>u v. u \<in> V \<Longrightarrow> (u, v) \<in> ?E \<Longrightarrow> v \<in> V"
    using invc by (elim conjE) blast
  have i3: "\<And>u v. u \<in> V \<Longrightarrow> (u, v) \<in> ?E \<Longrightarrow> map_of p u = map_of p v"
    using invc by (elim conjE) blast
  have i4: "\<And>u. u \<in> V \<Longrightarrow>
               (map_of p u = Some 0) = (\<exists>v. (u, v) \<in> ?E\<^sup>* \<and> isGroundKey components v)"
    using invc by (elim conjE) blast
  have i5: "\<And>u v n. n \<noteq> 0 \<Longrightarrow> map_of p u = Some n \<Longrightarrow> map_of p v = Some n \<Longrightarrow> (u, v) \<in> ?E\<^sup>*"
    using invc by (elim conjE) blast
  have i6: "\<And>u n. map_of p u = Some n \<Longrightarrow> n < nc"
    using invc by (elim conjE) blast
  have i7: "1 \<le> nc" using invc by (elim conjE)
  show ?thesis
  proof (cases "k \<in> V")
    case True
    then show ?thesis using inv st by (simp add: graphStep_def)
  next
    case False
    obtain g V' b where res: "bfs adj components [k] (insert k V) [] False = (g, V', b)"
      by (cases "bfs adj components [k] (insert k V) [] False") auto
    have post: "bfsPost adj components [k] (insert k V) [] False (g, V', b)"
      using bfs_post [of "[k]" "insert k V" adj components "[]" False] res by simp
    define Gs where "Gs = set g"
    have postc: "insert k V \<subseteq> V'
       \<and> set g = insert k (V' - insert k V)
       \<and> (\<forall>u. u \<in> insert k (V' - insert k V) \<longrightarrow> set (adjGet adj u) \<subseteq> V')
       \<and> (b = (\<exists>u. u \<in> insert k (V' - insert k V) \<and> isGroundKey components u))
       \<and> (\<forall>v. v \<in> V' - insert k V \<longrightarrow> (k, v) \<in> ?E\<^sup>*)"
      using post unfolding bfsPost_def by (simp del: split_paired_All split_paired_Ex)
    have b1: "insert k V \<subseteq> V'" using postc by (elim conjE)
    have b2: "Gs = insert k (V' - insert k V)"
      unfolding Gs_def using postc by (elim conjE)
    have b3: "\<And>u. u \<in> Gs \<Longrightarrow> set (adjGet adj u) \<subseteq> V'"
      unfolding b2 using postc by (elim conjE) blast
    have b4: "b = (\<exists>u. u \<in> Gs \<and> isGroundKey components u)"
      unfolding b2 using postc by (elim conjE)
    have b5: "\<And>v. v \<in> Gs \<Longrightarrow> (k, v) \<in> ?E\<^sup>*"
    proof -
      fix v assume "v \<in> Gs"
      then have "v = k \<or> v \<in> V' - insert k V" unfolding b2 by blast
      then show "(k, v) \<in> ?E\<^sup>*"
      proof
        assume "v = k" then show ?thesis by simp
      next
        assume "v \<in> V' - insert k V"
        then show ?thesis using postc by (elim conjE) blast
      qed
    qed
    have disj: "Gs \<inter> V = {}" using b2 False by auto
    have V': "V' = V \<union> Gs" using b1 b2 by auto
    have kG: "k \<in> Gs" using b2 by simp
    have closedG: "\<And>u v. u \<in> Gs \<Longrightarrow> (u, v) \<in> ?E \<Longrightarrow> v \<in> Gs"
    proof -
      fix u v assume u: "u \<in> Gs" and e: "(u, v) \<in> ?E"
      have "v \<in> V'" using b3 [OF u] e by (auto simp: adjEdges_def)
      moreover have "v \<notin> V"
      proof
        assume "v \<in> V"
        moreover have "(v, u) \<in> ?E" using sym e by (rule symD)
        ultimately have "u \<in> V" by (rule i2)
        then show False using u disj by auto
      qed
      ultimately show "v \<in> Gs" using V' by auto
    qed
    have connG: "\<And>u v. u \<in> Gs \<Longrightarrow> v \<in> Gs \<Longrightarrow> (u, v) \<in> ?E\<^sup>*"
    proof -
      fix u v assume "u \<in> Gs" "v \<in> Gs"
      then have "(k, u) \<in> ?E\<^sup>*" "(k, v) \<in> ?E\<^sup>*" using b5 by auto
      then have "(u, k) \<in> ?E\<^sup>*" using sym_rtrancl_rev [OF sym] by blast
      then show "(u, v) \<in> ?E\<^sup>*" using \<open>(k, v) \<in> ?E\<^sup>*\<close> by (rule rtrancl_trans)
    qed
    define n where "n = (if b then 0 else nc)"
    define nc' where "nc' = (if b then nc else nc + 1)"
    define p' where "p' = setGroup g n p"
    have step: "graphStep adj components k st = (V', p', nc')"
      using False res by (simp add: graphStep_def st n_def nc'_def p'_def)
    have mp: "\<And>u. map_of p' u = (if u \<in> Gs then Some n else map_of p u)"
      by (simp add: p'_def map_of_setGroup Gs_def)
    have n0: "(n = 0) = b" using i7 by (simp add: n_def)
    have oldV: "\<And>u m. map_of p u = Some m \<Longrightarrow> u \<in> V" using i1 by auto
    have j1: "dom (map_of p') = V'"
      using i1 V' by (auto simp: mp dom_def)
    have j2: "\<forall>u v. u \<in> V' \<and> (u, v) \<in> ?E \<longrightarrow> v \<in> V'"
      using i2 closedG V' by blast
    have j3: "\<forall>u v. u \<in> V' \<and> (u, v) \<in> ?E \<longrightarrow> map_of p' u = map_of p' v"
    proof (intro allI impI)
      fix u v assume a: "u \<in> V' \<and> (u, v) \<in> ?E"
      show "map_of p' u = map_of p' v"
      proof (cases "u \<in> Gs")
        case True
        then have "v \<in> Gs" using closedG a by blast
        then show ?thesis using True by (simp add: mp)
      next
        case False
        then have uV: "u \<in> V" using a V' by auto
        then have vV: "v \<in> V" using i2 a by blast
        then have "v \<notin> Gs" using disj by auto
        then show ?thesis using False i3 [OF uV] a by (simp add: mp)
      qed
    qed
    have j4: "\<forall>u. u \<in> V' \<longrightarrow>
        (map_of p' u = Some 0) = (\<exists>v. (u, v) \<in> ?E\<^sup>* \<and> isGroundKey components v)"
    proof (intro allI impI)
      fix u assume a: "u \<in> V'"
      show "(map_of p' u = Some 0) = (\<exists>v. (u, v) \<in> ?E\<^sup>* \<and> isGroundKey components v)"
      proof (cases "u \<in> Gs")
        case True
        have "(\<exists>w. w \<in> Gs \<and> isGroundKey components w)
                = (\<exists>v. (u, v) \<in> ?E\<^sup>* \<and> isGroundKey components v)"
        proof
          assume "\<exists>w. w \<in> Gs \<and> isGroundKey components w"
          then obtain w where "w \<in> Gs" "isGroundKey components w" by blast
          then show "\<exists>v. (u, v) \<in> ?E\<^sup>* \<and> isGroundKey components v"
            using connG [OF True] by blast
        next
          assume "\<exists>v. (u, v) \<in> ?E\<^sup>* \<and> isGroundKey components v"
          then obtain v where v: "(u, v) \<in> ?E\<^sup>*" "isGroundKey components v" by blast
          have "v \<in> Gs" using v(1) True closedG by (rule closed_rtrancl)
          then show "\<exists>w. w \<in> Gs \<and> isGroundKey components w" using v(2) by blast
        qed
        then show ?thesis using True n0 b4 by (simp add: mp)
      next
        case False
        then have "u \<in> V" using a V' by auto
        then show ?thesis using False i4 by (simp add: mp)
      qed
    qed
    have fresh: "\<And>u v m. m \<noteq> 0 \<Longrightarrow> u \<in> Gs \<Longrightarrow> v \<notin> Gs \<Longrightarrow> map_of p' u = Some m
        \<Longrightarrow> map_of p' v = Some m \<Longrightarrow> False"
    proof -
      fix u v m assume m: "m \<noteq> 0" and u: "u \<in> Gs" and v: "v \<notin> Gs"
        and pu: "map_of p' u = Some m" and pv: "map_of p' v = Some m"
      have "m = n" using pu u by (simp add: mp)
      then have "m = nc" using m n0 by (auto simp: n_def split: if_splits)
      moreover have "map_of p v = Some m" using pv v by (simp add: mp)
      ultimately show False using i6 by blast
    qed
    have j5: "\<forall>u v m. m \<noteq> 0 \<and> map_of p' u = Some m \<and> map_of p' v = Some m
        \<longrightarrow> (u, v) \<in> ?E\<^sup>*"
    proof (intro allI impI)
      fix u v m assume a: "m \<noteq> 0 \<and> map_of p' u = Some m \<and> map_of p' v = Some m"
      consider (gg) "u \<in> Gs" "v \<in> Gs" | (gn) "u \<in> Gs" "v \<notin> Gs" | (ng) "u \<notin> Gs" "v \<in> Gs"
        | (nn) "u \<notin> Gs" "v \<notin> Gs" by blast
      then show "(u, v) \<in> ?E\<^sup>*"
      proof cases
        case gg
        then show ?thesis by (rule connG)
      next
        case gn
        then show ?thesis using fresh [of m u v] a by blast
      next
        case ng
        then show ?thesis using fresh [of m v u] a by blast
      next
        case nn
        then show ?thesis using a i5 [of m u v] by (simp add: mp)
      qed
    qed
    have j6: "\<forall>u m. map_of p' u = Some m \<longrightarrow> m < nc'"
    proof (intro allI impI)
      fix u m assume a: "map_of p' u = Some m"
      show "m < nc'"
      proof (cases "u \<in> Gs")
        case True
        then have "m = n" using a by (simp add: mp)
        then show ?thesis using i7 by (simp add: n_def nc'_def)
      next
        case False
        then have "m < nc" using a i6 by (simp add: mp)
        then show ?thesis by (simp add: nc'_def)
      qed
    qed
    have j7: "1 \<le> nc'" using i7 by (simp add: nc'_def)
    show ?thesis unfolding step graphInv_def using j1 j2 j3 j4 j5 j6 j7 by simp
  qed
qed

lemma graphStep_visits:
  "fst st \<subseteq> fst (graphStep adj components k st) \<and> k \<in> fst (graphStep adj components k st)"
proof -
  obtain V p nc where st: "st = (V, p, nc)" by (cases st) auto
  show ?thesis
  proof (cases "k \<in> V")
    case True
    then show ?thesis by (simp add: graphStep_def st)
  next
    case False
    obtain g V' b where res: "bfs adj components [k] (insert k V) [] False = (g, V', b)"
      by (cases "bfs adj components [k] (insert k V) [] False") auto
    have "insert k V \<subseteq> V'"
      using bfs_post [of "[k]" "insert k V" adj components "[]" False] res
      by (simp add: bfsPost_def)
    then show ?thesis using False res by (auto simp: graphStep_def st)
  qed
qed

lemma graphLoop_fold_inv:
  assumes "sym (adjEdges adj)" and "graphInv adj components st"
  shows "graphInv adj components (fold (graphStep adj components) ks st)"
  using assms(2) by (induction ks arbitrary: st) (simp_all add: graphStep_inv [OF assms(1)])

lemma graphLoop_fold_visits:
  "fst st \<union> set ks \<subseteq> fst (fold (graphStep adj components) ks st)"
proof (induction ks arbitrary: st)
  case Nil
  then show ?case by simp
next
  case (Cons k ks)
  have "fst st \<union> {k} \<subseteq> fst (graphStep adj components k st)"
    using graphStep_visits [of st adj components k] by auto
  moreover have "fst (graphStep adj components k st) \<union> set ks
      \<subseteq> fst (fold (graphStep adj components) ks (graphStep adj components k st))"
    by (rule Cons.IH)
  ultimately show ?case by auto
qed

section \<open>What buildGraph returns\<close>

lemma graphInv_initial: "graphInv adj components ({}, [], Suc 0)"
  by (simp add: graphInv_def)

lemma adjEdges_buildAdj: "adjEdges (buildAdj components wires) = wireLinks wires"
  by (auto simp: adjEdges_def buildAdj_neighbors)

lemma sym_wireLinks: "sym (wireLinks wires)"
  by (rule symI) (rule wireLinks_sym)

lemma graphLoop_inv:
  "graphInv (buildAdj components wires) components
     (graphLoop (buildAdj components wires) components)"
  unfolding graphLoop_def
  by (rule graphLoop_fold_inv) (simp_all add: adjEdges_buildAdj sym_wireLinks graphInv_initial)

lemma graphLoop_visits:
  "circuitPorts components wires \<subseteq> fst (graphLoop (buildAdj components wires) components)"
proof -
  have "set (map fst (buildAdj components wires))
          \<subseteq> fst (graphLoop (buildAdj components wires) components)"
    unfolding graphLoop_def
    using graphLoop_fold_visits [of "({}, [], 1)" "map fst (buildAdj components wires)"] by simp
  then show ?thesis by (simp only: buildAdj_keys circuitPorts_def)
qed

lemma buildGraph_facts:
  fixes components wires
  defines "g \<equiv> buildGraph components wires"
  shows "circuitPorts components wires \<subseteq> dom (nodeOf g)"
    and "\<And>u v. u \<in> dom (nodeOf g) \<Longrightarrow> (u, v) \<in> wireLinks wires \<Longrightarrow> nodeOf g v = nodeOf g u"
    and "\<And>u. u \<in> dom (nodeOf g) \<Longrightarrow>
           (nodeOf g u = Some 0)
             = (\<exists>v. (u, v) \<in> (wireLinks wires)\<^sup>* \<and> isGroundKey components v)"
    and "\<And>u v n. n \<noteq> 0 \<Longrightarrow> nodeOf g u = Some n \<Longrightarrow> nodeOf g v = Some n
           \<Longrightarrow> (u, v) \<in> (wireLinks wires)\<^sup>*"
    and "\<And>u n. nodeOf g u = Some n \<Longrightarrow> n \<le> numNodes g"
proof -
  obtain V p nc where loop: "graphLoop (buildAdj components wires) components = (V, p, nc)"
    by (cases "graphLoop (buildAdj components wires) components") auto
  have g: "g = \<lparr>portToNode = p, numNodes = nc - 1\<rparr>"
    by (simp add: g_def buildGraph_def loop)
  have node: "nodeOf g = map_of p" by (simp add: nodeOf_def g fun_eq_iff)
  have invc: "dom (map_of p) = V
     \<and> (\<forall>u v. u \<in> V \<and> (u, v) \<in> wireLinks wires \<longrightarrow> v \<in> V)
     \<and> (\<forall>u v. u \<in> V \<and> (u, v) \<in> wireLinks wires \<longrightarrow> map_of p u = map_of p v)
     \<and> (\<forall>u. u \<in> V \<longrightarrow>
            (map_of p u = Some 0)
              = (\<exists>v. (u, v) \<in> (wireLinks wires)\<^sup>* \<and> isGroundKey components v))
     \<and> (\<forall>u v n. n \<noteq> 0 \<and> map_of p u = Some n \<and> map_of p v = Some n
            \<longrightarrow> (u, v) \<in> (wireLinks wires)\<^sup>*)
     \<and> (\<forall>u n. map_of p u = Some n \<longrightarrow> n < nc)
     \<and> 1 \<le> nc"
    using graphLoop_inv [of components wires]
    unfolding loop graphInv_def adjEdges_buildAdj by simp
  have dom: "dom (map_of p) = V" using invc by (elim conjE)
  show "circuitPorts components wires \<subseteq> dom (nodeOf g)"
    using graphLoop_visits [of components wires] by (simp add: loop node dom)
  show "\<And>u v. u \<in> dom (nodeOf g) \<Longrightarrow> (u, v) \<in> wireLinks wires \<Longrightarrow> nodeOf g v = nodeOf g u"
    unfolding node dom using invc by (elim conjE) metis
  show "\<And>u. u \<in> dom (nodeOf g) \<Longrightarrow>
           (nodeOf g u = Some 0)
             = (\<exists>v. (u, v) \<in> (wireLinks wires)\<^sup>* \<and> isGroundKey components v)"
    unfolding node dom using invc by (elim conjE) blast
  show "\<And>u v n. n \<noteq> 0 \<Longrightarrow> nodeOf g u = Some n \<Longrightarrow> nodeOf g v = Some n
           \<Longrightarrow> (u, v) \<in> (wireLinks wires)\<^sup>*"
    unfolding node using invc by (elim conjE) blast
  show "\<And>u n. nodeOf g u = Some n \<Longrightarrow> n \<le> numNodes g"
  proof -
    fix u n assume "nodeOf g u = Some n"
    then have "n < nc" unfolding node using invc by (elim conjE) blast
    then show "n \<le> numNodes g" by (simp add: g)
  qed
qed

lemma wireLinks_chain:
  assumes "(u, v) \<in> (wireLinks wires)\<^sup>*" and "u \<in> dom (nodeOf (buildGraph components wires))"
  shows "v \<in> dom (nodeOf (buildGraph components wires))
       \<and> nodeOf (buildGraph components wires) v = nodeOf (buildGraph components wires) u"
  using assms
proof (induction rule: rtrancl_induct)
  case base
  then show ?case by simp
next
  case (step y z)
  then have y: "y \<in> dom (nodeOf (buildGraph components wires))"
    and yu: "nodeOf (buildGraph components wires) y = nodeOf (buildGraph components wires) u"
    by simp_all
  have "nodeOf (buildGraph components wires) z = nodeOf (buildGraph components wires) y"
    using buildGraph_facts(2) [OF y step.hyps(2)] .
  then show ?case using y yu by (auto simp: dom_def)
qed

lemma circuitPorts_chain:
  assumes "(u, v) \<in> (wireLinks wires)\<^sup>*" and "u \<in> circuitPorts components wires"
  shows "v \<in> circuitPorts components wires"
  using assms
proof (induction rule: rtrancl_induct)
  case base
  then show ?case by simp
next
  case (step y z)
  have "(z, y) \<in> wireLinks wires" using step.hyps(2) by (rule wireLinks_sym)
  then have "z \<in> fst ` wireLinks wires" by (rule image_eqI [rotated]) simp
  then show ?case by (simp add: circuitPorts_def)
qed

lemma circuitPorts_colonFree:
  assumes "colonFree components wires" and "k \<in> circuitPorts components wires"
  shows "CHR '':'' \<notin> set (fst k)"
  using assms
  by (auto simp: colonFree_def circuitPorts_def wireLinks_def list_all_iff pk_def)

lemma find_distinct_id:
  assumes "distinct (map cid components)" and "c \<in> set components"
  shows "find (\<lambda>d. cid d = cid c) components = Some c"
  using assms
proof (induction components)
  case Nil
  then show ?case by simp
next
  case (Cons a components)
  show ?case
  proof (cases "a = c")
    case True
    then show ?thesis by simp
  next
    case False
    then have c: "c \<in> set components" using Cons.prems by simp
    then have "cid a \<noteq> cid c" using Cons.prems(1) by (auto simp: image_iff)
    then show ?thesis using Cons.IH c Cons.prems(1) by simp
  qed
qed

lemma isGroundKey_groundPort:
  assumes "distinct (map cid components)" and "CHR '':'' \<notin> set (fst k)"
  shows "isGroundKey components k = groundPort components k"
proof -
  have split: "splitCompId k = fst k"
    using assms(2) by (auto simp: splitCompId_def takeWhile_eq_all_conv)
  show ?thesis
  proof
    assume "isGroundKey components k"
    then obtain c where "find (\<lambda>d. cid d = fst k) components = Some c" "ctype c = GROUND"
      by (auto simp: isGroundKey_def split split: option.splits)
    then have "c \<in> set components \<and> cid c = fst k \<and> ctype c = GROUND"
      by (auto simp: find_Some_iff)
    then show "groundPort components k" by (auto simp: groundPort_def)
  next
    assume "groundPort components k"
    then obtain c where c: "c \<in> set components" "ctype c = GROUND" "cid c = fst k"
      by (auto simp: groundPort_def)
    have "find (\<lambda>d. cid d = cid c) components = Some c"
      using assms(1) c(1) by (rule find_distinct_id)
    then show "isGroundKey components k" using c by (simp add: isGroundKey_def split)
  qed
qed

text \<open>
  C7 (as amended). For every input whose component ids are unique and hold no colon (in
  components and in wire end points), \<open>buildGraph\<close> gives a node id to every valid port
  of every component and to every wire end point; ports joined by a chain of wires share
  their node id; a port has node id 0 if and only if its wire-connected group contains a
  port of a GROUND component; two ports with the same positive id are joined by a chain
  of wires (so each other group has an id of its own, and a port touched by no wire a
  singleton one); and every id is at most \<open>numNodes\<close>.
\<close>

theorem buildGraph_nodes:
  assumes "distinct (map cid components)" and "colonFree components wires"
  shows "(\<forall>k. k \<in> circuitPorts components wires \<longrightarrow>
            nodeOf (buildGraph components wires) k \<noteq> None)
       \<and> (\<forall>k k'. k \<in> circuitPorts components wires \<and> (k, k') \<in> (wireLinks wires)\<^sup>* \<longrightarrow>
            nodeOf (buildGraph components wires) k' = nodeOf (buildGraph components wires) k)
       \<and> (\<forall>k. k \<in> circuitPorts components wires \<longrightarrow>
            (nodeOf (buildGraph components wires) k = Some 0)
              = (\<exists>k'. (k, k') \<in> (wireLinks wires)\<^sup>* \<and> groundPort components k'))
       \<and> (\<forall>k k' n. n \<noteq> 0 \<and> nodeOf (buildGraph components wires) k = Some n
                     \<and> nodeOf (buildGraph components wires) k' = Some n \<longrightarrow>
            (k, k') \<in> (wireLinks wires)\<^sup>*)
       \<and> (\<forall>k n. nodeOf (buildGraph components wires) k = Some n \<longrightarrow>
            n \<le> numNodes (buildGraph components wires))"
proof -
  let ?g = "buildGraph components wires"
  have ports: "circuitPorts components wires \<subseteq> dom (nodeOf ?g)"
    by (rule buildGraph_facts(1))
  have a: "\<forall>k. k \<in> circuitPorts components wires \<longrightarrow> nodeOf ?g k \<noteq> None"
    using ports by blast
  have b: "\<forall>k k'. k \<in> circuitPorts components wires \<and> (k, k') \<in> (wireLinks wires)\<^sup>* \<longrightarrow>
             nodeOf ?g k' = nodeOf ?g k"
    using wireLinks_chain ports by blast
  have c: "\<forall>k. k \<in> circuitPorts components wires \<longrightarrow>
             (nodeOf ?g k = Some 0)
               = (\<exists>k'. (k, k') \<in> (wireLinks wires)\<^sup>* \<and> groundPort components k')"
  proof (intro allI impI)
    fix k assume k: "k \<in> circuitPorts components wires"
    then have d: "k \<in> dom (nodeOf ?g)" using ports by blast
    have "\<And>k'. (k, k') \<in> (wireLinks wires)\<^sup>* \<Longrightarrow>
            isGroundKey components k' = groundPort components k'"
      using circuitPorts_chain [OF _ k] circuitPorts_colonFree [OF assms(2)]
            isGroundKey_groundPort [OF assms(1)] by blast
    then show "(nodeOf ?g k = Some 0)
        = (\<exists>k'. (k, k') \<in> (wireLinks wires)\<^sup>* \<and> groundPort components k')"
      unfolding buildGraph_facts(3) [OF d] by blast
  qed
  have d: "\<forall>k k' n. n \<noteq> 0 \<and> nodeOf ?g k = Some n \<and> nodeOf ?g k' = Some n \<longrightarrow>
             (k, k') \<in> (wireLinks wires)\<^sup>*"
    using buildGraph_facts(4) by blast
  have e: "\<forall>k n. nodeOf ?g k = Some n \<longrightarrow> n \<le> numNodes ?g"
    using buildGraph_facts(5) by blast
  show ?thesis using a b c d e by blast
qed

lemma ohm_wellformed: "distinct (map cid ohmCircuit) \<and> colonFree ohmCircuit ohmWires"
  by (simp add: ohmCircuit_def ohmWires_def exampleComponent_def exampleWire_def colonFree_def)

theorem buildGraph_nodes_witness:
  "nodeOf (buildGraph ohmCircuit ohmWires) (''r'', 0) = nodeOf (buildGraph ohmCircuit ohmWires) (''v'', 0)
   \<and> nodeOf (buildGraph ohmCircuit ohmWires) (''v'', 0) \<noteq> None
   \<and> nodeOf (buildGraph ohmCircuit ohmWires) (''r'', 1) = Some 0"
proof -
  have p: "(''v'', 0) \<in> circuitPorts ohmCircuit ohmWires"
          "(''r'', 1) \<in> circuitPorts ohmCircuit ohmWires"
    by (simp_all add: circuitPorts_def ohmCircuit_def exampleComponent_def validPorts_def
          multiInputGates_def)
  have l1: "((''v'', 0), (''r'', 0)) \<in> (wireLinks ohmWires)\<^sup>*"
    by (rule r_into_rtrancl) (simp add: wireLinks_def ohmWires_def exampleWire_def pk_def)
  have l2: "((''r'', 1), (''g'', 0)) \<in> (wireLinks ohmWires)\<^sup>*"
    by (rule r_into_rtrancl) (simp add: wireLinks_def ohmWires_def exampleWire_def pk_def)
  have gp: "groundPort ohmCircuit (''g'', 0)"
    by (simp add: groundPort_def ohmCircuit_def exampleComponent_def)
  show ?thesis
    using buildGraph_nodes [of ohmCircuit ohmWires] ohm_wellformed p l1 l2 gp by blast
qed

text \<open>
  C7 as stated for every input fails: with a GROUND named \<open>a\<close> and a resistor named
  \<open>a:b\<close>, no wires, the resistor's port 0 gets node 0 although its group holds no
  port of a GROUND component (the key \<open>a:b:0\<close> is split at its first colon).
\<close>

theorem colon_id_counterexample:
  "nodeOf (buildGraph colonCircuit []) (''a:b'', 0) = Some 0
   \<and> \<not> (\<exists>k'. ((''a:b'', 0), k') \<in> (wireLinks [])\<^sup>* \<and> groundPort colonCircuit k')"
proof -
  have "nodeOf (buildGraph colonCircuit []) (''a:b'', 0) = Some 0"
    by code_simp
  moreover have "wireLinks [] = {}" by (simp add: wireLinks_def)
  moreover have "\<not> groundPort colonCircuit (''a:b'', 0)"
    by (simp add: groundPort_def colonCircuit_def exampleComponent_def)
  ultimately show ?thesis by simp
qed

section \<open>Locality of the stamps\<close>

lemma nodesBounded_map_of: "nodesBounded p2n n \<Longrightarrow> map_of p2n k = Some m \<Longrightarrow> m \<le> n"
proof -
  assume b: "nodesBounded p2n n" and "map_of p2n k = Some m"
  then have "(k, m) \<in> set p2n" by (simp add: map_of_SomeD)
  then show ?thesis using b by (force simp: nodesBounded_def list_all_iff)
qed

lemma nodesBounded_opt: "nodesBounded p2n n \<Longrightarrow> optBounded (map_of p2n k) n"
  by (auto simp: optBounded_def split: option.splits dest: nodesBounded_map_of)

lemma shaped_row: "shaped n GI \<Longrightarrow> r < n \<Longrightarrow> length (fst GI ! r) = n"
  by (simp add: shaped_def list_all_length)

lemma shaped_matAdd: "shaped n (G, I) \<Longrightarrow> shaped n (matAdd a b v G, I)"
  by (auto simp: shaped_def list_all_length)

lemma shaped_matSet: "shaped n (G, I) \<Longrightarrow> shaped n (matSet a b v G, I)"
  by (auto simp: shaped_def list_all_length)

lemma shaped_vecAdd: "shaped n (G, I) \<Longrightarrow> shaped n (G, vecAdd a v I)"
  by (simp add: shaped_def)

lemma shaped_vecSet: "shaped n (G, I) \<Longrightarrow> shaped n (G, vecSet a v I)"
  by (simp add: shaped_def)

lemma matAdd_other_row: "r \<noteq> a \<Longrightarrow> matAdd a b v G ! r = G ! r"
  by (simp add: matAdd_def)

lemma matSet_other_row: "r \<noteq> a \<Longrightarrow> matSet a b v G ! r = G ! r"
  by (simp add: matSet_def)

lemma vecAdd_other: "r \<noteq> a \<Longrightarrow> vecAdd a v I ! r = I ! r"
  by (simp add: vecAdd_def)

lemma vecSet_other: "r \<noteq> a \<Longrightarrow> vecSet a v I ! r = I ! r"
  by (simp add: vecSet_def)

lemma node_row_below: "m \<le> n \<Longrightarrow> m \<noteq> 0 \<Longrightarrow> n \<le> r \<Longrightarrow> r \<noteq> getNodeIdx m"
  by (simp add: getNodeIdx_def)

lemma fold_rowAt:
  assumes "\<And>x GI. x \<in> set xs \<Longrightarrow> shaped n GI \<Longrightarrow> shaped n (f x GI) \<and> rowAt r (f x GI) = rowAt r GI"
    and "shaped n GI"
  shows "shaped n (fold f xs GI) \<and> rowAt r (fold f xs GI) = rowAt r GI"
  using assms
proof (induction xs arbitrary: GI)
  case Nil
  then show ?case by simp
next
  case (Cons x xs)
  have s: "shaped n (f x GI) \<and> rowAt r (f x GI) = rowAt r GI"
    using Cons.prems by simp
  have "shaped n (fold f xs (f x GI)) \<and> rowAt r (fold f xs (f x GI)) = rowAt r (f x GI)"
    using Cons.IH [of "f x GI"] Cons.prems(1) s by simp
  then show ?case using s by simp
qed

lemma stampConductance_local:
  assumes "shaped n GI" and "n1 \<le> N" and "n2 \<le> N" and "N \<le> r"
  shows "shaped n (stampConductance n1 n2 g i GI)
       \<and> rowAt r (stampConductance n1 n2 g i GI) = rowAt r GI"
proof -
  obtain G I where GI: "GI = (G, I)" by (cases GI) auto
  have r1: "n1 \<noteq> 0 \<Longrightarrow> r \<noteq> getNodeIdx n1" using assms by (simp add: node_row_below)
  have r2: "n2 \<noteq> 0 \<Longrightarrow> r \<noteq> getNodeIdx n2" using assms by (simp add: node_row_below)
  have sh: "shaped n (G, I)" using assms(1) GI by simp
  show ?thesis
    unfolding GI using r1 r2 sh
    by (cases "n1 = 0"; cases "n2 = 0")
       (simp_all add: stampConductance_def rowAt_def matAdd_other_row vecAdd_other
          shaped_matAdd shaped_vecAdd)
qed

lemma stampPassiveDC_local:
  assumes "shaped n GI" and "nodesBounded p2n N" and "N \<le> r"
  shows "shaped n (stampPassiveDC p2n cv c GI)
       \<and> rowAt r (stampPassiveDC p2n cv c GI) = rowAt r GI"
proof (cases "ctype c \<in> set dcSkipped")
  case True
  then show ?thesis using assms(1) by (simp add: stampPassiveDC_def)
next
  case False
  show ?thesis
  proof (cases "map_of p2n (cid c, 0)")
    case None
    then show ?thesis using assms(1) False by (simp add: stampPassiveDC_def)
  next
    case (Some n1)
    note s1 = Some
    show ?thesis
    proof (cases "map_of p2n (cid c, 1)")
      case None
      then show ?thesis using assms(1) False s1 by (simp add: stampPassiveDC_def)
    next
      case (Some n2)
      have b: "n1 \<le> N" "n2 \<le> N"
        using nodesBounded_map_of [OF assms(2)] s1 Some by blast+
      obtain g i where e: "dcEquivalent cv c n1 n2 = (g, i)" by (cases "dcEquivalent cv c n1 n2") auto
      have "stampPassiveDC p2n cv c GI = stampConductance n1 n2 g i GI"
        using False s1 Some e by (simp add: stampPassiveDC_def)
      then show ?thesis using stampConductance_local [OF assms(1) b assms(3)] by simp
    qed
  qed
qed

lemma stampOpampInput_local:
  assumes "shaped n GI" and "nodesBounded p2n N" and "N \<le> r"
  shows "shaped n (stampOpampInput p2n c GI)
       \<and> rowAt r (stampOpampInput p2n c GI) = rowAt r GI"
proof (cases "map_of p2n (cid c, 0)")
  case None
  then show ?thesis using assms(1) by (simp add: stampOpampInput_def)
next
  case (Some n1)
  note s1 = Some
  show ?thesis
  proof (cases "map_of p2n (cid c, 1)")
    case None
    then show ?thesis using assms(1) s1 by (simp add: stampOpampInput_def)
  next
    case (Some n2)
    obtain G I where GI: "GI = (G, I)" by (cases GI) auto
    have b: "n1 \<le> N" "n2 \<le> N"
      using nodesBounded_map_of [OF assms(2)] s1 Some by blast+
    have r1: "n1 \<noteq> 0 \<Longrightarrow> r \<noteq> getNodeIdx n1" using b assms(3) by (simp add: node_row_below)
    have r2: "n2 \<noteq> 0 \<Longrightarrow> r \<noteq> getNodeIdx n2" using b assms(3) by (simp add: node_row_below)
    have sh: "shaped n (G, I)" using assms(1) GI by simp
    show ?thesis
      unfolding GI using r1 r2 sh s1 Some
      by (cases "n1 = 0"; cases "n2 = 0")
         (simp_all add: stampOpampInput_def Let_def rowAt_def matAdd_other_row shaped_matAdd)
  qed
qed

lemma setAtNodeRow_local:
  assumes "shaped n (G, I)" and "optBounded nd N" and "N \<le> r"
  shows "shaped n (setAtNodeRow nd c v G, I) \<and> setAtNodeRow nd c v G ! r = G ! r"
proof (cases nd)
  case None
  then show ?thesis using assms(1) by (simp add: setAtNodeRow_def)
next
  case (Some m)
  then have "m \<noteq> 0 \<Longrightarrow> r \<noteq> getNodeIdx m"
    using assms(2,3) by (simp add: node_row_below optBounded_def)
  then show ?thesis using assms(1) Some
    by (simp add: setAtNodeRow_def matSet_other_row shaped_matSet)
qed

lemma setAtNodeCol_shaped: "shaped n (G, I) \<Longrightarrow> shaped n (setAtNodeCol rr nd v G, I)"
  by (cases nd) (simp_all add: setAtNodeCol_def shaped_matSet)

lemma setAtNodeCol_other: "r \<noteq> rr \<Longrightarrow> setAtNodeCol rr nd v G ! r = G ! r"
  by (cases nd) (simp_all add: setAtNodeCol_def matSet_other_row)

lemma setAtNodeCol_entry:
  assumes "rr < length G" and "k < length (G ! rr)"
  shows "setAtNodeCol rr nd v G ! rr ! k = (if nd = Some (Suc k) then v else G ! rr ! k)"
proof (cases nd)
  case None
  then show ?thesis by (simp add: setAtNodeCol_def)
next
  case (Some m)
  show ?thesis
  proof (cases "m = 0")
    case True
    then show ?thesis using Some by (simp add: setAtNodeCol_def)
  next
    case False
    then have "(k = getNodeIdx m) = (Suc k = m)" by (rule getNodeIdx_eq)
    then show ?thesis using Some False assms
      by (auto simp: setAtNodeCol_def matSet_nth)
  qed
qed

lemma setAtNodeCol_row_length: "length (setAtNodeCol rr nd v G ! r) = length (G ! r)"
  by (cases nd) (simp_all add: setAtNodeCol_def)

lemma setAtNodeCol_length: "length (setAtNodeCol rr nd v G) = length G"
  by (cases nd) (simp_all add: setAtNodeCol_def)

lemma stampBranch_eq:
  "stampBranch nPos nNeg idx G
     = setAtNodeCol idx nNeg (- 1) (setAtNodeRow nNeg idx (- 1)
         (setAtNodeCol idx nPos 1 (setAtNodeRow nPos idx 1 G)))"
  by (cases nPos; cases nNeg) (simp_all add: stampBranch_def setAtNodeCol_def setAtNodeRow_def)

lemma stampBranch_local:
  assumes "shaped n (G, I)" and "optBounded nPos N" and "optBounded nNeg N" and "N \<le> r"
  shows "shaped n (stampBranch nPos nNeg idx G, I)"
    and "r \<noteq> idx \<Longrightarrow> stampBranch nPos nNeg idx G ! r = G ! r"
    and "r = idx \<Longrightarrow> r < n \<Longrightarrow> k < n \<Longrightarrow>
         stampBranch nPos nNeg idx G ! r ! k
           = (if nNeg = Some (Suc k) then - 1 else if nPos = Some (Suc k) then 1 else G ! r ! k)"
proof -
  define G1 where "G1 = setAtNodeRow nPos idx 1 G"
  define G2 where "G2 = setAtNodeCol idx nPos 1 G1"
  define G3 where "G3 = setAtNodeRow nNeg idx (- 1) G2"
  define G4 where "G4 = setAtNodeCol idx nNeg (- 1) G3"
  have e: "stampBranch nPos nNeg idx G = G4"
    by (simp add: stampBranch_eq G1_def G2_def G3_def G4_def)
  have s1: "shaped n (G1, I)" and r1: "G1 ! r = G ! r"
    using setAtNodeRow_local [OF assms(1) assms(2) assms(4)] by (simp_all add: G1_def)
  have s2: "shaped n (G2, I)" using s1 by (simp add: G2_def setAtNodeCol_shaped)
  have s3: "shaped n (G3, I)" and r3: "G3 ! r = G2 ! r"
    using setAtNodeRow_local [OF s2 assms(3) assms(4)] by (simp_all add: G3_def)
  have s4: "shaped n (G4, I)" using s3 by (simp add: G4_def setAtNodeCol_shaped)
  show "shaped n (stampBranch nPos nNeg idx G, I)" using s4 e by simp
  show "r \<noteq> idx \<Longrightarrow> stampBranch nPos nNeg idx G ! r = G ! r"
    using r1 r3 by (simp add: e G4_def G2_def setAtNodeCol_other)
  show "r = idx \<Longrightarrow> r < n \<Longrightarrow> k < n \<Longrightarrow>
         stampBranch nPos nNeg idx G ! r ! k
           = (if nNeg = Some (Suc k) then - 1 else if nPos = Some (Suc k) then 1 else G ! r ! k)"
  proof -
    assume a: "r = idx" "r < n" "k < n"
    have l1: "idx < length G1" "k < length (G1 ! idx)"
      using s1 a by (simp_all add: shaped_def list_all_length)
    have l3: "idx < length G3" "k < length (G3 ! idx)"
      using s3 a by (simp_all add: shaped_def list_all_length)
    have "G4 ! idx ! k = (if nNeg = Some (Suc k) then - 1 else G3 ! idx ! k)"
      unfolding G4_def by (rule setAtNodeCol_entry [OF l3])
    moreover have "G3 ! idx = G2 ! idx" using r3 a by simp
    moreover have "G2 ! idx ! k = (if nPos = Some (Suc k) then 1 else G1 ! idx ! k)"
      unfolding G2_def by (rule setAtNodeCol_entry [OF l1])
    moreover have "G1 ! idx = G ! idx" using r1 a by simp
    ultimately show ?thesis using a e by simp
  qed
qed

lemma row_eqI:
  assumes "length row = n" and "\<And>k. k < n \<Longrightarrow> row ! k = f k"
  shows "row = map f [0..<n]"
  using assms by (intro nth_equalityI) simp_all

lemma zero_row_nth: "rowAt r GI = (replicate n z, y) \<Longrightarrow> k < n \<Longrightarrow> fst GI ! r ! k = z"
  by (simp add: rowAt_def)

lemma stampVoltageSourceDC_local:
  assumes "shaped n GI" and "nodesBounded (dc_portToNode ctx) (dc_numNodes ctx)"
    and "dc_numNodes ctx \<le> r"
  shows "shaped n (stampVoltageSourceDC ctx (i, v) GI)"
    and "r \<noteq> dc_numNodes ctx + i \<Longrightarrow> rowAt r (stampVoltageSourceDC ctx (i, v) GI) = rowAt r GI"
    and "r = dc_numNodes ctx + i \<Longrightarrow> r < n \<Longrightarrow> rowAt r GI = (replicate n 0, 0) \<Longrightarrow>
         rowAt r (stampVoltageSourceDC ctx (i, v) GI)
           = (map (branchCoeff (map_of (dc_portToNode ctx) (cid v, 0))
                               (map_of (dc_portToNode ctx) (cid v, 1))) [0..<n],
              dcSourceValue v)"
proof -
  obtain G I where GI: "GI = (G, I)" by (cases GI) auto
  let ?nPos = "map_of (dc_portToNode ctx) (cid v, 0)"
  let ?nNeg = "map_of (dc_portToNode ctx) (cid v, 1)"
  let ?idx = "dc_numNodes ctx + i"
  have e: "stampVoltageSourceDC ctx (i, v) (G, I)
             = (stampBranch ?nPos ?nNeg ?idx G, vecSet ?idx (dcSourceValue v) I)"
    by (simp add: stampVoltageSourceDC_def Let_def)
  have sh: "shaped n (G, I)" using assms(1) GI by simp
  have bp: "optBounded ?nPos (dc_numNodes ctx)" and bn: "optBounded ?nNeg (dc_numNodes ctx)"
    using assms(2) by (simp_all add: nodesBounded_opt)
  note br = stampBranch_local [where idx = "?idx", OF sh bp bn assms(3)]
  show "shaped n (stampVoltageSourceDC ctx (i, v) GI)"
    using br(1) by (simp add: GI e shaped_def)
  show "r \<noteq> ?idx \<Longrightarrow> rowAt r (stampVoltageSourceDC ctx (i, v) GI) = rowAt r GI"
    using br(2) by (simp add: GI e rowAt_def vecSet_other)
  show "r = ?idx \<Longrightarrow> r < n \<Longrightarrow> rowAt r GI = (replicate n 0, 0) \<Longrightarrow>
         rowAt r (stampVoltageSourceDC ctx (i, v) GI)
           = (map (branchCoeff ?nPos ?nNeg) [0..<n], dcSourceValue v)"
  proof -
    assume a: "r = ?idx" "r < n" "rowAt r GI = (replicate n 0, 0)"
    have len: "length (stampBranch ?nPos ?nNeg ?idx G ! r) = n"
      using br(1) a(2) by (simp add: shaped_def list_all_length)
    have "\<And>k. k < n \<Longrightarrow> stampBranch ?nPos ?nNeg ?idx G ! r ! k = branchCoeff ?nPos ?nNeg k"
      using br(3) [OF a(1) a(2)] zero_row_nth [OF a(3)] by (simp add: branchCoeff_def GI)
    then have "stampBranch ?nPos ?nNeg ?idx G ! r = map (branchCoeff ?nPos ?nNeg) [0..<n]"
      using len by (rule row_eqI [rotated])
    moreover have "vecSet ?idx (dcSourceValue v) I ! r = dcSourceValue v"
      using a sh by (simp add: vecSet_nth shaped_def)
    ultimately show ?thesis by (simp add: GI e rowAt_def)
  qed
qed

lemma stampAmmeter_local:
  assumes "shaped n GI" and "nodesBounded (dc_portToNode ctx) (dc_numNodes ctx)"
    and "dc_numNodes ctx \<le> r"
  shows "shaped n (stampAmmeter ctx (i, a) GI)"
    and "r \<noteq> dc_numNodes ctx + length (voltageSources ctx) + i
         \<Longrightarrow> rowAt r (stampAmmeter ctx (i, a) GI) = rowAt r GI"
    and "r = dc_numNodes ctx + length (voltageSources ctx) + i \<Longrightarrow> r < n
         \<Longrightarrow> rowAt r GI = (replicate n 0, 0) \<Longrightarrow>
         rowAt r (stampAmmeter ctx (i, a) GI)
           = (map (branchCoeff (map_of (dc_portToNode ctx) (cid a, 0))
                               (map_of (dc_portToNode ctx) (cid a, 1))) [0..<n], 0)"
proof -
  obtain G I where GI: "GI = (G, I)" by (cases GI) auto
  let ?nPos = "map_of (dc_portToNode ctx) (cid a, 0)"
  let ?nNeg = "map_of (dc_portToNode ctx) (cid a, 1)"
  let ?idx = "dc_numNodes ctx + length (voltageSources ctx) + i"
  have e: "stampAmmeter ctx (i, a) (G, I) = (stampBranch ?nPos ?nNeg ?idx G, vecSet ?idx 0 I)"
    by (simp add: stampAmmeter_def Let_def)
  have sh: "shaped n (G, I)" using assms(1) GI by simp
  have bp: "optBounded ?nPos (dc_numNodes ctx)" and bn: "optBounded ?nNeg (dc_numNodes ctx)"
    using assms(2) by (simp_all add: nodesBounded_opt)
  note br = stampBranch_local [where idx = "?idx", OF sh bp bn assms(3)]
  show "shaped n (stampAmmeter ctx (i, a) GI)"
    using br(1) by (simp add: GI e shaped_def)
  show "r \<noteq> ?idx \<Longrightarrow> rowAt r (stampAmmeter ctx (i, a) GI) = rowAt r GI"
    using br(2) by (simp add: GI e rowAt_def vecSet_other)
  show "r = ?idx \<Longrightarrow> r < n \<Longrightarrow> rowAt r GI = (replicate n 0, 0) \<Longrightarrow>
         rowAt r (stampAmmeter ctx (i, a) GI) = (map (branchCoeff ?nPos ?nNeg) [0..<n], 0)"
  proof -
    assume a: "r = ?idx" "r < n" "rowAt r GI = (replicate n 0, 0)"
    have len: "length (stampBranch ?nPos ?nNeg ?idx G ! r) = n"
      using br(1) a(2) by (simp add: shaped_def list_all_length)
    have "\<And>k. k < n \<Longrightarrow> stampBranch ?nPos ?nNeg ?idx G ! r ! k = branchCoeff ?nPos ?nNeg k"
      using br(3) [OF a(1) a(2)] zero_row_nth [OF a(3)] by (simp add: branchCoeff_def GI)
    then have "stampBranch ?nPos ?nNeg ?idx G ! r = map (branchCoeff ?nPos ?nNeg) [0..<n]"
      using len by (rule row_eqI [rotated])
    moreover have "vecSet ?idx 0 I ! r = 0"
      using a sh by (simp add: vecSet_nth shaped_def)
    ultimately show ?thesis by (simp add: GI e rowAt_def)
  qed
qed

lemma stampOpampDC_local:
  assumes "shaped n GI" and "nodesBounded (dc_portToNode ctx) (dc_numNodes ctx)"
    and "dc_numNodes ctx \<le> r"
  shows "shaped n (stampOpampDC ctx cv (i, op) GI)"
    and "r \<noteq> dc_numNodes ctx + length (voltageSources ctx) + length (ammeters ctx) + i
         \<Longrightarrow> rowAt r (stampOpampDC ctx cv (i, op) GI) = rowAt r GI"
    and "r = dc_numNodes ctx + length (voltageSources ctx) + length (ammeters ctx) + i
         \<Longrightarrow> r < n \<Longrightarrow> rowAt r GI = (replicate n 0, 0) \<Longrightarrow>
         rowAt r (stampOpampDC ctx cv (i, op) GI)
           = (map (opampRow ctx cv op) [0..<n], opampRhs ctx cv op)"
proof -
  obtain G I where GI: "GI = (G, I)" by (cases GI) auto
  let ?nPos = "map_of (dc_portToNode ctx) (cid op, 0)"
  let ?nNeg = "map_of (dc_portToNode ctx) (cid op, 1)"
  let ?nOut = "map_of (dc_portToNode ctx) (cid op, 2)"
  let ?idx = "dc_numNodes ctx + length (voltageSources ctx) + length (ammeters ctx) + i"
  let ?sat = "snd (clampToRails (opampTarget ctx cv op))"
  define G1 where "G1 = setAtNodeRow ?nOut ?idx 1 G"
  define G2 where "G2 = setAtNodeCol ?idx ?nOut 1 G1"
  define G3 where "G3 = setAtNodeCol ?idx ?nPos (- opampGain op) G2"
  define G4 where "G4 = setAtNodeCol ?idx ?nNeg (opampGain op) G3"
  have e: "stampOpampDC ctx cv (i, op) (G, I)
             = (if ?sat then (G2, vecSet ?idx (opampRhs ctx cv op) I)
                else (G4, vecSet ?idx (opampRhs ctx cv op) I))"
    by (simp add: stampOpampDC_def Let_def opampTarget_def opampNodes_def opampRhs_def
          G1_def G2_def G3_def G4_def)
  have sh: "shaped n (G, I)" using assms(1) GI by simp
  have bo: "optBounded ?nOut (dc_numNodes ctx)" using assms(2) by (simp add: nodesBounded_opt)
  have s1: "shaped n (G1, I)" and r1: "G1 ! r = G ! r"
    using setAtNodeRow_local [OF sh bo assms(3)] by (simp_all add: G1_def)
  have s2: "shaped n (G2, I)" using s1 by (simp add: G2_def setAtNodeCol_shaped)
  have s3: "shaped n (G3, I)" using s2 by (simp add: G3_def setAtNodeCol_shaped)
  have s4: "shaped n (G4, I)" using s3 by (simp add: G4_def setAtNodeCol_shaped)
  show "shaped n (stampOpampDC ctx cv (i, op) GI)"
    using s2 s4 by (simp add: GI e shaped_def)
  show "r \<noteq> ?idx \<Longrightarrow> rowAt r (stampOpampDC ctx cv (i, op) GI) = rowAt r GI"
    using r1 by (simp add: GI e rowAt_def vecSet_other G2_def G3_def G4_def setAtNodeCol_other)
  show "r = ?idx \<Longrightarrow> r < n \<Longrightarrow> rowAt r GI = (replicate n 0, 0) \<Longrightarrow>
         rowAt r (stampOpampDC ctx cv (i, op) GI)
           = (map (opampRow ctx cv op) [0..<n], opampRhs ctx cv op)"
  proof -
    assume a: "r = ?idx" "r < n" "rowAt r GI = (replicate n 0, 0)"
    have z: "\<And>k. k < n \<Longrightarrow> G1 ! ?idx ! k = 0"
      using zero_row_nth [OF a(3)] r1 a(1) by (simp add: GI)
    have l1: "?idx < length G1" "\<And>k. k < n \<Longrightarrow> k < length (G1 ! ?idx)"
      using s1 a by (simp_all add: shaped_def list_all_length)
    have l2: "?idx < length G2" "\<And>k. k < n \<Longrightarrow> k < length (G2 ! ?idx)"
      using s2 a by (simp_all add: shaped_def list_all_length)
    have l3: "?idx < length G3" "\<And>k. k < n \<Longrightarrow> k < length (G3 ! ?idx)"
      using s3 a by (simp_all add: shaped_def list_all_length)
    have e2: "\<And>k. k < n \<Longrightarrow> G2 ! ?idx ! k = saturatedCoeff ?nOut k"
      unfolding G2_def using setAtNodeCol_entry [OF l1(1) l1(2)] z
      by (simp add: saturatedCoeff_def)
    have e3: "\<And>k. k < n \<Longrightarrow> G3 ! ?idx ! k
                 = (if ?nPos = Some (Suc k) then - opampGain op else saturatedCoeff ?nOut k)"
      unfolding G3_def using setAtNodeCol_entry [OF l2(1) l2(2)] e2 by simp
    have e4: "\<And>k. k < n \<Longrightarrow> G4 ! ?idx ! k = linearCoeff ?nOut ?nPos ?nNeg (opampGain op) k"
      unfolding G4_def using setAtNodeCol_entry [OF l3(1) l3(2)] e3
      by (simp add: linearCoeff_def saturatedCoeff_def)
    have len2: "length (G2 ! r) = n" and len4: "length (G4 ! r) = n"
      using s2 s4 a(2) by (simp_all add: shaped_def list_all_length)
    have row: "fst (stampOpampDC ctx cv (i, op) (G, I)) ! r = map (opampRow ctx cv op) [0..<n]"
    proof (cases ?sat)
      case True
      have "G2 ! r = map (opampRow ctx cv op) [0..<n]"
        using len2 by (rule row_eqI) (simp add: a(1) e2 opampRow_def opampNodes_def True)
      then show ?thesis using True by (simp add: e)
    next
      case False
      have "G4 ! r = map (opampRow ctx cv op) [0..<n]"
        using len4 by (rule row_eqI) (simp add: a(1) e4 opampRow_def opampNodes_def False)
      then show ?thesis using False by (simp add: e)
    qed
    have "snd (stampOpampDC ctx cv (i, op) (G, I)) ! r = opampRhs ctx cv op"
      using a sh by (simp add: e vecSet_nth shaped_def)
    then show ?thesis using row by (simp add: GI rowAt_def)
  qed
qed

lemma gate_inputs_local:
  assumes "shaped n (G, I)" and "nodesBounded p2n N" and "N \<le> r"
  shows "shaped n (fold (\<lambda>k Gx. case map_of p2n (c, k) of
                                  Some nIn \<Rightarrow>
                                    if nIn \<noteq> 0
                                    then matAdd (getNodeIdx nIn) (getNodeIdx nIn) v Gx
                                    else Gx
                                | None \<Rightarrow> Gx) ks G, I)
       \<and> fold (\<lambda>k Gx. case map_of p2n (c, k) of
                                  Some nIn \<Rightarrow>
                                    if nIn \<noteq> 0
                                    then matAdd (getNodeIdx nIn) (getNodeIdx nIn) v Gx
                                    else Gx
                                | None \<Rightarrow> Gx) ks G ! r = G ! r"
  using assms(1)
proof (induction ks arbitrary: G)
  case Nil
  then show ?case by simp
next
  case (Cons k ks)
  let ?G1 = "case map_of p2n (c, k) of
                Some nIn \<Rightarrow> if nIn \<noteq> 0 then matAdd (getNodeIdx nIn) (getNodeIdx nIn) v G else G
              | None \<Rightarrow> G"
  have s: "shaped n (?G1, I)"
    using Cons.prems by (simp add: shaped_matAdd split: option.splits)
  have "?G1 ! r = G ! r"
  proof (cases "map_of p2n (c, k)")
    case None
    then show ?thesis by simp
  next
    case (Some nIn)
    then have "nIn \<le> N" using assms(2) by (rule nodesBounded_map_of [rotated])
    then have "nIn \<noteq> 0 \<Longrightarrow> r \<noteq> getNodeIdx nIn" using assms(3) by (simp add: node_row_below)
    then show ?thesis using Some by (simp add: matAdd_other_row)
  qed
  then show ?case using Cons.IH [OF s] by simp
qed

lemma stampGate_local:
  assumes "shaped n GI" and "nodesBounded (dc_portToNode ctx) (dc_numNodes ctx)"
    and "dc_numNodes ctx \<le> r"
  shows "shaped n (stampGate ctx gt (i, g) GI)"
    and "r \<noteq> dc_numNodes ctx + length (voltageSources ctx) + length (ammeters ctx)
               + length (opamps ctx) + i
         \<Longrightarrow> rowAt r (stampGate ctx gt (i, g) GI) = rowAt r GI"
    and "r = dc_numNodes ctx + length (voltageSources ctx) + length (ammeters ctx)
               + length (opamps ctx) + i
         \<Longrightarrow> r < n \<Longrightarrow> rowAt r GI = (replicate n 0, 0) \<Longrightarrow>
         rowAt r (stampGate ctx gt (i, g) GI)
           = (map (saturatedCoeff (gateOutNode ctx g)) [0..<n], gateGet gt (cid g))"
proof -
  obtain G I where GI: "GI = (G, I)" by (cases GI) auto
  let ?nOut = "gateOutNode ctx g"
  let ?idx = "dc_numNodes ctx + length (voltageSources ctx) + length (ammeters ctx)
                + length (opamps ctx) + i"
  let ?count = "if ctype g = NOT_GATE then 1 else orDefaultNat (inputCount g) 2"
  let ?f = "\<lambda>k Gx. case map_of (dc_portToNode ctx) (cid g, k) of
                       Some nIn \<Rightarrow>
                         if nIn \<noteq> 0
                         then matAdd (getNodeIdx nIn) (getNodeIdx nIn) (1 / 10 ^ 12) Gx
                         else Gx
                     | None \<Rightarrow> Gx"
  define G1 where "G1 = setAtNodeRow ?nOut ?idx 1 G"
  define G2 where "G2 = setAtNodeCol ?idx ?nOut 1 G1"
  have e: "stampGate ctx gt (i, g) (G, I)
             = (fold ?f [0..<?count] G2, vecSet ?idx (gateGet gt (cid g)) I)"
    by (simp add: stampGate_def Let_def gateOutNode_def G1_def G2_def)
  have sh: "shaped n (G, I)" using assms(1) GI by simp
  have bo: "optBounded ?nOut (dc_numNodes ctx)"
    using assms(2) by (simp add: nodesBounded_opt gateOutNode_def)
  have s1: "shaped n (G1, I)" and r1: "G1 ! r = G ! r"
    using setAtNodeRow_local [OF sh bo assms(3)] by (simp_all add: G1_def)
  have s2: "shaped n (G2, I)" using s1 by (simp add: G2_def setAtNodeCol_shaped)
  have f: "shaped n (fold ?f [0..<?count] G2, I) \<and> fold ?f [0..<?count] G2 ! r = G2 ! r"
    by (rule gate_inputs_local [OF s2 assms(2) assms(3)])
  show "shaped n (stampGate ctx gt (i, g) GI)"
    using f by (simp add: GI e shaped_def)
  show "r \<noteq> ?idx \<Longrightarrow> rowAt r (stampGate ctx gt (i, g) GI) = rowAt r GI"
    using f r1 by (simp add: GI e rowAt_def vecSet_other G2_def setAtNodeCol_other)
  show "r = ?idx \<Longrightarrow> r < n \<Longrightarrow> rowAt r GI = (replicate n 0, 0) \<Longrightarrow>
         rowAt r (stampGate ctx gt (i, g) GI)
           = (map (saturatedCoeff ?nOut) [0..<n], gateGet gt (cid g))"
  proof -
    assume a: "r = ?idx" "r < n" "rowAt r GI = (replicate n 0, 0)"
    have z: "\<And>k. k < n \<Longrightarrow> G1 ! ?idx ! k = 0"
      using zero_row_nth [OF a(3)] r1 a(1) by (simp add: GI)
    have l1: "?idx < length G1" "\<And>k. k < n \<Longrightarrow> k < length (G1 ! ?idx)"
      using s1 a by (simp_all add: shaped_def list_all_length)
    have e2: "\<And>k. k < n \<Longrightarrow> G2 ! ?idx ! k = saturatedCoeff ?nOut k"
      unfolding G2_def using setAtNodeCol_entry [OF l1(1) l1(2)] z
      by (simp add: saturatedCoeff_def)
    have len2: "length (G2 ! r) = n"
      using s2 a(2) by (simp add: shaped_def list_all_length)
    have "G2 ! r = map (saturatedCoeff ?nOut) [0..<n]"
      using len2 by (rule row_eqI) (simp add: a(1) e2)
    moreover have "vecSet ?idx (gateGet gt (cid g)) I ! r = gateGet gt (cid g)"
      using a sh by (simp add: vecSet_nth shaped_def)
    ultimately show ?thesis using f by (simp add: GI e rowAt_def)
  qed
qed

section \<open>The rows of the extra unknowns in the assembled system\<close>

lemma fold_enumerate_rows:
  assumes sh: "\<And>j c GI. shaped n GI \<Longrightarrow> shaped n (f (j, c) GI)"
    and other: "\<And>j c GI. shaped n GI \<Longrightarrow> r \<noteq> base + j
                  \<Longrightarrow> rowAt r (f (j, c) GI) = rowAt r GI"
    and "shaped n GI" and "\<forall>j. k \<le> j \<and> j < k + length xs \<longrightarrow> r \<noteq> base + j"
  shows "shaped n (fold f (enumerate k xs) GI)
       \<and> rowAt r (fold f (enumerate k xs) GI) = rowAt r GI"
  using assms(3,4)
proof (induction xs arbitrary: k GI)
  case Nil
  then show ?case by simp
next
  case (Cons c xs)
  have s: "shaped n (f (k, c) GI)" using Cons.prems(1) by (rule sh)
  have "r \<noteq> base + k" using Cons.prems(2) by simp
  then have r: "rowAt r (f (k, c) GI) = rowAt r GI" using Cons.prems(1) other by simp
  have "\<forall>j. Suc k \<le> j \<and> j < Suc k + length xs \<longrightarrow> r \<noteq> base + j"
    using Cons.prems(2) by simp
  then show ?case using Cons.IH [OF s] r by simp
qed

lemma fold_enumerate_shaped:
  assumes sh: "\<And>j c GI. shaped n GI \<Longrightarrow> shaped n (f (j, c) GI)" and "shaped n GI"
  shows "shaped n (fold f (enumerate k xs) GI)"
  using assms(2)
  by (induction xs arbitrary: k GI) (simp_all add: sh)

lemma fold_enumerate_own:
  assumes sh: "\<And>j c GI. shaped n GI \<Longrightarrow> shaped n (f (j, c) GI)"
    and other: "\<And>j c GI. shaped n GI \<Longrightarrow> r \<noteq> base + j
                  \<Longrightarrow> rowAt r (f (j, c) GI) = rowAt r GI"
    and own: "\<And>GI. shaped n GI \<Longrightarrow> rowAt r GI = z \<Longrightarrow> rowAt r (f (i, xs ! i) GI) = w"
    and "i < length xs" and "r = base + i" and "shaped n GI" and "rowAt r GI = z"
  shows "rowAt r (fold f (enumerate 0 xs) GI) = w"
proof -
  let ?a = "take i xs" and ?b = "drop (Suc i) xs"
  have xs: "xs = ?a @ xs ! i # ?b" using assms(4) by (rule id_take_nth_drop)
  have la: "length ?a = i" using assms(4) by simp
  have en: "enumerate 0 xs = enumerate 0 ?a @ (i, xs ! i) # enumerate (Suc i) ?b"
    using assms(4) by (subst xs) (simp add: enumerate_append_eq min_absorb2 del: append_take_drop_id)
  define GI1 where "GI1 = fold f (enumerate 0 ?a) GI"
  define GI2 where "GI2 = f (i, xs ! i) GI1"
  have "\<forall>j. 0 \<le> j \<and> j < 0 + length ?a \<longrightarrow> r \<noteq> base + j" using assms(5) la by simp
  then have s1: "shaped n GI1" and r1: "rowAt r GI1 = z"
    using fold_enumerate_rows [of n f r base GI 0 ?a, OF sh other assms(6)] assms(7)
    by (simp_all add: GI1_def)
  have s2: "shaped n GI2" using s1 by (simp add: GI2_def sh)
  have r2: "rowAt r GI2 = w" unfolding GI2_def using s1 r1 by (rule own)
  have "\<forall>j. Suc i \<le> j \<and> j < Suc i + length ?b \<longrightarrow> r \<noteq> base + j" using assms(5) by simp
  then have "rowAt r (fold f (enumerate (Suc i) ?b) GI2) = rowAt r GI2"
    using fold_enumerate_rows [of n f r base GI2 "Suc i" ?b, OF sh other s2] by simp
  then show ?thesis using r2 by (simp add: en GI1_def GI2_def)
qed

lemma zeros_shaped:
  "shaped n (replicate n (replicate n z), replicate n y)
   \<and> (r < n \<longrightarrow> rowAt r (replicate n (replicate n z), replicate n y) = (replicate n z, y))"
  by (simp add: shaped_def rowAt_def list_all_length)

lemma passives_rows:
  assumes "nodesBounded (dc_portToNode ctx) (dc_numNodes ctx)" and "dc_numNodes ctx \<le> r"
    and "shaped n GI"
  shows "shaped n (fold (stampOpampInput (dc_portToNode ctx)) (opamps ctx)
                    (fold (stampPassiveDC (dc_portToNode ctx) cv) (dc_components ctx) GI))
       \<and> rowAt r (fold (stampOpampInput (dc_portToNode ctx)) (opamps ctx)
                    (fold (stampPassiveDC (dc_portToNode ctx) cv) (dc_components ctx) GI))
           = rowAt r GI"
proof -
  let ?GI1 = "fold (stampPassiveDC (dc_portToNode ctx) cv) (dc_components ctx) GI"
  have a: "shaped n ?GI1 \<and> rowAt r ?GI1 = rowAt r GI"
    by (rule fold_rowAt [OF _ assms(3)]) (rule stampPassiveDC_local [OF _ assms(1,2)])
  then have s1: "shaped n ?GI1" by simp
  have "shaped n (fold (stampOpampInput (dc_portToNode ctx)) (opamps ctx) ?GI1)
      \<and> rowAt r (fold (stampOpampInput (dc_portToNode ctx)) (opamps ctx) ?GI1) = rowAt r ?GI1"
    by (rule fold_rowAt [OF _ s1]) (rule stampOpampInput_local [OF _ assms(1,2)])
  then show ?thesis using a by simp
qed

lemma assembleDC_stages:
  "assembleDC ctx cv gt
     = fold (stampGate ctx gt) (enumerate 0 (logicGates ctx))
        (fold (stampOpampDC ctx cv) (enumerate 0 (opamps ctx))
          (fold (stampAmmeter ctx) (enumerate 0 (ammeters ctx))
            (fold (stampVoltageSourceDC ctx) (enumerate 0 (voltageSources ctx))
              (fold (stampOpampInput (dc_portToNode ctx)) (opamps ctx)
                (fold (stampPassiveDC (dc_portToNode ctx) cv) (dc_components ctx)
                  (replicate (dcSize ctx) (replicate (dcSize ctx) 0),
                   replicate (dcSize ctx) 0))))))"
  by (simp add: assembleDC_def Let_def)

lemma assembleDC_rows:
  assumes nb: "nodesBounded (dc_portToNode ctx) (dc_numNodes ctx)"
  shows "i < length (voltageSources ctx) \<Longrightarrow>
           rowAt (vsIndex ctx i) (assembleDC ctx cv gt)
             = (branchRow ctx (voltageSources ctx ! i), dcSourceValue (voltageSources ctx ! i))"
    and "i < length (ammeters ctx) \<Longrightarrow>
           rowAt (amIndex ctx i) (assembleDC ctx cv gt) = (branchRow ctx (ammeters ctx ! i), 0)"
    and "i < length (opamps ctx) \<Longrightarrow>
           rowAt (opIndex ctx i) (assembleDC ctx cv gt)
             = (map (opampRow ctx cv (opamps ctx ! i)) [0..<dcSize ctx],
                opampRhs ctx cv (opamps ctx ! i))"
    and "i < length (logicGates ctx) \<Longrightarrow>
           rowAt (gateIndex ctx i) (assembleDC ctx cv gt)
             = (map (saturatedCoeff (gateOutNode ctx (logicGates ctx ! i))) [0..<dcSize ctx],
                gateGet gt (cid (logicGates ctx ! i)))"
proof -
  let ?n = "dcSize ctx"
  let ?N = "dc_numNodes ctx"
  let ?Z = "(replicate ?n (replicate ?n (0::real)), replicate ?n (0::real))"
  define GI2 where "GI2 = fold (stampOpampInput (dc_portToNode ctx)) (opamps ctx)
                (fold (stampPassiveDC (dc_portToNode ctx) cv) (dc_components ctx) ?Z)"
  define GI3 where "GI3 = fold (stampVoltageSourceDC ctx) (enumerate 0 (voltageSources ctx)) GI2"
  define GI4 where "GI4 = fold (stampAmmeter ctx) (enumerate 0 (ammeters ctx)) GI3"
  define GI5 where "GI5 = fold (stampOpampDC ctx cv) (enumerate 0 (opamps ctx)) GI4"
  define GI6 where "GI6 = fold (stampGate ctx gt) (enumerate 0 (logicGates ctx)) GI5"
  have asm: "assembleDC ctx cv gt = GI6"
    by (simp add: assembleDC_stages GI2_def GI3_def GI4_def GI5_def GI6_def)
  have zs: "shaped ?n ?Z" using zeros_shaped [where n = ?n and z = "0::real" and y = "0::real"] by simp
  have s2: "shaped ?n GI2"
    using passives_rows [OF nb le_refl zs, of cv] by (simp add: GI2_def)
  have r2: "\<And>r. ?N \<le> r \<Longrightarrow> r < ?n \<Longrightarrow> rowAt r GI2 = (replicate ?n 0, 0)"
    using passives_rows [OF nb _ zs, of _ cv]
          zeros_shaped [where n = ?n and z = "0::real" and y = "0::real"]
    by (simp add: GI2_def)
  note vs = stampVoltageSourceDC_local [OF _ nb]
  note am = stampAmmeter_local [OF _ nb]
  note op = stampOpampDC_local [OF _ nb]
  note ga = stampGate_local [OF _ nb]
  note vs1 = stampVoltageSourceDC_local(1) [OF _ nb le_refl]
  note am1 = stampAmmeter_local(1) [OF _ nb le_refl]
  note op1 = stampOpampDC_local(1) [OF _ nb le_refl]
  note ga1 = stampGate_local(1) [OF _ nb le_refl]
  have s3: "shaped ?n GI3" unfolding GI3_def
    by (rule fold_enumerate_shaped [OF _ s2]) (rule vs1)
  have s4: "shaped ?n GI4" unfolding GI4_def
    by (rule fold_enumerate_shaped [OF _ s3]) (rule am1)
  have s5: "shaped ?n GI5" unfolding GI5_def
    by (rule fold_enumerate_shaped [OF _ s4]) (rule op1)
  have k3: "\<And>r. ?N + length (voltageSources ctx) \<le> r \<Longrightarrow> rowAt r GI3 = rowAt r GI2"
  proof -
    fix r assume a: "?N + length (voltageSources ctx) \<le> r"
    have "shaped ?n GI3 \<and> rowAt r GI3 = rowAt r GI2" unfolding GI3_def
    proof (rule fold_enumerate_rows [where base = ?N, OF _ _ s2])
      show "\<And>j c GI. shaped ?n GI \<Longrightarrow> shaped ?n (stampVoltageSourceDC ctx (j, c) GI)"
        by (rule vs1)
      show "\<And>j c GI. shaped ?n GI \<Longrightarrow> r \<noteq> ?N + j
              \<Longrightarrow> rowAt r (stampVoltageSourceDC ctx (j, c) GI) = rowAt r GI"
        using a by (intro vs(2)) simp_all
      show "\<forall>j. 0 \<le> j \<and> j < 0 + length (voltageSources ctx) \<longrightarrow> r \<noteq> ?N + j"
        using a by simp
    qed
    then show "rowAt r GI3 = rowAt r GI2" by simp
  qed
  have k4: "\<And>r. ?N \<le> r \<Longrightarrow>
      r < ?N + length (voltageSources ctx)
        \<or> ?N + length (voltageSources ctx) + length (ammeters ctx) \<le> r
      \<Longrightarrow> rowAt r GI4 = rowAt r GI3"
  proof -
    fix r assume a: "?N \<le> r" "r < ?N + length (voltageSources ctx)
        \<or> ?N + length (voltageSources ctx) + length (ammeters ctx) \<le> r"
    have "shaped ?n GI4 \<and> rowAt r GI4 = rowAt r GI3" unfolding GI4_def
    proof (rule fold_enumerate_rows [where base = "?N + length (voltageSources ctx)", OF _ _ s3])
      show "\<And>j c GI. shaped ?n GI \<Longrightarrow> shaped ?n (stampAmmeter ctx (j, c) GI)"
        by (rule am1)
      show "\<And>j c GI. shaped ?n GI \<Longrightarrow> r \<noteq> ?N + length (voltageSources ctx) + j
              \<Longrightarrow> rowAt r (stampAmmeter ctx (j, c) GI) = rowAt r GI"
        using a(1) by (intro am(2)) simp_all
      show "\<forall>j. 0 \<le> j \<and> j < 0 + length (ammeters ctx)
              \<longrightarrow> r \<noteq> ?N + length (voltageSources ctx) + j"
        using a(2) by auto
    qed
    then show "rowAt r GI4 = rowAt r GI3" by simp
  qed
  have k5: "\<And>r. ?N \<le> r \<Longrightarrow>
      r < ?N + length (voltageSources ctx) + length (ammeters ctx)
        \<or> ?N + length (voltageSources ctx) + length (ammeters ctx) + length (opamps ctx) \<le> r
      \<Longrightarrow> rowAt r GI5 = rowAt r GI4"
  proof -
    fix r assume a: "?N \<le> r" "r < ?N + length (voltageSources ctx) + length (ammeters ctx)
        \<or> ?N + length (voltageSources ctx) + length (ammeters ctx) + length (opamps ctx) \<le> r"
    have "shaped ?n GI5 \<and> rowAt r GI5 = rowAt r GI4" unfolding GI5_def
    proof (rule fold_enumerate_rows
             [where base = "?N + length (voltageSources ctx) + length (ammeters ctx)", OF _ _ s4])
      show "\<And>j c GI. shaped ?n GI \<Longrightarrow> shaped ?n (stampOpampDC ctx cv (j, c) GI)"
        by (rule op1)
      show "\<And>j c GI. shaped ?n GI
              \<Longrightarrow> r \<noteq> ?N + length (voltageSources ctx) + length (ammeters ctx) + j
              \<Longrightarrow> rowAt r (stampOpampDC ctx cv (j, c) GI) = rowAt r GI"
        using a(1) by (intro op(2)) simp_all
      show "\<forall>j. 0 \<le> j \<and> j < 0 + length (opamps ctx)
              \<longrightarrow> r \<noteq> ?N + length (voltageSources ctx) + length (ammeters ctx) + j"
        using a(2) by auto
    qed
    then show "rowAt r GI5 = rowAt r GI4" by simp
  qed
  have k6: "\<And>r. ?N \<le> r \<Longrightarrow>
      r < ?N + length (voltageSources ctx) + length (ammeters ctx) + length (opamps ctx)
      \<Longrightarrow> rowAt r GI6 = rowAt r GI5"
  proof -
    fix r assume a: "?N \<le> r"
      "r < ?N + length (voltageSources ctx) + length (ammeters ctx) + length (opamps ctx)"
    have "shaped ?n GI6 \<and> rowAt r GI6 = rowAt r GI5" unfolding GI6_def
    proof (rule fold_enumerate_rows
             [where base = "?N + length (voltageSources ctx) + length (ammeters ctx)
                              + length (opamps ctx)", OF _ _ s5])
      show "\<And>j c GI. shaped ?n GI \<Longrightarrow> shaped ?n (stampGate ctx gt (j, c) GI)"
        by (rule ga1)
      show "\<And>j c GI. shaped ?n GI
              \<Longrightarrow> r \<noteq> ?N + length (voltageSources ctx) + length (ammeters ctx)
                         + length (opamps ctx) + j
              \<Longrightarrow> rowAt r (stampGate ctx gt (j, c) GI) = rowAt r GI"
        using a(1) by (intro ga(2)) simp_all
      show "\<forall>j. 0 \<le> j \<and> j < 0 + length (logicGates ctx)
              \<longrightarrow> r \<noteq> ?N + length (voltageSources ctx) + length (ammeters ctx)
                         + length (opamps ctx) + j"
        using a(2) by auto
    qed
    then show "rowAt r GI6 = rowAt r GI5" by simp
  qed
  show "i < length (voltageSources ctx) \<Longrightarrow>
           rowAt (vsIndex ctx i) (assembleDC ctx cv gt)
             = (branchRow ctx (voltageSources ctx ! i), dcSourceValue (voltageSources ctx ! i))"
  proof -
    assume i: "i < length (voltageSources ctx)"
    let ?r = "?N + i"
    have rn: "?r < ?n" using i by (simp add: dcSize_def)
    have "rowAt ?r GI3
            = (branchRow ctx (voltageSources ctx ! i), dcSourceValue (voltageSources ctx ! i))"
      unfolding GI3_def branchRow_def
    proof (rule fold_enumerate_own [where base = ?N and n = ?n and z = "(replicate ?n 0, 0)",
              OF _ _ _ i _ s2])
      show "\<And>j c GI. shaped ?n GI \<Longrightarrow> shaped ?n (stampVoltageSourceDC ctx (j, c) GI)"
        by (rule vs1)
      show "\<And>j c GI. shaped ?n GI \<Longrightarrow> ?r \<noteq> ?N + j
              \<Longrightarrow> rowAt ?r (stampVoltageSourceDC ctx (j, c) GI) = rowAt ?r GI"
        by (intro vs(2)) simp_all
      show "\<And>GI. shaped ?n GI \<Longrightarrow> rowAt ?r GI = (replicate ?n 0, 0) \<Longrightarrow>
              rowAt ?r (stampVoltageSourceDC ctx (i, voltageSources ctx ! i) GI)
                = (map (branchCoeff (map_of (dc_portToNode ctx) (cid (voltageSources ctx ! i), 0))
                          (map_of (dc_portToNode ctx) (cid (voltageSources ctx ! i), 1)))
                     [0..<?n], dcSourceValue (voltageSources ctx ! i))"
        using rn by (intro vs(3)) simp_all
      show "?r = ?N + i" by simp
      show "rowAt ?r GI2 = (replicate ?n 0, 0)" using rn by (intro r2) simp_all
    qed
    moreover have "rowAt ?r GI4 = rowAt ?r GI3" using i by (intro k4) simp_all
    moreover have "rowAt ?r GI5 = rowAt ?r GI4" using i by (intro k5) simp_all
    moreover have "rowAt ?r GI6 = rowAt ?r GI5" using i by (intro k6) simp_all
    ultimately show ?thesis by (simp add: asm vsIndex_def)
  qed
  show "i < length (ammeters ctx) \<Longrightarrow>
           rowAt (amIndex ctx i) (assembleDC ctx cv gt) = (branchRow ctx (ammeters ctx ! i), 0)"
  proof -
    assume i: "i < length (ammeters ctx)"
    let ?b = "?N + length (voltageSources ctx)"
    let ?r = "?b + i"
    have rn: "?r < ?n" using i by (simp add: dcSize_def)
    have z3: "rowAt ?r GI3 = (replicate ?n 0, 0)"
      using k3 [of ?r] r2 [of ?r] rn by simp
    have "rowAt ?r GI4 = (branchRow ctx (ammeters ctx ! i), 0)"
      unfolding GI4_def branchRow_def
    proof (rule fold_enumerate_own [where base = ?b and n = ?n and z = "(replicate ?n 0, 0)",
              OF _ _ _ i _ s3])
      show "\<And>j c GI. shaped ?n GI \<Longrightarrow> shaped ?n (stampAmmeter ctx (j, c) GI)"
        by (rule am1)
      show "\<And>j c GI. shaped ?n GI \<Longrightarrow> ?r \<noteq> ?b + j
              \<Longrightarrow> rowAt ?r (stampAmmeter ctx (j, c) GI) = rowAt ?r GI"
        by (intro am(2)) simp_all
      show "\<And>GI. shaped ?n GI \<Longrightarrow> rowAt ?r GI = (replicate ?n 0, 0) \<Longrightarrow>
              rowAt ?r (stampAmmeter ctx (i, ammeters ctx ! i) GI)
                = (map (branchCoeff (map_of (dc_portToNode ctx) (cid (ammeters ctx ! i), 0))
                          (map_of (dc_portToNode ctx) (cid (ammeters ctx ! i), 1)))
                     [0..<?n], 0)"
        using rn by (intro am(3)) simp_all
      show "?r = ?b + i" by simp
      show "rowAt ?r GI3 = (replicate ?n 0, 0)" by (rule z3)
    qed
    moreover have "rowAt ?r GI5 = rowAt ?r GI4" using i by (intro k5) simp_all
    moreover have "rowAt ?r GI6 = rowAt ?r GI5" using i by (intro k6) simp_all
    ultimately show ?thesis by (simp add: asm amIndex_def)
  qed
  show "i < length (opamps ctx) \<Longrightarrow>
           rowAt (opIndex ctx i) (assembleDC ctx cv gt)
             = (map (opampRow ctx cv (opamps ctx ! i)) [0..<dcSize ctx],
                opampRhs ctx cv (opamps ctx ! i))"
  proof -
    assume i: "i < length (opamps ctx)"
    let ?b = "?N + length (voltageSources ctx) + length (ammeters ctx)"
    let ?r = "?b + i"
    have rn: "?r < ?n" using i by (simp add: dcSize_def)
    have z4: "rowAt ?r GI4 = (replicate ?n 0, 0)"
      using k4 [of ?r] k3 [of ?r] r2 [of ?r] rn by simp
    have "rowAt ?r GI5 = (map (opampRow ctx cv (opamps ctx ! i)) [0..<?n],
                          opampRhs ctx cv (opamps ctx ! i))"
      unfolding GI5_def
    proof (rule fold_enumerate_own [where base = ?b and n = ?n and z = "(replicate ?n 0, 0)",
              OF _ _ _ i _ s4])
      show "\<And>j c GI. shaped ?n GI \<Longrightarrow> shaped ?n (stampOpampDC ctx cv (j, c) GI)"
        by (rule op1)
      show "\<And>j c GI. shaped ?n GI \<Longrightarrow> ?r \<noteq> ?b + j
              \<Longrightarrow> rowAt ?r (stampOpampDC ctx cv (j, c) GI) = rowAt ?r GI"
        by (intro op(2)) simp_all
      show "\<And>GI. shaped ?n GI \<Longrightarrow> rowAt ?r GI = (replicate ?n 0, 0) \<Longrightarrow>
              rowAt ?r (stampOpampDC ctx cv (i, opamps ctx ! i) GI)
                = (map (opampRow ctx cv (opamps ctx ! i)) [0..<?n],
                   opampRhs ctx cv (opamps ctx ! i))"
        using rn by (intro op(3)) simp_all
      show "?r = ?b + i" by simp
      show "rowAt ?r GI4 = (replicate ?n 0, 0)" by (rule z4)
    qed
    moreover have "rowAt ?r GI6 = rowAt ?r GI5" using i by (intro k6) simp_all
    ultimately show ?thesis by (simp add: asm opIndex_def)
  qed
  show "i < length (logicGates ctx) \<Longrightarrow>
           rowAt (gateIndex ctx i) (assembleDC ctx cv gt)
             = (map (saturatedCoeff (gateOutNode ctx (logicGates ctx ! i))) [0..<dcSize ctx],
                gateGet gt (cid (logicGates ctx ! i)))"
  proof -
    assume i: "i < length (logicGates ctx)"
    let ?b = "?N + length (voltageSources ctx) + length (ammeters ctx) + length (opamps ctx)"
    let ?r = "?b + i"
    have rn: "?r < ?n" using i by (simp add: dcSize_def)
    have z5: "rowAt ?r GI5 = (replicate ?n 0, 0)"
      using k5 [of ?r] k4 [of ?r] k3 [of ?r] r2 [of ?r] rn by simp
    have "rowAt ?r GI6 = (map (saturatedCoeff (gateOutNode ctx (logicGates ctx ! i))) [0..<?n],
                          gateGet gt (cid (logicGates ctx ! i)))"
      unfolding GI6_def
    proof (rule fold_enumerate_own [where base = ?b and n = ?n and z = "(replicate ?n 0, 0)",
              OF _ _ _ i _ s5])
      show "\<And>j c GI. shaped ?n GI \<Longrightarrow> shaped ?n (stampGate ctx gt (j, c) GI)"
        by (rule ga1)
      show "\<And>j c GI. shaped ?n GI \<Longrightarrow> ?r \<noteq> ?b + j
              \<Longrightarrow> rowAt ?r (stampGate ctx gt (j, c) GI) = rowAt ?r GI"
        by (intro ga(2)) simp_all
      show "\<And>GI. shaped ?n GI \<Longrightarrow> rowAt ?r GI = (replicate ?n 0, 0) \<Longrightarrow>
              rowAt ?r (stampGate ctx gt (i, logicGates ctx ! i) GI)
                = (map (saturatedCoeff (gateOutNode ctx (logicGates ctx ! i))) [0..<?n],
                   gateGet gt (cid (logicGates ctx ! i)))"
        using rn by (intro ga(3)) simp_all
      show "?r = ?b + i" by simp
      show "rowAt ?r GI5 = (replicate ?n 0, 0)" by (rule z5)
    qed
    then show ?thesis by (simp add: asm gateIndex_def)
  qed
qed

section \<open>Node ids are bounded by numNodes\<close>

lemma setGroup_values_below:
  assumes "\<forall>v\<in>set (map snd p). v < m" and "n < m"
  shows "\<forall>v\<in>set (map snd (setGroup g n p)). v < m"
proof
  fix v assume "v \<in> set (map snd (setGroup g n p))"
  then have "v \<in> insert n (set (map snd p))" using setGroup_values [of g n p] by blast
  then show "v < m" using assms by blast
qed

lemma graphStep_valuesBelow:
  assumes "valuesBelow st"
  shows "valuesBelow (graphStep adj components k st)"
proof -
  obtain V p nc where st: "st = (V, p, nc)" by (cases st) auto
  have old: "\<forall>v\<in>set (map snd p). v < nc" and nc: "1 \<le> nc"
    using assms by (auto simp: valuesBelow_def st list_all_iff)
  show ?thesis
  proof (cases "k \<in> V")
    case True
    then show ?thesis using assms st by (simp add: graphStep_def)
  next
    case False
    obtain g V' b where res: "bfs adj components [k] (insert k V) [] False = (g, V', b)"
      by (cases "bfs adj components [k] (insert k V) [] False") auto
    have v0: "\<forall>v\<in>set (map snd (setGroup g 0 p)). v < nc"
      using old nc by (intro setGroup_values_below) simp_all
    have old1: "\<forall>v\<in>set (map snd p). v < nc + 1" using old by fastforce
    have v1: "\<forall>v\<in>set (map snd (setGroup g nc p)). v < nc + 1"
      using old1 by (intro setGroup_values_below) simp_all
    have l0: "list_all (\<lambda>kn. snd kn < nc) (setGroup g 0 p)"
      using v0 by (simp add: list_all_iff)
    have l1: "list_all (\<lambda>kn. snd kn < nc + 1) (setGroup g nc p)"
      using v1 by (simp add: list_all_iff)
    show ?thesis
      using False res l0 l1 nc
      by (cases b) (simp_all add: graphStep_def st valuesBelow_def)
  qed
qed

lemma graphLoop_fold_valuesBelow:
  "valuesBelow st \<Longrightarrow> valuesBelow (fold (graphStep adj components) ks st)"
  by (induction ks arbitrary: st) (simp_all add: graphStep_valuesBelow)

lemma buildGraph_nodesBounded:
  "nodesBounded (portToNode (buildGraph components wires)) (numNodes (buildGraph components wires))"
proof -
  have "valuesBelow (graphLoop (buildAdj components wires) components)"
    unfolding graphLoop_def
    by (rule graphLoop_fold_valuesBelow) (simp add: valuesBelow_def)
  then show ?thesis
    by (auto simp: buildGraph_def valuesBelow_def nodesBounded_def list_all_iff
          split: prod.splits)
qed

lemma dcContext_nodesBounded:
  "nodesBounded (dc_portToNode (dcContext components (buildGraph components wires)))
     (dc_numNodes (dcContext components (buildGraph components wires)))"
  using buildGraph_nodesBounded [of components wires] by (simp add: dcContext_def)

section \<open>Harvesting the extra unknowns\<close>






lemma kinds_skipped:
  "isVoltageSource a \<or> ctype a = AMMETER \<or> ctype a = OPAMP \<or> isLogicGate a
   \<Longrightarrow> ctype a \<in> set dcSkipped"
  by (auto simp: isVoltageSource_def isLogicGate_def dcSkipped_def)











section \<open>The op-amp row in the transient and AC systems\<close>

lemma cmatAdd_row_length: "length (cmatAdd a b v G ! r) = length (G ! r)"
  by (cases "a < length G"; cases "r = a") (simp_all add: cmatAdd_def list_update_beyond)

lemma cmatSub_row_length: "length (cmatSub a b v G ! r) = length (G ! r)"
  by (cases "a < length G"; cases "r = a") (simp_all add: cmatSub_def list_update_beyond)

lemma shaped_cmatAdd: "shaped n (G, I) \<Longrightarrow> shaped n (cmatAdd a b v G, I)"
  by (simp add: shaped_def list_all_length cmatAdd_row_length) (simp add: cmatAdd_def)

lemma shaped_cmatSub: "shaped n (G, I) \<Longrightarrow> shaped n (cmatSub a b v G, I)"
  by (simp add: shaped_def list_all_length cmatSub_row_length) (simp add: cmatSub_def)

lemma cmatAdd_other_row: "r \<noteq> a \<Longrightarrow> cmatAdd a b v G ! r = G ! r"
  by (simp add: cmatAdd_def)

lemma cmatSub_other_row: "r \<noteq> a \<Longrightarrow> cmatSub a b v G ! r = G ! r"
  by (simp add: cmatSub_def)

lemma stampAdmittance_local:
  assumes "shaped n (G, I)" and "n1 \<le> N" and "n2 \<le> N" and "N \<le> r"
  shows "shaped n (stampAdmittance n1 n2 Y G, I) \<and> stampAdmittance n1 n2 Y G ! r = G ! r"
proof -
  have r1: "n1 \<noteq> 0 \<Longrightarrow> r \<noteq> getNodeIdx n1" using assms by (simp add: node_row_below)
  have r2: "n2 \<noteq> 0 \<Longrightarrow> r \<noteq> getNodeIdx n2" using assms by (simp add: node_row_below)
  show ?thesis
    using r1 r2 assms(1)
    by (cases "n1 = 0"; cases "n2 = 0")
       (simp_all add: stampAdmittance_def cmatAdd_other_row cmatSub_other_row
          shaped_cmatAdd shaped_cmatSub)
qed

lemma stampComponentAC_local:
  assumes "shaped n (G, I)" and "nodesBounded p2n N" and "N \<le> r"
  shows "shaped n (stampComponentAC p2n omega c G, I) \<and> stampComponentAC p2n omega c G ! r = G ! r"
proof (cases "map_of p2n (cid c, 0)")
  case None
  then show ?thesis using assms(1) by (simp add: stampComponentAC_def)
next
  case (Some n1)
  note s1 = Some
  show ?thesis
  proof (cases "map_of p2n (cid c, 1)")
    case None
    then show ?thesis using assms(1) s1 by (simp add: stampComponentAC_def)
  next
    case (Some n2)
    have b: "n1 \<le> N" "n2 \<le> N"
      using nodesBounded_map_of [OF assms(2)] s1 Some by blast+
    note ad = stampAdmittance_local [OF assms(1) b assms(3)]
    show ?thesis using assms(1) s1 Some ad by (simp add: stampComponentAC_def)
  qed
qed

lemma fold_matrix_rows:
  assumes "\<And>x G. x \<in> set xs \<Longrightarrow> shaped n (G, I) \<Longrightarrow> shaped n (f x G, I) \<and> f x G ! r = G ! r"
    and "shaped n (G, I)"
  shows "shaped n (fold f xs G, I) \<and> fold f xs G ! r = G ! r"
  using assms
proof (induction xs arbitrary: G)
  case Nil
  then show ?case by simp
next
  case (Cons x xs)
  have s: "shaped n (f x G, I) \<and> f x G ! r = G ! r"
    using Cons.prems by simp
  have "shaped n (fold f xs (f x G), I) \<and> fold f xs (f x G) ! r = f x G ! r"
    using Cons.IH [of "f x G"] Cons.prems(1) s by simp
  then show ?case using s by simp
qed

lemma stampComponentTR_local:
  assumes "shaped n GI" and "nodesBounded p2n N" and "N \<le> r"
  shows "shaped n (stampComponentTR p2n dt st c GI)
       \<and> rowAt r (stampComponentTR p2n dt st c GI) = rowAt r GI"
proof (cases "ctype c \<in> set acSkipped \<or> isLogicGate c")
  case True
  then show ?thesis using assms(1) by (auto simp: stampComponentTR_def)
next
  case False
  note f = False
  show ?thesis
  proof (cases "ctype c = OPAMP")
    case True
    then show ?thesis using f stampOpampInput_local [OF assms]
      by (simp add: stampComponentTR_def)
  next
    case False
    note nop = False
    show ?thesis
    proof (cases "map_of p2n (cid c, 0)")
      case None
      then show ?thesis using assms(1) f nop by (simp add: stampComponentTR_def)
    next
      case (Some n1)
      note s1 = Some
      show ?thesis
      proof (cases "map_of p2n (cid c, 1)")
        case None
        then show ?thesis using assms(1) f nop s1 by (simp add: stampComponentTR_def)
      next
        case (Some n2)
        have b: "n1 \<le> N" "n2 \<le> N"
          using nodesBounded_map_of [OF assms(2)] s1 Some by blast+
        note sc = stampConductance_local [OF assms(1) b assms(3)]
        show ?thesis using f nop s1 Some sc by (simp add: stampComponentTR_def Let_def)
      qed
    qed
  qed
qed

lemma branch_writes_local:
  assumes "shaped n (G, I)" and "optBounded nPos N" and "optBounded nNeg N" and "N \<le> r"
  shows "shaped n (setAtNodeCol idx nNeg b (setAtNodeRow nNeg idx b'
                     (setAtNodeCol idx nPos a (setAtNodeRow nPos idx a' G))), I)"
    and "r \<noteq> idx \<Longrightarrow>
          setAtNodeCol idx nNeg b (setAtNodeRow nNeg idx b'
            (setAtNodeCol idx nPos a (setAtNodeRow nPos idx a' G))) ! r = G ! r"
proof -
  define G1 where "G1 = setAtNodeRow nPos idx a' G"
  define G2 where "G2 = setAtNodeCol idx nPos a G1"
  define G3 where "G3 = setAtNodeRow nNeg idx b' G2"
  have s1: "shaped n (G1, I)" and r1: "G1 ! r = G ! r"
    using setAtNodeRow_local [OF assms(1) assms(2) assms(4)] by (simp_all add: G1_def)
  have s2: "shaped n (G2, I)" using s1 by (simp add: G2_def setAtNodeCol_shaped)
  have s3: "shaped n (G3, I)" and r3: "G3 ! r = G2 ! r"
    using setAtNodeRow_local [OF s2 assms(3) assms(4)] by (simp_all add: G3_def)
  show "shaped n (setAtNodeCol idx nNeg b (setAtNodeRow nNeg idx b'
                     (setAtNodeCol idx nPos a (setAtNodeRow nPos idx a' G))), I)"
    using s3 by (simp add: G1_def G2_def G3_def setAtNodeCol_shaped)
  show "r \<noteq> idx \<Longrightarrow>
          setAtNodeCol idx nNeg b (setAtNodeRow nNeg idx b'
            (setAtNodeCol idx nPos a (setAtNodeRow nPos idx a' G))) ! r = G ! r"
    using r1 r3 by (simp add: G1_def G2_def G3_def setAtNodeCol_other)
qed

lemma opamp_writes_local:
  assumes "shaped n (G, I)" and "optBounded nOut N" and "N \<le> r"
  shows "shaped n (setAtNodeCol idx nNeg c (setAtNodeCol idx nPos b
                     (setAtNodeCol idx nOut a (setAtNodeRow nOut idx a' G))), I)"
    and "r \<noteq> idx \<Longrightarrow>
          setAtNodeCol idx nNeg c (setAtNodeCol idx nPos b
            (setAtNodeCol idx nOut a (setAtNodeRow nOut idx a' G))) ! r = G ! r"
    and "r = idx \<Longrightarrow> r < n \<Longrightarrow> k < n \<Longrightarrow>
          setAtNodeCol idx nNeg c (setAtNodeCol idx nPos b
            (setAtNodeCol idx nOut a (setAtNodeRow nOut idx a' G))) ! r ! k
            = (if nNeg = Some (Suc k) then c else if nPos = Some (Suc k) then b
               else if nOut = Some (Suc k) then a else G ! r ! k)"
proof -
  define G1 where "G1 = setAtNodeRow nOut idx a' G"
  define G2 where "G2 = setAtNodeCol idx nOut a G1"
  define G3 where "G3 = setAtNodeCol idx nPos b G2"
  define G4 where "G4 = setAtNodeCol idx nNeg c G3"
  have s1: "shaped n (G1, I)" and r1: "G1 ! r = G ! r"
    using setAtNodeRow_local [OF assms(1) assms(2) assms(3)] by (simp_all add: G1_def)
  have s2: "shaped n (G2, I)" using s1 by (simp add: G2_def setAtNodeCol_shaped)
  have s3: "shaped n (G3, I)" using s2 by (simp add: G3_def setAtNodeCol_shaped)
  have s4: "shaped n (G4, I)" using s3 by (simp add: G4_def setAtNodeCol_shaped)
  show "shaped n (setAtNodeCol idx nNeg c (setAtNodeCol idx nPos b
                     (setAtNodeCol idx nOut a (setAtNodeRow nOut idx a' G))), I)"
    using s4 by (simp add: G1_def G2_def G3_def G4_def)
  show "r \<noteq> idx \<Longrightarrow>
          setAtNodeCol idx nNeg c (setAtNodeCol idx nPos b
            (setAtNodeCol idx nOut a (setAtNodeRow nOut idx a' G))) ! r = G ! r"
    using r1 by (simp add: G1_def setAtNodeCol_other)
  show "r = idx \<Longrightarrow> r < n \<Longrightarrow> k < n \<Longrightarrow>
          setAtNodeCol idx nNeg c (setAtNodeCol idx nPos b
            (setAtNodeCol idx nOut a (setAtNodeRow nOut idx a' G))) ! r ! k
            = (if nNeg = Some (Suc k) then c else if nPos = Some (Suc k) then b
               else if nOut = Some (Suc k) then a else G ! r ! k)"
  proof -
    assume a: "r = idx" "r < n" "k < n"
    have l1: "idx < length G1" "k < length (G1 ! idx)"
      using s1 a by (simp_all add: shaped_def list_all_length)
    have l2: "idx < length G2" "k < length (G2 ! idx)"
      using s2 a by (simp_all add: shaped_def list_all_length)
    have l3: "idx < length G3" "k < length (G3 ! idx)"
      using s3 a by (simp_all add: shaped_def list_all_length)
    have "G4 ! idx ! k = (if nNeg = Some (Suc k) then c else G3 ! idx ! k)"
      unfolding G4_def by (rule setAtNodeCol_entry [OF l3])
    moreover have "G3 ! idx ! k = (if nPos = Some (Suc k) then b else G2 ! idx ! k)"
      unfolding G3_def by (rule setAtNodeCol_entry [OF l2])
    moreover have "G2 ! idx ! k = (if nOut = Some (Suc k) then a else G1 ! idx ! k)"
      unfolding G2_def by (rule setAtNodeCol_entry [OF l1])
    moreover have "G1 ! idx = G ! idx" using r1 a by simp
    ultimately show ?thesis using a by (simp add: G1_def G2_def G3_def G4_def)
  qed
qed

lemma stampVoltageSourceTR_local:
  assumes "shaped n GI" and "nodesBounded p2n N" and "N \<le> r"
  shows "shaped n (stampVoltageSourceTR p2n nNodes time (j, v) GI)"
    and "r \<noteq> nNodes + j
         \<Longrightarrow> rowAt r (stampVoltageSourceTR p2n nNodes time (j, v) GI) = rowAt r GI"
proof -
  obtain G I where GI: "GI = (G, I)" by (cases GI) auto
  have sh: "shaped n (G, I)" using assms(1) GI by simp
  note sb = stampBranch_local(1,2)
              [OF sh nodesBounded_opt [OF assms(2)] nodesBounded_opt [OF assms(2)] assms(3)]
  show "shaped n (stampVoltageSourceTR p2n nNodes time (j, v) GI)"
    using sb(1) by (simp add: GI stampVoltageSourceTR_def Let_def shaped_def)
  show "r \<noteq> nNodes + j
         \<Longrightarrow> rowAt r (stampVoltageSourceTR p2n nNodes time (j, v) GI) = rowAt r GI"
    using sb(2) by (simp add: GI stampVoltageSourceTR_def Let_def rowAt_def vecSet_other)
qed

lemma stampVoltageSourceAC_local:
  assumes "shaped n GI" and "nodesBounded p2n N" and "N \<le> r"
  shows "shaped n (stampVoltageSourceAC p2n nNodes (j, v) GI)"
    and "r \<noteq> nNodes + j
         \<Longrightarrow> rowAt r (stampVoltageSourceAC p2n nNodes (j, v) GI) = rowAt r GI"
proof -
  obtain G I where GI: "GI = (G, I)" by (cases GI) auto
  have sh: "shaped n (G, I)" using assms(1) GI by simp
  note sb = branch_writes_local
              [OF sh nodesBounded_opt [OF assms(2)] nodesBounded_opt [OF assms(2)] assms(3)]
  show "shaped n (stampVoltageSourceAC p2n nNodes (j, v) GI)"
    using sb(1) by (simp add: GI stampVoltageSourceAC_def Let_def shaped_def)
  show "r \<noteq> nNodes + j
         \<Longrightarrow> rowAt r (stampVoltageSourceAC p2n nNodes (j, v) GI) = rowAt r GI"
    using sb(2) by (simp add: GI stampVoltageSourceAC_def Let_def rowAt_def)
qed

lemma stampOpampTR_local:
  assumes "shaped n GI" and "nodesBounded p2n N" and "N \<le> r"
  shows "shaped n (stampOpampTR p2n nNodes nVs (j, op) GI)"
    and "r \<noteq> nNodes + nVs + j
         \<Longrightarrow> rowAt r (stampOpampTR p2n nNodes nVs (j, op) GI) = rowAt r GI"
    and "r = nNodes + nVs + j \<Longrightarrow> r < n \<Longrightarrow> rowAt r GI = (replicate n 0, 0) \<Longrightarrow>
         rowAt r (stampOpampTR p2n nNodes nVs (j, op) GI)
           = (map (linearCoeff (map_of p2n (cid op, 2)) (map_of p2n (cid op, 0))
                     (map_of p2n (cid op, 1)) (opampGain op)) [0..<n], 0)"
proof -
  obtain G I where GI: "GI = (G, I)" by (cases GI) auto
  have sh: "shaped n (G, I)" using assms(1) GI by simp
  note ow = opamp_writes_local [OF sh nodesBounded_opt [OF assms(2)] assms(3)]
  let ?G4 = "fst (stampOpampTR p2n nNodes nVs (j, op) GI)"
  show s: "shaped n (stampOpampTR p2n nNodes nVs (j, op) GI)"
    using ow(1) by (simp add: GI stampOpampTR_def Let_def shaped_def)
  show "r \<noteq> nNodes + nVs + j
         \<Longrightarrow> rowAt r (stampOpampTR p2n nNodes nVs (j, op) GI) = rowAt r GI"
    using ow(2) by (simp add: GI stampOpampTR_def Let_def rowAt_def vecSet_other)
  show "r = nNodes + nVs + j \<Longrightarrow> r < n \<Longrightarrow> rowAt r GI = (replicate n 0, 0) \<Longrightarrow>
         rowAt r (stampOpampTR p2n nNodes nVs (j, op) GI)
           = (map (linearCoeff (map_of p2n (cid op, 2)) (map_of p2n (cid op, 0))
                     (map_of p2n (cid op, 1)) (opampGain op)) [0..<n], 0)"
  proof -
    assume a: "r = nNodes + nVs + j" "r < n" "rowAt r GI = (replicate n 0, 0)"
    have z: "\<And>k. k < n \<Longrightarrow> G ! r ! k = 0"
      using zero_row_nth [OF a(3)] by (simp add: GI)
    have len: "length (?G4 ! r) = n" using s a(2) by (simp add: shaped_def list_all_length)
    have "?G4 ! r = map (linearCoeff (map_of p2n (cid op, 2)) (map_of p2n (cid op, 0))
                     (map_of p2n (cid op, 1)) (opampGain op)) [0..<n]"
      using len
    proof (rule row_eqI)
      fix k assume k: "k < n"
      show "?G4 ! r ! k = linearCoeff (map_of p2n (cid op, 2)) (map_of p2n (cid op, 0))
                     (map_of p2n (cid op, 1)) (opampGain op) k"
        using ow(3) [OF _ a(2) k] a(1) z [OF k]
        by (simp add: GI stampOpampTR_def Let_def linearCoeff_def)
    qed
    moreover have "snd (stampOpampTR p2n nNodes nVs (j, op) GI) ! r = 0"
      using a sh by (simp add: GI stampOpampTR_def Let_def vecSet_nth shaped_def)
    ultimately show ?thesis by (simp add: rowAt_def)
  qed
qed

lemma stampOpampAC_local:
  assumes "shaped n GI" and "nodesBounded p2n N" and "N \<le> r"
  shows "shaped n (stampOpampAC p2n nNodes nVs (j, op) GI)"
    and "r \<noteq> nNodes + nVs + j
         \<Longrightarrow> rowAt r (stampOpampAC p2n nNodes nVs (j, op) GI) = rowAt r GI"
    and "r = nNodes + nVs + j \<Longrightarrow> r < n \<Longrightarrow> rowAt r GI = (replicate n czero, czero) \<Longrightarrow>
         rowAt r (stampOpampAC p2n nNodes nVs (j, op) GI)
           = (map (\<lambda>k. JComplex (linearCoeff (map_of p2n (cid op, 2)) (map_of p2n (cid op, 0))
                     (map_of p2n (cid op, 1)) (opampGain op) k) 0) [0..<n], czero)"
proof -
  obtain G I where GI: "GI = (G, I)" by (cases GI) auto
  have sh: "shaped n (G, I)" using assms(1) GI by simp
  note ow = opamp_writes_local [OF sh nodesBounded_opt [OF assms(2)] assms(3)]
  let ?G4 = "fst (stampOpampAC p2n nNodes nVs (j, op) GI)"
  show s: "shaped n (stampOpampAC p2n nNodes nVs (j, op) GI)"
    using ow(1) by (simp add: GI stampOpampAC_def Let_def shaped_def)
  show "r \<noteq> nNodes + nVs + j
         \<Longrightarrow> rowAt r (stampOpampAC p2n nNodes nVs (j, op) GI) = rowAt r GI"
    using ow(2) by (simp add: GI stampOpampAC_def Let_def rowAt_def)
  show "r = nNodes + nVs + j \<Longrightarrow> r < n \<Longrightarrow> rowAt r GI = (replicate n czero, czero) \<Longrightarrow>
         rowAt r (stampOpampAC p2n nNodes nVs (j, op) GI)
           = (map (\<lambda>k. JComplex (linearCoeff (map_of p2n (cid op, 2)) (map_of p2n (cid op, 0))
                     (map_of p2n (cid op, 1)) (opampGain op) k) 0) [0..<n], czero)"
  proof -
    assume a: "r = nNodes + nVs + j" "r < n" "rowAt r GI = (replicate n czero, czero)"
    have z: "\<And>k. k < n \<Longrightarrow> G ! r ! k = czero"
      using zero_row_nth [OF a(3)] by (simp add: GI)
    have len: "length (?G4 ! r) = n" using s a(2) by (simp add: shaped_def list_all_length)
    have "?G4 ! r = map (\<lambda>k. JComplex (linearCoeff (map_of p2n (cid op, 2))
                     (map_of p2n (cid op, 0)) (map_of p2n (cid op, 1)) (opampGain op) k) 0) [0..<n]"
      using len
    proof (rule row_eqI)
      fix k assume k: "k < n"
      show "?G4 ! r ! k = JComplex (linearCoeff (map_of p2n (cid op, 2)) (map_of p2n (cid op, 0))
                     (map_of p2n (cid op, 1)) (opampGain op) k) 0"
        using ow(3) [OF _ a(2) k] a(1) z [OF k]
        by (simp add: GI stampOpampAC_def Let_def linearCoeff_def cone_def czero_def)
    qed
    moreover have "snd (stampOpampAC p2n nNodes nVs (j, op) GI) ! r = czero"
      using a sh by (simp add: GI stampOpampAC_def Let_def shaped_def)
    ultimately show ?thesis by (simp add: rowAt_def)
  qed
qed

lemma sources_then_opamps:
  assumes fsh: "\<And>j c GI. shaped n GI \<Longrightarrow> shaped n (f (j, c) GI)"
    and fother: "\<And>j c GI r. shaped n GI \<Longrightarrow> N \<le> r \<Longrightarrow> r \<noteq> N + j
                   \<Longrightarrow> rowAt r (f (j, c) GI) = rowAt r GI"
    and hsh: "\<And>j c GI. shaped n GI \<Longrightarrow> shaped n (h (j, c) GI)"
    and hother: "\<And>j c GI r. shaped n GI \<Longrightarrow> N \<le> r \<Longrightarrow> r \<noteq> N + length vs + j
                   \<Longrightarrow> rowAt r (h (j, c) GI) = rowAt r GI"
    and hown: "\<And>GI. shaped n GI \<Longrightarrow> rowAt (N + length vs + i) GI = z
                   \<Longrightarrow> rowAt (N + length vs + i) (h (i, ops ! i) GI) = w"
    and i: "i < length ops" and sh: "shaped n GI" and z: "rowAt (N + length vs + i) GI = z"
  shows "rowAt (N + length vs + i) (fold h (enumerate 0 ops) (fold f (enumerate 0 vs) GI)) = w"
proof -
  let ?r = "N + length vs + i"
  let ?GI2 = "fold f (enumerate 0 vs) GI"
  have "shaped n ?GI2 \<and> rowAt ?r ?GI2 = rowAt ?r GI"
  proof (rule fold_enumerate_rows [where base = N, OF _ _ sh])
    show "\<And>j c GI. shaped n GI \<Longrightarrow> shaped n (f (j, c) GI)" by (rule fsh)
    show "\<And>j c GI. shaped n GI \<Longrightarrow> ?r \<noteq> N + j \<Longrightarrow> rowAt ?r (f (j, c) GI) = rowAt ?r GI"
      by (intro fother) simp_all
    show "\<forall>j. 0 \<le> j \<and> j < 0 + length vs \<longrightarrow> ?r \<noteq> N + j" by simp
  qed
  then have s2: "shaped n ?GI2" and z2: "rowAt ?r ?GI2 = z" using z by simp_all
  show ?thesis
  proof (rule fold_enumerate_own [where base = "N + length vs" and n = n and z = z,
            OF _ _ _ i _ s2 z2])
    show "\<And>j c GI. shaped n GI \<Longrightarrow> shaped n (h (j, c) GI)" by (rule hsh)
    show "\<And>j c GI. shaped n GI \<Longrightarrow> ?r \<noteq> N + length vs + j
            \<Longrightarrow> rowAt ?r (h (j, c) GI) = rowAt ?r GI"
      by (intro hother) simp_all
    show "\<And>GI. shaped n GI \<Longrightarrow> rowAt ?r GI = z \<Longrightarrow> rowAt ?r (h (i, ops ! i) GI) = w"
      by (rule hown)
    show "?r = N + length vs + i" by simp
  qed
qed

lemma assembleTR_opamp_row:
  assumes nb: "nodesBounded (portToNode g) (numNodes g)"
    and ops: "ops = filter (\<lambda>c. ctype c = OPAMP) components"
    and vs: "vs = filter isVoltageSource components"
    and i: "i < length ops"
  shows "rowAt (numNodes g + length vs + i) (assembleTR components g dt time st)
       = (map (linearCoeff (map_of (portToNode g) (cid (ops ! i), 2))
                 (map_of (portToNode g) (cid (ops ! i), 0))
                 (map_of (portToNode g) (cid (ops ! i), 1)) (opampGain (ops ! i)))
            [0..<numNodes g + length vs + length ops], 0)"
proof -
  let ?n = "numNodes g + length vs + length ops"
  let ?N = "numNodes g"
  let ?r = "?N + length vs + i"
  let ?Z = "(replicate ?n (replicate ?n (0::real)), replicate ?n (0::real))"
  define GI1 where "GI1 = fold (stampComponentTR (portToNode g) dt st) components ?Z"
  have asm: "assembleTR components g dt time st
      = fold (stampOpampTR (portToNode g) ?N (length vs)) (enumerate 0 ops)
          (fold (stampVoltageSourceTR (portToNode g) ?N time) (enumerate 0 vs) GI1)"
    by (simp add: assembleTR_def Let_def GI1_def ops vs)
  have rn: "?r < ?n" using i by simp
  have zs: "shaped ?n ?Z" "rowAt ?r ?Z = (replicate ?n 0, 0)"
    using zeros_shaped [where n = ?n and z = "0::real" and y = "0::real" and r = ?r] rn
    by simp_all
  have "shaped ?n GI1 \<and> rowAt ?r GI1 = rowAt ?r ?Z" unfolding GI1_def
    by (rule fold_rowAt [OF _ zs(1)]) (rule stampComponentTR_local [OF _ nb], simp_all)
  then have s1: "shaped ?n GI1" and z1: "rowAt ?r GI1 = (replicate ?n 0, 0)"
    using zs(2) by simp_all
  show ?thesis unfolding asm
  proof (rule sources_then_opamps [where N = ?N and n = ?n and z = "(replicate ?n 0, 0)",
            OF _ _ _ _ _ i s1 z1])
    show "\<And>j c GI. shaped ?n GI \<Longrightarrow> shaped ?n (stampVoltageSourceTR (portToNode g) ?N time (j, c) GI)"
      by (rule stampVoltageSourceTR_local(1) [OF _ nb le_refl])
    show "\<And>j c GI r. shaped ?n GI \<Longrightarrow> ?N \<le> r \<Longrightarrow> r \<noteq> ?N + j
            \<Longrightarrow> rowAt r (stampVoltageSourceTR (portToNode g) ?N time (j, c) GI) = rowAt r GI"
      by (rule stampVoltageSourceTR_local(2) [OF _ nb])
    show "\<And>j c GI. shaped ?n GI
            \<Longrightarrow> shaped ?n (stampOpampTR (portToNode g) ?N (length vs) (j, c) GI)"
      by (rule stampOpampTR_local(1) [OF _ nb le_refl])
    show "\<And>j c GI r. shaped ?n GI \<Longrightarrow> ?N \<le> r \<Longrightarrow> r \<noteq> ?N + length vs + j
            \<Longrightarrow> rowAt r (stampOpampTR (portToNode g) ?N (length vs) (j, c) GI) = rowAt r GI"
      by (rule stampOpampTR_local(2) [OF _ nb])
    show "\<And>GI. shaped ?n GI \<Longrightarrow> rowAt ?r GI = (replicate ?n 0, 0)
            \<Longrightarrow> rowAt ?r (stampOpampTR (portToNode g) ?N (length vs) (i, ops ! i) GI)
                = (map (linearCoeff (map_of (portToNode g) (cid (ops ! i), 2))
                          (map_of (portToNode g) (cid (ops ! i), 0))
                          (map_of (portToNode g) (cid (ops ! i), 1)) (opampGain (ops ! i)))
                     [0..<?n], 0)"
      using rn by (intro stampOpampTR_local(3) [OF _ nb]) simp_all
  qed
qed

lemma assembleAC_opamp_row:
  assumes nb: "nodesBounded (portToNode g) (numNodes g)"
    and ops: "ops = filter (\<lambda>c. ctype c = OPAMP) components"
    and vs: "vs = filter isVoltageSource components"
    and i: "i < length ops"
  shows "rowAt (numNodes g + length vs + i) (assembleAC components g omega)
       = (map (\<lambda>k. JComplex (linearCoeff (map_of (portToNode g) (cid (ops ! i), 2))
                 (map_of (portToNode g) (cid (ops ! i), 0))
                 (map_of (portToNode g) (cid (ops ! i), 1)) (opampGain (ops ! i)) k) 0)
            [0..<numNodes g + length vs + length ops], czero)"
proof -
  let ?n = "numNodes g + length vs + length ops"
  let ?N = "numNodes g"
  let ?r = "?N + length vs + i"
  let ?G0 = "replicate ?n (replicate ?n czero)"
  let ?I0 = "replicate ?n czero"
  define G1 where "G1 = fold (stampComponentAC (portToNode g) omega) components ?G0"
  have asm: "assembleAC components g omega
      = fold (stampOpampAC (portToNode g) ?N (length vs)) (enumerate 0 ops)
          (fold (stampVoltageSourceAC (portToNode g) ?N) (enumerate 0 vs) (G1, ?I0))"
    by (simp add: assembleAC_def Let_def G1_def ops vs)
  have rn: "?r < ?n" using i by simp
  have zs: "shaped ?n (?G0, ?I0)" "rowAt ?r (?G0, ?I0) = (replicate ?n czero, czero)"
    using zeros_shaped [where n = ?n and z = czero and y = czero and r = ?r] rn
    by simp_all
  have "shaped ?n (G1, ?I0) \<and> G1 ! ?r = ?G0 ! ?r" unfolding G1_def
    by (rule fold_matrix_rows [OF _ zs(1)]) (rule stampComponentAC_local [OF _ nb], simp_all)
  then have s1: "shaped ?n (G1, ?I0)" and z1: "rowAt ?r (G1, ?I0) = (replicate ?n czero, czero)"
    using zs(2) by (simp_all add: rowAt_def)
  show ?thesis unfolding asm
  proof (rule sources_then_opamps [where N = ?N and n = ?n and z = "(replicate ?n czero, czero)",
            OF _ _ _ _ _ i s1 z1])
    show "\<And>j c GI. shaped ?n GI \<Longrightarrow> shaped ?n (stampVoltageSourceAC (portToNode g) ?N (j, c) GI)"
      by (rule stampVoltageSourceAC_local(1) [OF _ nb le_refl])
    show "\<And>j c GI r. shaped ?n GI \<Longrightarrow> ?N \<le> r \<Longrightarrow> r \<noteq> ?N + j
            \<Longrightarrow> rowAt r (stampVoltageSourceAC (portToNode g) ?N (j, c) GI) = rowAt r GI"
      by (rule stampVoltageSourceAC_local(2) [OF _ nb])
    show "\<And>j c GI. shaped ?n GI
            \<Longrightarrow> shaped ?n (stampOpampAC (portToNode g) ?N (length vs) (j, c) GI)"
      by (rule stampOpampAC_local(1) [OF _ nb le_refl])
    show "\<And>j c GI r. shaped ?n GI \<Longrightarrow> ?N \<le> r \<Longrightarrow> r \<noteq> ?N + length vs + j
            \<Longrightarrow> rowAt r (stampOpampAC (portToNode g) ?N (length vs) (j, c) GI) = rowAt r GI"
      by (rule stampOpampAC_local(2) [OF _ nb])
    show "\<And>GI. shaped ?n GI \<Longrightarrow> rowAt ?r GI = (replicate ?n czero, czero)
            \<Longrightarrow> rowAt ?r (stampOpampAC (portToNode g) ?N (length vs) (i, ops ! i) GI)
                = (map (\<lambda>k. JComplex (linearCoeff (map_of (portToNode g) (cid (ops ! i), 2))
                          (map_of (portToNode g) (cid (ops ! i), 0))
                          (map_of (portToNode g) (cid (ops ! i), 1)) (opampGain (ops ! i)) k) 0)
                     [0..<?n], czero)"
      using rn by (intro stampOpampAC_local(3) [OF _ nb]) simp_all
  qed
qed

section \<open>The op-amp equation in the three engines\<close>

lemma linearCoeff_relation:
  "separateNodes nOut nPos nNeg
   \<Longrightarrow> linearCoeff nOut nPos nNeg Gain k = relationCoeff nOut nPos nNeg Gain k"
  by (auto simp: separateNodes_def grounded_def linearCoeff_def relationCoeff_def)

lemma opampRow_cases:
  assumes "opampNodes ctx op = (nOut, nPos, nNeg)" and "separateNodes nOut nPos nNeg"
    and "targetV = opampGain op * (opampInputV cv nPos - opampInputV cv nNeg)"
  shows "(map (opampRow ctx cv op) [0..<n], opampRhs ctx cv op)
       = (if targetV > 15 then (map (saturatedCoeff nOut) [0..<n], 15)
          else if targetV < - 15 then (map (saturatedCoeff nOut) [0..<n], - 15)
          else (map (relationCoeff nOut nPos nNeg (opampGain op)) [0..<n], 0))"
proof -
  have t: "opampTarget ctx cv op = targetV" using assms(1,3) by (simp add: opampTarget_def)
  have l: "linearCoeff nOut nPos nNeg (opampGain op) = relationCoeff nOut nPos nNeg (opampGain op)"
    using linearCoeff_relation [OF assms(2)] by (intro ext) simp
  have r: "opampRow ctx cv op
             = (if snd (clampToRails targetV) then saturatedCoeff nOut
                else relationCoeff nOut nPos nNeg (opampGain op))"
    using assms(1) by (intro ext) (simp add: opampRow_def t l)
  show ?thesis
    by (simp add: r opampRhs_def t clampToRails_def RAIL_POS_def RAIL_NEG_def Let_def)
qed

text \<open>
  The equation of an op-amp none of whose three ports shares a non-ground node with
  another. In the system \<open>solveCircuit\<close> assembles from an iterate, the row of the
  op-amp's extra unknown is the unit row of the output node with the rail as right-hand
  side when \<open>gain * (V(+) - V(-))\<close> at that iterate lies beyond a rail, and the
  coefficients of \<open>V(out) - gain * V(+) + gain * V(-)\<close> with right-hand side 0
  otherwise, where \<open>gain\<close> is the component's value if positive and \<open>1e5\<close> if not.
  In the systems of \<open>solveTransient\<close> and \<open>solveACSweep\<close> the row is always the
  linear one.
\<close>

theorem opamp_rows_separate_nodes:
  assumes "g = buildGraph components wires"
    and "ops = filter (\<lambda>c. ctype c = OPAMP) components"
    and "vs = filter isVoltageSource components"
    and "i < length ops" and "op = ops ! i"
    and "nOut = map_of (portToNode g) (cid op, 2)"
    and "nPos = map_of (portToNode g) (cid op, 0)"
    and "nNeg = map_of (portToNode g) (cid op, 1)"
    and "separateNodes nOut nPos nNeg"
    and "Gain = (if cvalue op > 0 then cvalue op else 100000)"
    and "targetV = Gain * (opampInputV cv nPos - opampInputV cv nNeg)"
  shows "rowAt (opIndex (dcContext components g) i) (assembleDC (dcContext components g) cv gt)
           = (if targetV > 15
              then (map (saturatedCoeff nOut) [0..<dcSize (dcContext components g)], 15)
              else if targetV < - 15
              then (map (saturatedCoeff nOut) [0..<dcSize (dcContext components g)], - 15)
              else (map (relationCoeff nOut nPos nNeg Gain)
                      [0..<dcSize (dcContext components g)], 0))
       \<and> rowAt (numNodes g + length vs + i) (assembleTR components g dt time st)
           = (map (relationCoeff nOut nPos nNeg Gain) [0..<numNodes g + length vs + length ops], 0)
       \<and> rowAt (numNodes g + length vs + i) (assembleAC components g omega)
           = (map (\<lambda>k. JComplex (relationCoeff nOut nPos nNeg Gain k) 0)
                [0..<numNodes g + length vs + length ops], czero)"
proof -
  let ?ctx = "dcContext components g"
  have nb: "nodesBounded (portToNode g) (numNodes g)"
    using buildGraph_nodesBounded [of components wires] assms(1) by simp
  have nbc: "nodesBounded (dc_portToNode ?ctx) (dc_numNodes ?ctx)"
    using nb by (simp add: dcContext_def)
  have oc: "opamps ?ctx = ops" using assms(2) by (simp add: dcContext_def)
  have gn: "opampGain op = Gain" using assms(10) by (simp add: opampGain_def)
  have on: "opampNodes ?ctx op = (nOut, nPos, nNeg)"
    using assms(6,7,8) by (simp add: opampNodes_def dcContext_def)
  have tv: "targetV = opampGain op * (opampInputV cv nPos - opampInputV cv nNeg)"
    using assms(11) gn by simp
  have l: "linearCoeff nOut nPos nNeg Gain = relationCoeff nOut nPos nNeg Gain"
    using linearCoeff_relation [OF assms(9)] by (intro ext) simp
  have "rowAt (opIndex ?ctx i) (assembleDC ?ctx cv gt)
          = (map (opampRow ?ctx cv op) [0..<dcSize ?ctx], opampRhs ?ctx cv op)"
    using assembleDC_rows(3) [OF nbc, of i cv gt] assms(4,5) oc by simp
  then have dc: "rowAt (opIndex ?ctx i) (assembleDC ?ctx cv gt)
           = (if targetV > 15 then (map (saturatedCoeff nOut) [0..<dcSize ?ctx], 15)
              else if targetV < - 15 then (map (saturatedCoeff nOut) [0..<dcSize ?ctx], - 15)
              else (map (relationCoeff nOut nPos nNeg Gain) [0..<dcSize ?ctx], 0))"
    using opampRow_cases [OF on assms(9) tv, of "dcSize ?ctx"] gn by simp
  have tr: "rowAt (numNodes g + length vs + i) (assembleTR components g dt time st)
           = (map (relationCoeff nOut nPos nNeg Gain) [0..<numNodes g + length vs + length ops], 0)"
    using assembleTR_opamp_row [OF nb assms(2,3,4), of dt time st] assms(5,6,7,8) gn l by simp
  have ac: "rowAt (numNodes g + length vs + i) (assembleAC components g omega)
           = (map (\<lambda>k. JComplex (relationCoeff nOut nPos nNeg Gain k) 0)
                [0..<numNodes g + length vs + length ops], czero)"
    using assembleAC_opamp_row [OF nb assms(2,3,4), of omega] assms(5,6,7,8) gn l by simp
  show ?thesis using dc tr ac by simp
qed

lemma follower_graph:
  "buildGraph followerCircuit followerWires
     = \<lparr>portToNode = [((''g'', 0), 0), ((''v'', 1), 0), ((''v'', 0), 1), ((''u'', 0), 1),
                       ((''u'', 1), 2), ((''u'', 2), 2)], numNodes = 2\<rparr>"
  by code_simp

lemma comparator_graph:
  "buildGraph comparatorCircuit comparatorWires
     = \<lparr>portToNode = [((''g'', 0), 0), ((''v'', 1), 0), ((''u'', 1), 0), ((''v'', 0), 1),
                       ((''u'', 0), 1), ((''u'', 2), 2)], numNodes = 2\<rparr>"
  by code_simp

lemma follower_parts:
  "filter (\<lambda>c. ctype c = OPAMP) followerCircuit = [exampleComponent ''u'' OPAMP 1]"
  "filter isVoltageSource followerCircuit = [exampleComponent ''v'' VOLTAGE_SOURCE 10]"
  "filter (\<lambda>c. ctype c = OPAMP) comparatorCircuit = [exampleComponent ''u'' OPAMP 0]"
  "filter isVoltageSource comparatorCircuit = [exampleComponent ''v'' VOLTAGE_SOURCE 10]"
  by (simp_all add: followerCircuit_def comparatorCircuit_def exampleComponent_def
        isVoltageSource_def)

theorem opamp_rows_separate_nodes_witness:
  "separateNodes (Some 2) (Some 1) (Some 0)
   \<and> rowAt 3 (assembleDC (circuitContext comparatorCircuit comparatorWires) [] [])
       = ([- 100000, 1, 0, 0], 0)
   \<and> rowAt 3 (assembleDC (circuitContext comparatorCircuit comparatorWires) [(1, 100)] [])
       = ([0, 1, 0, 0], 15)
   \<and> rowAt 3 (assembleTR comparatorCircuit (buildGraph comparatorCircuit comparatorWires) 1 0
                (transientInitial comparatorCircuit (buildGraph comparatorCircuit comparatorWires)))
       = ([- 100000, 1, 0, 0], 0)
   \<and> rowAt 3 (assembleAC comparatorCircuit (buildGraph comparatorCircuit comparatorWires) 1)
       = ([JComplex (- 100000) 0, JComplex 1 0, JComplex 0 0, JComplex 0 0], JComplex 0 0)"
proof -
  let ?g = "buildGraph comparatorCircuit comparatorWires"
  let ?u = "exampleComponent ''u'' OPAMP 0"
  let ?v = "exampleComponent ''v'' VOLTAGE_SOURCE 10"
  let ?ctx = "dcContext comparatorCircuit ?g"
  have sep: "separateNodes (Some 2) (Some 1) (Some 0)"
    by (simp add: separateNodes_def grounded_def)
  note th = opamp_rows_separate_nodes [where components = comparatorCircuit
      and wires = comparatorWires and g = ?g and ops = "[?u]" and vs = "[?v]" and i = 0
      and op = ?u and nOut = "Some 2" and nPos = "Some 1" and nNeg = "Some 0"
      and Gain = 100000 and gt = "[]" and dt = 1 and time = 0
      and st = "transientInitial comparatorCircuit ?g" and omega = 1]
  have lin: "rowAt (opIndex ?ctx 0) (assembleDC ?ctx [] [])
           = (if (0::real) > 15 then (map (saturatedCoeff (Some 2)) [0..<dcSize ?ctx], 15)
              else if (0::real) < - 15 then (map (saturatedCoeff (Some 2)) [0..<dcSize ?ctx], - 15)
              else (map (relationCoeff (Some 2) (Some 1) (Some 0) 100000) [0..<dcSize ?ctx], 0))
       \<and> rowAt (numNodes ?g + length [?v] + 0)
            (assembleTR comparatorCircuit ?g 1 0 (transientInitial comparatorCircuit ?g))
           = (map (relationCoeff (Some 2) (Some 1) (Some 0) 100000)
                [0..<numNodes ?g + length [?v] + length [?u]], 0)
       \<and> rowAt (numNodes ?g + length [?v] + 0) (assembleAC comparatorCircuit ?g 1)
           = (map (\<lambda>k. JComplex (relationCoeff (Some 2) (Some 1) (Some 0) 100000 k) 0)
                [0..<numNodes ?g + length [?v] + length [?u]], czero)"
    by (rule th [where cv = "[]" and targetV = 0])
       (simp_all add: follower_parts comparator_graph separateNodes_def grounded_def
          exampleComponent_def opampInputV_def cvGet_def)
  have sat: "rowAt (opIndex ?ctx 0) (assembleDC ?ctx [(1, 100)] [])
           = (if (10000000::real) > 15 then (map (saturatedCoeff (Some 2)) [0..<dcSize ?ctx], 15)
              else if (10000000::real) < - 15
              then (map (saturatedCoeff (Some 2)) [0..<dcSize ?ctx], - 15)
              else (map (relationCoeff (Some 2) (Some 1) (Some 0) 100000) [0..<dcSize ?ctx], 0))"
    by (rule th [where cv = "[(1, 100)]" and targetV = 10000000, THEN conjunct1])
       (simp_all add: follower_parts comparator_graph separateNodes_def grounded_def
          exampleComponent_def opampInputV_def cvGet_def)
  have idx: "opIndex ?ctx 0 = 3" "dcSize ?ctx = 4" "numNodes ?g = 2"
    unfolding opIndex_def dcSize_def dcContext_def comparator_graph
    by (simp_all add: comparatorCircuit_def exampleComponent_def isVoltageSource_def
          isLogicGate_def)
  have rel: "map (relationCoeff (Some 2) (Some 1) (Some 0) 100000) [0..<4] = [- 100000, 1, 0, 0]"
    "map (saturatedCoeff (Some 2)) [0..<4] = [0, 1, 0, 0]"
    "map (\<lambda>k. JComplex (relationCoeff (Some 2) (Some 1) (Some 0) 100000 k) 0) [0..<4]
       = [JComplex (- 100000) 0, JComplex 1 0, JComplex 0 0, JComplex 0 0]"
    by code_simp+
  show ?thesis using lin sat sep rel by (simp add: idx circuitContext_def czero_def)
qed

text \<open>
  C4. The linear relation is not what the extra row holds when two ports of the op-amp
  are on one node. The three entries of the row are assigned, not added, in the order
  output, non-inverting, inverting, so a later assignment to the same column replaces the
  earlier one. In the voltage follower the output and the inverting input are node 2 and
  the target lies within the rails: the row written by all three engines is
  \<open>[-1, 1, 0, 0]\<close>, the relation \<open>V(out) - gain * V(+) + gain * V(-) = 0\<close> has the
  coefficients \<open>[-1, 2, 0, 0]\<close>, and \<open>solveCircuit\<close> returns 10 V at the output
  where the relation gives 5 V.
\<close>

theorem follower_opamp_row:
  "opampNodes (circuitContext followerCircuit followerWires) (exampleComponent ''u'' OPAMP 1)
     = (Some 2, Some 1, Some 2)
   \<and> opampGain (exampleComponent ''u'' OPAMP 1) = 1
   \<and> opampTarget (circuitContext followerCircuit followerWires)
        (currentVoltages (dcInitial (circuitContext followerCircuit followerWires)))
        (exampleComponent ''u'' OPAMP 1) = 0
   \<and> rowAt 3 (assembleDC (circuitContext followerCircuit followerWires)
                (currentVoltages (dcInitial (circuitContext followerCircuit followerWires)))
                (gateTargets (dcInitial (circuitContext followerCircuit followerWires))))
       = ([- 1, 1, 0, 0], 0)
   \<and> rowAt 3 (assembleTR followerCircuit (buildGraph followerCircuit followerWires) 1 0
                (transientInitial followerCircuit (buildGraph followerCircuit followerWires)))
       = ([- 1, 1, 0, 0], 0)
   \<and> rowAt 3 (assembleAC followerCircuit (buildGraph followerCircuit followerWires) 1)
       = ([JComplex (- 1) 0, JComplex 1 0, JComplex 0 0, JComplex 0 0], JComplex 0 0)
   \<and> map (relationCoeff (Some 2) (Some 1) (Some 2) 1) [0..<4] = [- 1, 2, 0, 0]
   \<and> nodeVoltages (solveCircuit followerCircuit followerWires 0)
       = [(0, 0, 0), (1, 10, 0), (2, 10, 0)]"
proof -
  let ?g = "buildGraph followerCircuit followerWires"
  let ?u = "exampleComponent ''u'' OPAMP 1"
  let ?ctx = "circuitContext followerCircuit followerWires"
  have n: "opampNodes ?ctx ?u = (Some 2, Some 1, Some 2)" by code_simp
  have gn: "opampGain ?u = 1" by code_simp
  have t: "opampTarget ?ctx (currentVoltages (dcInitial ?ctx)) ?u = 0" by code_simp
  have dc: "rowAt 3 (assembleDC ?ctx (currentVoltages (dcInitial ?ctx))
                      (gateTargets (dcInitial ?ctx))) = ([- 1, 1, 0, 0], 0)"
    by code_simp
  have nb: "nodesBounded (portToNode ?g) (numNodes ?g)" by (rule buildGraph_nodesBounded)
  have lc: "map (linearCoeff (Some 2) (Some 1) (Some 2) 1) [0..<4] = [- 1, 1, 0, 0]"
    by code_simp
  have "rowAt (numNodes ?g + length [exampleComponent ''v'' VOLTAGE_SOURCE 10] + 0)
          (assembleTR followerCircuit ?g 1 0 (transientInitial followerCircuit ?g))
       = (map (linearCoeff (map_of (portToNode ?g) (cid ([?u] ! 0), 2))
                 (map_of (portToNode ?g) (cid ([?u] ! 0), 0))
                 (map_of (portToNode ?g) (cid ([?u] ! 0), 1)) (opampGain ([?u] ! 0)))
            [0..<numNodes ?g + length [exampleComponent ''v'' VOLTAGE_SOURCE 10] + length [?u]], 0)"
    by (rule assembleTR_opamp_row [OF nb]) (simp_all add: follower_parts)
  then have tr: "rowAt 3 (assembleTR followerCircuit ?g 1 0 (transientInitial followerCircuit ?g))
                   = ([- 1, 1, 0, 0], 0)"
    using lc gn by (simp add: follower_graph exampleComponent_def)
  have ac: "rowAt 3 (assembleAC followerCircuit ?g 1)
       = ([JComplex (- 1) 0, JComplex 1 0, JComplex 0 0, JComplex 0 0], JComplex 0 0)"
    by code_simp
  have rel: "map (relationCoeff (Some 2) (Some 1) (Some 2) 1) [0..<4] = [- 1, 2, 0, 0]"
    by code_simp
  have res: "nodeVoltages (solveCircuit followerCircuit followerWires 0)
       = [(0, 0, 0), (1, 10, 0), (2, 10, 0)]"
    by code_simp
  show ?thesis using n gn t dc tr ac rel res by blast
qed

section \<open>The frequency axis of the AC sweep\<close>

lemma decade_bounds:
  assumes "0 < v"
  shows "10 powr of_int \<lfloor>log 10 v\<rfloor> \<le> v" and "v < 10 powr (of_int \<lfloor>log 10 v\<rfloor> + 1)"
proof -
  have "of_int \<lfloor>log 10 v\<rfloor> \<le> log 10 v" by simp
  then have "10 powr of_int \<lfloor>log 10 v\<rfloor> \<le> 10 powr log 10 v" by (simp only: powr_le_cancel_iff) 
  then show "10 powr of_int \<lfloor>log 10 v\<rfloor> \<le> v" using assms by simp
  have "log 10 v < of_int \<lfloor>log 10 v\<rfloor> + 1" by linarith
  then have "10 powr log 10 v < 10 powr (of_int \<lfloor>log 10 v\<rfloor> + 1)" by simp
  then show "v < 10 powr (of_int \<lfloor>log 10 v\<rfloor> + 1)" using assms by simp
qed

lemma toPrecision4_pos:
  "0 < v \<Longrightarrow> toPrecision4 v
     = of_int \<lfloor>v / 10 powr (of_int \<lfloor>log 10 v\<rfloor> - 3) + 1 / 2\<rfloor>
         * 10 powr (of_int \<lfloor>log 10 v\<rfloor> - 3)"
  by (simp add: toPrecision4_def Let_def)

lemma unit_scale: "(10::real) powr (e - 3) * 1000 = 10 powr (e::real)"
proof -
  have "(10::real) powr (e - 3) * 10 powr 3 = 10 powr (e::real)"
    by (simp only: powr_add [symmetric]) simp
  then show ?thesis by simp
qed

lemma toPrecision4_error:
  assumes "0 < v"
  shows "\<bar>toPrecision4 v - v\<bar> \<le> v / 2000"
proof -
  define s :: real where "s = 10 powr (of_int \<lfloor>log 10 v\<rfloor> - 3)"
  define n where "n = \<lfloor>v / s + 1 / 2\<rfloor>"
  have sp: "0 < s" by (simp add: s_def)
  have tp: "toPrecision4 v = of_int n * s" using assms by (simp add: toPrecision4_pos s_def n_def)
  have "of_int n \<le> v / s + 1 / 2" "v / s + 1 / 2 < of_int n + 1"
    unfolding n_def by linarith+
  then have "\<bar>of_int n - v / s\<bar> \<le> 1 / 2" by linarith
  then have "\<bar>of_int n - v / s\<bar> * s \<le> 1 / 2 * s" using sp by (simp only: mult_le_cancel_right_pos)
  moreover have "\<bar>(of_int n - v / s) * s\<bar> = \<bar>of_int n - v / s\<bar> * s"
    using sp by (simp add: abs_mult)
  moreover have "(of_int n - v / s) * s = of_int n * s - v"
    using sp by (simp add: left_diff_distrib)
  ultimately have e: "\<bar>of_int n * s - v\<bar> \<le> s / 2" by simp
  have "s * 1000 \<le> v" using decade_bounds(1) [OF assms] unit_scale [of "of_int \<lfloor>log 10 v\<rfloor>"]
    by (simp add: s_def)
  then show ?thesis using e tp by linarith
qed

lemma toPrecision4_mono:
  assumes "0 < a" and "a \<le> b"
  shows "toPrecision4 a \<le> toPrecision4 b"
proof -
  define ea where "ea = \<lfloor>log 10 a\<rfloor>"
  define eb where "eb = \<lfloor>log 10 b\<rfloor>"
  define sa :: real where "sa = 10 powr (of_int ea - 3)"
  define sb :: real where "sb = 10 powr (of_int eb - 3)"
  have bp: "0 < b" using assms by simp
  have ta: "toPrecision4 a = of_int \<lfloor>a / sa + 1 / 2\<rfloor> * sa"
    using assms(1) by (simp add: toPrecision4_pos sa_def ea_def)
  have tb: "toPrecision4 b = of_int \<lfloor>b / sb + 1 / 2\<rfloor> * sb"
    using bp by (simp add: toPrecision4_pos sb_def eb_def)
  have sap: "0 < sa" and sbp: "0 < sb" by (simp_all add: sa_def sb_def)
  have "log 10 a \<le> log 10 b" using assms by simp
  then have le: "ea \<le> eb" unfolding ea_def eb_def by (rule floor_mono)
  show ?thesis
  proof (cases "ea = eb")
    case True
    then have s: "sa = sb" by (simp add: sa_def sb_def)
    have "a / sb \<le> b / sb" using assms(2) sbp by (simp add: divide_right_mono)
    then have "\<lfloor>a / sb + 1 / 2\<rfloor> \<le> \<lfloor>b / sb + 1 / 2\<rfloor>" by (intro floor_mono) simp
    then have "of_int \<lfloor>a / sb + 1 / 2\<rfloor> * sb \<le> of_int \<lfloor>b / sb + 1 / 2\<rfloor> * sb"
      using sbp by simp
    then show ?thesis by (simp add: ta tb s)
  next
    case False
    then have lt: "ea + 1 \<le> eb" using le by simp
    have "a < 10 powr (of_int ea + 1)" using decade_bounds(2) [OF assms(1)] by (simp add: ea_def)
    moreover have "10 powr (of_int ea + 1) = sa * 10000"
    proof -
      have "sa * 10 powr 4 = 10 powr (of_int ea - 3 + 4)"
        unfolding sa_def by (simp only: powr_add)
      moreover have "(of_int ea - 3 + 4 :: real) = of_int ea + 1" by simp
      ultimately have "sa * 10 powr 4 = 10 powr (of_int ea + 1)" by simp
      then show ?thesis by simp
    qed
    ultimately have "a / sa < 10000" using sap by (simp add: pos_divide_less_eq mult.commute)
    then have "\<lfloor>a / sa + 1 / 2\<rfloor> \<le> 10000" by (simp add: floor_le_iff)
    then have "(of_int \<lfloor>a / sa + 1 / 2\<rfloor> :: real) \<le> 10000" by linarith
    then have "of_int \<lfloor>a / sa + 1 / 2\<rfloor> * sa \<le> 10000 * sa" using sap by simp
    then have ua: "toPrecision4 a \<le> 10 powr (of_int ea + 1)"
      using \<open>10 powr (of_int ea + 1) = sa * 10000\<close> ta by simp
    have "(of_int ea + 1 :: real) \<le> of_int eb" using lt by linarith
    then have mid: "10 powr (of_int ea + 1) \<le> (10::real) powr of_int eb" by simp
    have "10 powr of_int eb \<le> b" using decade_bounds(1) [OF bp] by (simp add: eb_def)
    moreover have us: "sb * 1000 = 10 powr of_int eb"
      using unit_scale [of "of_int eb"] by (simp add: sb_def)
    ultimately have "sb * 1000 \<le> b" by simp
    then have "1000 \<le> b / sb" using sbp by (simp add: pos_le_divide_eq mult.commute)
    then have "(1000::int) \<le> \<lfloor>b / sb + 1 / 2\<rfloor>" by (simp add: le_floor_iff)
    then have "(1000::real) \<le> of_int \<lfloor>b / sb + 1 / 2\<rfloor>" by linarith
    then have "1000 * sb \<le> of_int \<lfloor>b / sb + 1 / 2\<rfloor> * sb" using sbp by simp
    then have "10 powr of_int eb \<le> toPrecision4 b"
      using us tb by linarith
    then show ?thesis using ua mid by linarith
  qed
qed

lemma decade_unique:
  assumes "0 < v" and "10 powr of_int e \<le> v" and "v < 10 powr (of_int e + 1)"
  shows "\<lfloor>log 10 v\<rfloor> = e"
proof -
  have "of_int e \<le> log 10 v" using assms(1,2) by (simp add: le_log_iff)
  moreover have "log 10 v < of_int e + 1" using assms(1,3) by (simp add: log_less_iff)
  ultimately show ?thesis by (simp add: floor_eq_iff)
qed

lemma toPrecision4_value:
  assumes "0 < v" and "10 powr of_int e \<le> v" and "v < 10 powr (of_int e + 1)"
    and "s = 10 powr (of_int e - 3)"
    and "of_int n \<le> v / s + 1 / 2" and "v / s + 1 / 2 < of_int n + 1"
  shows "toPrecision4 v = of_int n * s"
proof -
  have e: "\<lfloor>log 10 v\<rfloor> = e" using assms(1,2,3) by (rule decade_unique)
  have "\<lfloor>v / s + 1 / 2\<rfloor> = n" using assms(5,6) by (simp add: floor_eq_iff)
  then show ?thesis using assms(1,4) by (simp add: toPrecision4_pos e)
qed

lemma near_one:
  assumes "\<bar>v - 1\<bar> \<le> 1 / 10 ^ 9"
  shows "toPrecision4 v = 1"
proof (cases "1 \<le> v")
  case True
  have b: "v < 10001 / 10000" using assms unfolding abs_le_iff by simp
  have "toPrecision4 v = of_int 1000 * (1 / 1000)"
    using b True
    by (intro toPrecision4_value [where e = 0]) (simp_all add: powr_minus)
  then show ?thesis by simp
next
  case False
  have b: "99999 / 100000 < v" using assms unfolding abs_le_iff by simp
  have "toPrecision4 v = of_int 10000 * (1 / 10000)"
    using b False
    by (intro toPrecision4_value [where e = "- 1"]) (simp_all add: powr_minus)
  then show ?thesis by simp
qed

lemma near_narrow:
  assumes "\<bar>v - 10001 / 10000\<bar> \<le> 10001 / 10000 / 10 ^ 9"
  shows "toPrecision4 v = 1"
proof -
  have b: "1 < v \<and> v < 10002 / 10000" using assms unfolding abs_le_iff by simp
  have "toPrecision4 v = of_int 1000 * (1 / 1000)"
    using b
    by (intro toPrecision4_value [where e = 0]) (simp_all add: powr_minus)
  then show ?thesis by simp
qed

lemma near_wide:
  assumes "\<bar>v - 12346\<bar> \<le> 12346 / 10 ^ 9"
  shows "toPrecision4 v = 12350"
proof -
  have b: "12345 < v \<and> v < 12347" using assms unfolding abs_le_iff by simp
  have "toPrecision4 v = of_int 1235 * 10"
    using b
    by (intro toPrecision4_value [where e = 4]) simp_all
  then show ?thesis by simp
qed

lemma solveACSweep_plot:
  "numNodes (buildGraph components wires) \<noteq> 0 \<Longrightarrow>
   plotData (solveACSweep computed components wires config)
     = Some (map (acPoint computed components (buildGraph components wires) config)
               (sweepIndices config))"
  by (simp add: solveACSweep_def Let_def)

lemma acPoint_px:
  "px (acPoint computed components g config i) = toPrecision4 (computed (sweepFrequency config i))"
  by (simp add: acPoint_def Let_def)

lemma sweepFrequency_pos: "0 < sweepFrequency config i"
  by (simp add: sweepFrequency_def Let_def)

lemma sweepFrequency_mono:
  assumes "2 \<le> points config" and "max 1 (startFreq config) \<le> stopFreq config" and "i \<le> j"
  shows "sweepFrequency config i \<le> sweepFrequency config j"
proof -
  let ?a = "log 10 (max 1 (startFreq config))"
  let ?st = "(log 10 (stopFreq config) - ?a) / (points config - 1)"
  have "0 < max 1 (startFreq config)" by simp
  then have "?a \<le> log 10 (stopFreq config)" using assms(2) by (simp only: log_le_cancel_iff)
  moreover have "0 < points config - 1" using assms(1) by simp
  ultimately have st: "0 \<le> ?st" by simp
  have "real i \<le> real j" using assms(3) by simp
  then have "real i * ?st \<le> real j * ?st" using st by (rule mult_right_mono)
  then have "?a + real i * ?st \<le> ?a + real j * ?st" by (rule add_left_mono)
  then have "10 powr (?a + real i * ?st) \<le> 10 powr (?a + real j * ?st)"
    by (simp only: powr_le_cancel_iff)
  then show ?thesis by (simp only: sweepFrequency_def Let_def)
qed

lemma accurate_bounds:
  assumes "accurate computed" and "0 < v"
  shows "0 < computed v" and "\<bar>toPrecision4 (computed v) - v\<bar> \<le> v * 501 / 10 ^ 6"
proof -
  have a: "\<bar>computed v - v\<bar> \<le> v / 10 ^ 9" using assms by (simp add: accurate_def)
  then have lo: "v - v / 10 ^ 9 \<le> computed v" and hi: "computed v \<le> v + v / 10 ^ 9"
    unfolding abs_le_iff by simp_all
  have "0 < v - v / 10 ^ 9" using assms(2) by simp
  then show p: "0 < computed v" using lo by linarith
  have "\<bar>toPrecision4 (computed v) - computed v\<bar> \<le> computed v / 2000"
    using p by (rule toPrecision4_error)
  then have "\<bar>toPrecision4 (computed v) - v\<bar> \<le> computed v / 2000 + v / 10 ^ 9"
    using a by linarith
  moreover have "computed v / 2000 + v / 10 ^ 9 \<le> v * 501 / 10 ^ 6"
    using hi assms(2) by simp
  ultimately show "\<bar>toPrecision4 (computed v) - v\<bar> \<le> v * 501 / 10 ^ 6" by linarith
qed

text \<open>
  C2 (as amended). For an AC sweep with \<open>config.points\<close> at least 2 over a circuit
  with a non-ground node, \<open>plotData\<close> has one entry for every natural number below
  \<open>config.points\<close>, which is \<open>config.points\<close> entries when that is a whole
  number. The \<open>x\<close> of entry \<open>i\<close> is \<open>parseFloat(freq.toPrecision(4))\<close> of the
  double computed for \<open>10^(logStart + i * step)\<close>; with that double within a relative
  error of \<open>1e-9\<close> of the real number, \<open>x\<close> lies within a relative error of
  \<open>5.01e-4\<close> of it, and the \<open>x\<close> values are non-decreasing when \<open>stopFreq\<close>
  is at least \<open>max(1, startFreq)\<close> and the evaluation preserves the order. The stop
  frequency is taken positive: its logarithm is then a real number.
\<close>

theorem ac_sweep_points:
  assumes "2 \<le> points config" and "numNodes (buildGraph components wires) \<noteq> 0"
    and "0 < stopFreq config" and "accurate computed"
  shows "\<exists>pts. plotData (solveACSweep computed components wires config) = Some pts
          \<and> length pts = nat \<lceil>points config\<rceil>
          \<and> (\<forall>i<length pts.
                px (pts ! i) = toPrecision4 (computed (sweepFrequency config i))
              \<and> sweepFrequency config i
                  = 10 powr (log 10 (max 1 (startFreq config))
                      + real i * ((log 10 (stopFreq config) - log 10 (max 1 (startFreq config)))
                                    / (points config - 1)))
              \<and> \<bar>px (pts ! i) - sweepFrequency config i\<bar>
                  \<le> sweepFrequency config i * 501 / 10 ^ 6)
          \<and> ((\<forall>u v. u \<le> v \<longrightarrow> computed u \<le> computed v) \<longrightarrow>
              max 1 (startFreq config) \<le> stopFreq config \<longrightarrow>
                (\<forall>j<length pts. \<forall>i\<le>j. px (pts ! i) \<le> px (pts ! j)))"
proof -
  let ?n = "nat \<lceil>points config\<rceil>"
  let ?pts = "map (acPoint computed components (buildGraph components wires) config) [0..<?n]"
  have p: "plotData (solveACSweep computed components wires config) = Some ?pts"
    using solveACSweep_plot [OF assms(2)] by (simp add: sweepIndices_def)
  have l: "length ?pts = ?n" by simp
  have x: "\<And>i. i < ?n \<Longrightarrow>
             px (?pts ! i) = toPrecision4 (computed (sweepFrequency config i))"
    by (simp add: acPoint_px)
  have e: "\<And>i. i < ?n \<Longrightarrow>
             \<bar>px (?pts ! i) - sweepFrequency config i\<bar> \<le> sweepFrequency config i * 501 / 10 ^ 6"
    using accurate_bounds(2) [OF assms(4) sweepFrequency_pos] by (simp add: acPoint_px)
  have f: "\<And>i. sweepFrequency config i
                  = 10 powr (log 10 (max 1 (startFreq config))
                      + real i * ((log 10 (stopFreq config) - log 10 (max 1 (startFreq config)))
                                    / (points config - 1)))"
    by (simp add: sweepFrequency_def Let_def)
  have m: "\<And>j i. \<forall>u v. u \<le> v \<longrightarrow> computed u \<le> computed v \<Longrightarrow>
             max 1 (startFreq config) \<le> stopFreq config \<Longrightarrow> j < ?n \<Longrightarrow> i \<le> j
             \<Longrightarrow> px (?pts ! i) \<le> px (?pts ! j)"
  proof -
    fix j i
    assume a: "\<forall>u v. u \<le> v \<longrightarrow> computed u \<le> computed v"
      "max 1 (startFreq config) \<le> stopFreq config" "j < ?n" "i \<le> j"
    have "computed (sweepFrequency config i) \<le> computed (sweepFrequency config j)"
      using a(1) sweepFrequency_mono [OF assms(1) a(2) a(4)] by blast
    then have "toPrecision4 (computed (sweepFrequency config i))
                 \<le> toPrecision4 (computed (sweepFrequency config j))"
      using accurate_bounds(1) [OF assms(4) sweepFrequency_pos] by (intro toPrecision4_mono)
    then show "px (?pts ! i) \<le> px (?pts ! j)" using a(3,4) by (simp add: acPoint_px)
  qed
  show ?thesis
  proof (intro exI [of _ ?pts] conjI allI impI)
    show "plotData (solveACSweep computed components wires config) = Some ?pts" by (rule p)
    show "length ?pts = ?n" by (rule l)
    show "\<And>i. i < length ?pts \<Longrightarrow>
            px (?pts ! i) = toPrecision4 (computed (sweepFrequency config i))"
      using x by simp
    show "\<And>i. i < length ?pts \<Longrightarrow> sweepFrequency config i
                  = 10 powr (log 10 (max 1 (startFreq config))
                      + real i * ((log 10 (stopFreq config) - log 10 (max 1 (startFreq config)))
                                    / (points config - 1)))"
      by (rule f)
    show "\<And>i. i < length ?pts \<Longrightarrow>
             \<bar>px (?pts ! i) - sweepFrequency config i\<bar> \<le> sweepFrequency config i * 501 / 10 ^ 6"
      using e by simp
    show "\<And>j i. \<forall>u v. u \<le> v \<longrightarrow> computed u \<le> computed v \<Longrightarrow>
             max 1 (startFreq config) \<le> stopFreq config \<Longrightarrow> j < length ?pts
             \<Longrightarrow> i \<le> j \<Longrightarrow> px (?pts ! i) \<le> px (?pts ! j)"
      using m by simp
  qed
qed

lemma sweep_examples:
  "sweepFrequency narrowSweep 0 = 1" "sweepFrequency narrowSweep (Suc 0) = 10001 / 10000"
  "sweepIndices narrowSweep = [0, Suc 0]"
  "sweepFrequency wideSweep 0 = 1" "sweepFrequency wideSweep (Suc 0) = 12346"
  "sweepIndices wideSweep = [0, Suc 0]"
  "sweepIndices fractionalSweep = [0, Suc 0, 2]"
  by (simp_all add: sweepFrequency_def sweepIndices_def narrowSweep_def wideSweep_def
        fractionalSweep_def Let_def upt_rec numeral_2_eq_2 numeral_3_eq_3 ceiling_eq_iff)

lemma rounded_axis_any_evaluation:
  assumes "accurate computed"
  shows "map px (the (plotData (solveACSweep computed ohmCircuit ohmWires wideSweep)))
           = [1, 12350]"
    and "map px (the (plotData (solveACSweep computed ohmCircuit ohmWires narrowSweep)))
           = [1, 1]"
proof -
  have n: "numNodes (buildGraph ohmCircuit ohmWires) \<noteq> 0" by (simp add: ohm_graph)
  have a: "\<And>v. 0 < v \<Longrightarrow> \<bar>computed v - v\<bar> \<le> v / 10 ^ 9"
    using assms by (simp add: accurate_def)
  have c1: "toPrecision4 (computed 1) = 1" using a [of 1] by (intro near_one) simp
  have c2: "toPrecision4 (computed 12346) = 12350" using a [of 12346] by (intro near_wide) simp
  have c3: "toPrecision4 (computed (10001 / 10000)) = 1"
    using a [of "10001 / 10000"] by (intro near_narrow) simp
  show "map px (the (plotData (solveACSweep computed ohmCircuit ohmWires wideSweep)))
           = [1, 12350]"
    using solveACSweep_plot [OF n, of computed wideSweep]
    by (simp add: acPoint_px sweep_examples c1 c2)
  show "map px (the (plotData (solveACSweep computed ohmCircuit ohmWires narrowSweep)))
           = [1, 1]"
    using solveACSweep_plot [OF n, of computed narrowSweep]
    by (simp add: acPoint_px sweep_examples c1 c3)
qed

lemma accurate_exact: "accurate exactEvaluation"
  by (simp add: accurate_def exactEvaluation_def)

text \<open>
  With length \<open>config.points\<close>, the bound \<open>1e-9\<close> and strictly increasing \<open>x\<close>
  the statement fails. A sweep from 1 Hz to 12346 Hz in two points ends at
  \<open>x = 12350\<close>, a sweep from 1 Hz to 1.0001 Hz in two points has \<open>x = 1\<close> twice,
  and a sweep with \<open>points = 2.5\<close> has three entries. The counterexample is stated for
  the evaluation without rounding error; by \<open>rounded_axis_any_evaluation\<close> the values
  are the same for every evaluation within \<open>1e-9\<close>.
\<close>

theorem rounded_sweep_counterexample:
  "2 \<le> points wideSweep \<and> 2 \<le> points narrowSweep \<and> 2 \<le> points fractionalSweep
   \<and> numNodes (buildGraph ohmCircuit ohmWires) \<noteq> 0
   \<and> accurate exactEvaluation
   \<and> map px (the (plotData (solveACSweep exactEvaluation ohmCircuit ohmWires wideSweep)))
       = [1, 12350]
   \<and> sweepFrequency wideSweep 1 = 12346
   \<and> \<not> \<bar>12350 - 12346 :: real\<bar> \<le> 12346 / 10 ^ 9
   \<and> max 1 (startFreq narrowSweep) < stopFreq narrowSweep
   \<and> map px (the (plotData (solveACSweep exactEvaluation ohmCircuit ohmWires narrowSweep)))
       = [1, 1]
   \<and> length (the (plotData (solveACSweep exactEvaluation ohmCircuit ohmWires fractionalSweep)))
       = 3
   \<and> points fractionalSweep = 5 / 2"
proof -
  have n: "numNodes (buildGraph ohmCircuit ohmWires) \<noteq> 0" by (simp add: ohm_graph)
  note r = rounded_axis_any_evaluation [OF accurate_exact]
  have f: "sweepFrequency wideSweep 1 = 12346" using sweep_examples(5) by simp
  have l: "length (the (plotData (solveACSweep exactEvaluation ohmCircuit ohmWires
                                    fractionalSweep))) = 3"
    using solveACSweep_plot [OF n, of exactEvaluation fractionalSweep]
    by (simp add: sweep_examples)
  have p: "2 \<le> points wideSweep" "2 \<le> points narrowSweep" "2 \<le> points fractionalSweep"
    "points fractionalSweep = 5 / 2" "max 1 (startFreq narrowSweep) < stopFreq narrowSweep"
    by (simp_all add: wideSweep_def narrowSweep_def fractionalSweep_def)
  show ?thesis using n r f l p accurate_exact by simp
qed

theorem ac_sweep_points_witness:
  "2 \<le> points narrowSweep \<and> numNodes (buildGraph ohmCircuit ohmWires) \<noteq> 0
   \<and> 0 < stopFreq narrowSweep \<and> accurate exactEvaluation
   \<and> (\<exists>pts. plotData (solveACSweep exactEvaluation ohmCircuit ohmWires narrowSweep) = Some pts
          \<and> length pts = 2 \<and> px (pts ! 0) = 1 \<and> px (pts ! 1) = 1
          \<and> \<bar>px (pts ! 1) - 10001 / 10000\<bar> \<le> (10001 / 10000) * 501 / 10 ^ 6)"
proof -
  have n: "numNodes (buildGraph ohmCircuit ohmWires) \<noteq> 0" by (simp add: ohm_graph)
  have h: "2 \<le> points narrowSweep" "0 < stopFreq narrowSweep" by (simp_all add: narrowSweep_def)
  have c: "nat \<lceil>points narrowSweep\<rceil> = 2" by (simp add: narrowSweep_def)
  obtain pts where p:
      "plotData (solveACSweep exactEvaluation ohmCircuit ohmWires narrowSweep) = Some pts"
      "length pts = nat \<lceil>points narrowSweep\<rceil>"
      "\<forall>i<length pts. px (pts ! i) = toPrecision4 (exactEvaluation (sweepFrequency narrowSweep i))
         \<and> \<bar>px (pts ! i) - sweepFrequency narrowSweep i\<bar>
             \<le> sweepFrequency narrowSweep i * 501 / 10 ^ 6"
    using ac_sweep_points [OF h(1) n h(2) accurate_exact] by blast
  have l: "length pts = 2" using p(2) c by simp
  have "px (pts ! 0) = 1" "px (pts ! 1) = 1"
    "\<bar>px (pts ! 1) - 10001 / 10000\<bar> \<le> (10001 / 10000) * 501 / 10 ^ 6"
    using p(3) l
    by (simp_all add: sweep_examples exactEvaluation_def near_one near_narrow)
  then show ?thesis using n h p(1) l accurate_exact by blast
qed

section \<open>The solver throws nothing: the catch branch of solveCircuit is dead\<close>

lemma rowOf_in: "i < length M \<Longrightarrow> rowOf M i = Inr (M ! i)"
  by (simp add: rowOf_def)

lemma foldTry_Inr:
  assumes "\<And>x a. x \<in> set xs \<Longrightarrow> P a \<Longrightarrow> f x a = Inr (g x a) \<and> P (g x a)" and "P a"
  shows "foldTry f xs a = Inr (fold g xs a) \<and> P (fold g xs a)"
  using assms
proof (induction xs arbitrary: a)
  case Nil
  then show ?case by simp
next
  case (Cons x xs)
  have s: "f x a = Inr (g x a)" "P (g x a)" using Cons.prems by simp_all
  have "foldTry f xs (g x a) = Inr (fold g xs (g x a)) \<and> P (fold g xs (g x a))"
    using Cons.prems(1) s(2) by (intro Cons.IH) simp_all
  then show ?case using s(1) by simp
qed

lemma findPivot_try_eq:
  assumes "length M = n" and "i < n"
  shows "findPivot_try M n i = Inr (findPivot M n i)"
proof -
  let ?f = "\<lambda>k (maxRow, maxVal).
              case rowOf M k of Inl e \<Rightarrow> Inl e
              | Inr Mk \<Rightarrow> Inr (if \<bar>Mk ! i\<bar> > maxVal then (k, \<bar>Mk ! i\<bar>) else (maxRow, maxVal))"
  let ?g = "\<lambda>k (maxRow, maxVal).
              if \<bar>M ! k ! i\<bar> > maxVal then (k, \<bar>M ! k ! i\<bar>) else (maxRow, maxVal)"
  have "foldTry ?f [i + 1..<n] (i, \<bar>M ! i ! i\<bar>) = Inr (fold ?g [i + 1..<n] (i, \<bar>M ! i ! i\<bar>))
        \<and> True"
    by (rule foldTry_Inr [where P = "\<lambda>_. True"]) (auto simp: rowOf_in assms(1))
  then show ?thesis using assms by (simp add: findPivot_try_def findPivot_def rowOf_in)
qed

lemma findPivot_bound:
  assumes "i < n"
  shows "findPivot M n i < n"
proof -
  have "\<And>ks m v. m < n \<Longrightarrow> \<forall>k\<in>set ks. k < n \<Longrightarrow>
          fst (fold (\<lambda>k (maxRow, maxVal).
                       if \<bar>M ! k ! i\<bar> > maxVal then (k, \<bar>M ! k ! i\<bar>) else (maxRow, maxVal))
                 ks (m, v)) < n"
  proof -
    fix ks :: "nat list" and m v
    show "m < n \<Longrightarrow> \<forall>k\<in>set ks. k < n \<Longrightarrow>
          fst (fold (\<lambda>k (maxRow, maxVal).
                       if \<bar>M ! k ! i\<bar> > maxVal then (k, \<bar>M ! k ! i\<bar>) else (maxRow, maxVal))
                 ks (m, v)) < n"
      by (induction ks arbitrary: m v) simp_all
  qed
  then show ?thesis using assms by (simp add: findPivot_def)
qed

lemma eliminateRow_try_eq:
  assumes "length M = n" and "i < n" and "k < n"
  shows "eliminateRow_try n i k (M, V) = Inr (eliminateRow n i k (M, V))
       \<and> length (fst (eliminateRow n i k (M, V))) = n"
proof -
  let ?factor = "M ! k ! i / M ! i ! i"
  let ?f = "\<lambda>j Mx. case rowOf Mx k of Inl e \<Rightarrow> Inl e
                    | Inr Xk \<Rightarrow>
                       (case rowOf Mx i of Inl e \<Rightarrow> Inl e
                        | Inr Xi \<Rightarrow> Inr (Mx[k := Xk[j := Xk ! j - ?factor * Xi ! j]]))"
  let ?g = "\<lambda>j Mx. Mx[k := (Mx ! k)[j := Mx ! k ! j - ?factor * Mx ! i ! j]]"
  have "foldTry ?f [i..<n] M = Inr (fold ?g [i..<n] M) \<and> length (fold ?g [i..<n] M) = n"
    by (rule foldTry_Inr [where P = "\<lambda>Mx. length Mx = n"]) (simp_all add: rowOf_in assms)
  then show ?thesis
    using assms by (simp add: eliminateRow_try_def eliminateRow_def rowOf_in Let_def)
qed

lemma forwardStep_try_eq:
  assumes "length M = n" and "i < n"
  shows "forwardStep_try n i (M, V) = Inr (forwardStep n i (M, V))
       \<and> length (fst (forwardStep n i (M, V))) = n"
proof -
  let ?p = "findPivot M n i"
  let ?M1 = "swapList i ?p M" and ?V1 = "swapList i ?p V"
  have l1: "length ?M1 = n" using assms by (simp add: swapList_def)
  have e: "foldTry (eliminateRow_try n i) [i + 1..<n] (?M1, ?V1)
             = Inr (fold (eliminateRow n i) [i + 1..<n] (?M1, ?V1))
         \<and> length (fst (fold (eliminateRow n i) [i + 1..<n] (?M1, ?V1))) = n"
  proof (rule foldTry_Inr [where P = "\<lambda>MV. length (fst MV) = n"])
    fix k and MV :: "Matrix \<times> real list"
    assume a: "k \<in> set [i + 1..<n]" "length (fst MV) = n"
    obtain Mx Vx where mv: "MV = (Mx, Vx)" by (cases MV) auto
    show "eliminateRow_try n i k MV = Inr (eliminateRow n i k MV)
          \<and> length (fst (eliminateRow n i k MV)) = n"
      unfolding mv using a assms(2) by (intro eliminateRow_try_eq) (simp_all add: mv)
  next
    show "length (fst (?M1, ?V1)) = n" using l1 by simp
  qed
  show ?thesis
    using e l1 assms
    by (simp add: forwardStep_try_def forwardStep_def findPivot_try_eq rowOf_in Let_def)
qed

lemma forwardElimination_try:
  "foldTry (forwardStep_try (length A)) [0..<length A] (A, B) = Inr (forwardElimination A B)
   \<and> length (fst (forwardElimination A B)) = length A"
  unfolding forwardElimination_def
proof (rule foldTry_Inr [where P = "\<lambda>MV. length (fst MV) = length A"])
  fix i and MV :: "Matrix \<times> real list"
  assume a: "i \<in> set [0..<length A]" "length (fst MV) = length A"
  obtain Mx Vx where mv: "MV = (Mx, Vx)" by (cases MV) auto
  show "forwardStep_try (length A) i MV = Inr (forwardStep (length A) i MV)
        \<and> length (fst (forwardStep (length A) i MV)) = length A"
    unfolding mv using a by (intro forwardStep_try_eq) (simp_all add: mv)
next
  show "length (fst (A, B)) = length A" by simp
qed

lemma backStep_try_eq:
  assumes "length M = n" and "i < n"
  shows "backStep_try n M V i xs = Inr (backStep n M V i xs)"
  using assms by (simp add: backStep_try_def backStep_def rowOf_in Let_def)

lemma MatrixSolver_solve_never_throws:
  "MatrixSolver_solve_try A B = Inr (MatrixSolver_solve A B)"
proof -
  let ?n = "length A"
  let ?MV = "forwardElimination A B"
  have f: "foldTry (forwardStep_try ?n) [0..<?n] (A, B) = Inr ?MV" and l: "length (fst ?MV) = ?n"
    using forwardElimination_try [of A B] by simp_all
  have "foldTry (backStep_try ?n (fst ?MV) (snd ?MV)) (rev [0..<?n]) (replicate ?n 0)
          = Inr (fold (backStep ?n (fst ?MV) (snd ?MV)) (rev [0..<?n]) (replicate ?n 0)) \<and> True"
    by (rule foldTry_Inr [where P = "\<lambda>_. True"]) (simp_all add: backStep_try_eq l)
  then show ?thesis
    using f by (simp add: MatrixSolver_solve_try_def MatrixSolver_solve_eq Let_def)
qed

lemma dcIteration_try_eq: "dcIteration_try ctx st = Inr (dcIteration ctx st)"
  by (simp add: dcIteration_try_def dcIteration_def MatrixSolver_solve_never_throws Let_def)

lemma dcLoop_try_eq: "dcLoop_try k ctx st = Inr (dcLoop k ctx st)"
  by (induction k arbitrary: st) (simp_all add: dcIteration_try_eq)

lemma solveCircuit_try_eq: "solveCircuit_try components wires f = solveCircuit components wires f"
  by (simp add: solveCircuit_try_def solveCircuit_def dcLoop_try_eq Let_def)

text \<open>
  C9. \<open>solveCircuit\<close>, with its catch branch, sets the error field if and only if no
  port maps to node 0, and the error is then \<open>No Ground (GND) found.\<close>. The
  \<open>Singular matrix\<close> result is never returned: for every matrix and vector the
  solver raises nothing, since every row it reads is one of the \<open>A.length\<close> rows of
  its copy; it returns a vector of the size of the system, and an unknown whose pivot is
  below \<open>1e-12\<close> after elimination is left at 0. So the function with the catch
  branch is the function without it.
\<close>

theorem solveCircuit_error:
  "error (solveCircuit_try components wires f)
     = (if hasGround (portToNode (buildGraph components wires)) then None
        else Some ''No Ground (GND) found.'')
   \<and> error (solveCircuit_try components wires f) \<noteq> Some ''Singular matrix''
   \<and> solveCircuit_try components wires f = solveCircuit components wires f
   \<and> MatrixSolver_solve_try A B = Inr (MatrixSolver_solve A B)
   \<and> length (MatrixSolver_solve A B) = length A
   \<and> (\<forall>i<length A. \<bar>fst (forwardElimination A B) ! i ! i\<bar> < 1 / 10 ^ 12
          \<longrightarrow> MatrixSolver_solve A B ! i = 0)"
proof -
  have e: "solveCircuit_try components wires f = solveCircuit components wires f"
    by (rule solveCircuit_try_eq)
  have "error (solveCircuit components wires f)
     = (if hasGround (portToNode (buildGraph components wires)) then None
        else Some ''No Ground (GND) found.'')"
    by (simp add: solveCircuit_def noGroundResult_def Let_def)
  then show ?thesis
    using e by (simp add: MatrixSolver_solve_never_throws MatrixSolver_solve_length
                  MatrixSolver_solve_degenerate)
qed

theorem solveCircuit_error_witness:
  "error (solveCircuit_try ohmCircuit ohmWires 0) = None
   \<and> error (solveCircuit_try [exampleComponent ''r'' RESISTOR 100] [] 0)
       = Some ''No Ground (GND) found.''
   \<and> MatrixSolver_solve_try [[0, 1], [0, 0]] [1, 1] = Inr (MatrixSolver_solve [[0, 1], [0, 0]] [1, 1])
   \<and> MatrixSolver_solve [[0, 1], [0, 0]] [1, 1] ! 1 = 0"
proof -
  have p: "\<bar>fst (forwardElimination [[0, 1], [0, 0]] [1, 1]) ! 1 ! 1\<bar> < 1 / 10 ^ 12"
    by code_simp
  note t = solveCircuit_error [of ohmCircuit ohmWires 0 "[[0, 1], [0, 0]]" "[1, 1]"]
  note u = solveCircuit_error [of "[exampleComponent ''r'' RESISTOR 100]" "[]" 0 "[]" "[]"]
  have a: "error (solveCircuit_try ohmCircuit ohmWires 0) = None"
    using t [THEN conjunct1] by (simp add: ohm_graph hasGround_def)
  have b: "error (solveCircuit_try [exampleComponent ''r'' RESISTOR 100] [] 0)
             = Some ''No Ground (GND) found.''"
    using u [THEN conjunct1] by (simp add: example_resistor_graph hasGround_def)
  have c: "MatrixSolver_solve_try [[0, 1], [0, 0]] [1, 1]
             = Inr (MatrixSolver_solve [[0, 1], [0, 0]] [1, 1])"
    using t by blast
  have "\<forall>i<length [[0, 1], [0, 0::real]].
          \<bar>fst (forwardElimination [[0, 1], [0, 0]] [1, 1]) ! i ! i\<bar> < 1 / 10 ^ 12
          \<longrightarrow> MatrixSolver_solve [[0, 1], [0, 0]] [1, 1] ! i = 0"
    using t by blast
  then have d: "MatrixSolver_solve [[0, 1], [0, 0]] [1, 1] ! 1 = 0" using p by simp
  show ?thesis using a b c d by blast
qed

section \<open>The source rows of the transient system at every step\<close>













section \<open>What one passive component adds to the system of an iteration\<close>

lemma shaped_lengths:
  "shaped n (G, I) \<Longrightarrow> r < n \<Longrightarrow> r < length G \<and> length (G ! r) = n \<and> r < length I"
  by (simp add: shaped_def list_all_length)

lemma differ_matAdd:
  assumes "differ m n S T (G, I) (G', I')"
  shows "differ m n S T (matAdd a b v G, I) (matAdd a b v G', I')"
proof -
  have s: "shaped n (G, I)" "shaped n (G', I')" using assms by (simp_all add: differ_def)
  have e: "\<forall>r<n. \<forall>k<n. G ! r ! k = G' ! r ! k + S r k" using assms by (simp add: differ_def)
  have "\<forall>r<n. \<forall>k<n. matAdd a b v G ! r ! k = matAdd a b v G' ! r ! k + S r k"
    using e shaped_lengths [OF s(1)] shaped_lengths [OF s(2)] by (simp add: matAdd_nth)
  then show ?thesis
    using assms shaped_matAdd [OF s(1)] shaped_matAdd [OF s(2)] by (simp add: differ_def)
qed

lemma differ_matSet:
  assumes "differ m n S T (G, I) (G', I')" and "m \<le> a \<or> m \<le> b"
  shows "differ m n S T (matSet a b v G, I) (matSet a b v G', I')"
proof -
  have s: "shaped n (G, I)" "shaped n (G', I')" using assms by (simp_all add: differ_def)
  have e: "\<forall>r<n. \<forall>k<n. G ! r ! k = G' ! r ! k + S r k" using assms by (simp add: differ_def)
  have z: "S a b = 0" using assms unfolding differ_def by blast
  have "\<forall>r<n. \<forall>k<n. matSet a b v G ! r ! k = matSet a b v G' ! r ! k + S r k"
    using e z shaped_lengths [OF s(1)] shaped_lengths [OF s(2)] by (simp add: matSet_nth)
  then show ?thesis
    using assms shaped_matSet [OF s(1)] shaped_matSet [OF s(2)] by (simp add: differ_def)
qed

lemma differ_vecAdd:
  assumes "differ m n S T (G, I) (G', I')"
  shows "differ m n S T (G, vecAdd a v I) (G', vecAdd a v I')"
proof -
  have s: "shaped n (G, I)" "shaped n (G', I')" using assms by (simp_all add: differ_def)
  have e: "\<forall>r<n. I ! r = I' ! r + T r" using assms by (simp add: differ_def)
  have "\<forall>r<n. vecAdd a v I ! r = vecAdd a v I' ! r + T r"
    using e shaped_lengths [OF s(1)] shaped_lengths [OF s(2)] by (simp add: vecAdd_nth)
  then show ?thesis
    using assms shaped_vecAdd [OF s(1)] shaped_vecAdd [OF s(2)] by (simp add: differ_def)
qed

lemma differ_vecSet:
  assumes "differ m n S T (G, I) (G', I')" and "m \<le> a"
  shows "differ m n S T (G, vecSet a v I) (G', vecSet a v I')"
proof -
  have s: "shaped n (G, I)" "shaped n (G', I')" using assms by (simp_all add: differ_def)
  have e: "\<forall>r<n. I ! r = I' ! r + T r" using assms by (simp add: differ_def)
  have z: "T a = 0" using assms by (simp add: differ_def)
  have "\<forall>r<n. vecSet a v I ! r = vecSet a v I' ! r + T r"
    using e z shaped_lengths [OF s(1)] shaped_lengths [OF s(2)] by (simp add: vecSet_nth)
  then show ?thesis
    using assms shaped_vecSet [OF s(1)] shaped_vecSet [OF s(2)] by (simp add: differ_def)
qed

lemma differ_setAtNodeRow:
  "differ m n S T (G, I) (G', I') \<Longrightarrow> m \<le> c \<Longrightarrow>
   differ m n S T (setAtNodeRow nd c v G, I) (setAtNodeRow nd c v G', I')"
  by (simp add: setAtNodeRow_def differ_matSet split: option.splits)

lemma differ_setAtNodeCol:
  "differ m n S T (G, I) (G', I') \<Longrightarrow> m \<le> r \<Longrightarrow>
   differ m n S T (setAtNodeCol r nd v G, I) (setAtNodeCol r nd v G', I')"
  by (simp add: setAtNodeCol_def differ_matSet split: option.splits)

lemma differ_stampBranch:
  "differ m n S T (G, I) (G', I') \<Longrightarrow> m \<le> idx \<Longrightarrow>
   differ m n S T (stampBranch nPos nNeg idx G, I) (stampBranch nPos nNeg idx G', I')"
  by (simp add: stampBranch_def Let_def differ_matSet split: option.splits)

lemma differ_stampOpampInput:
  "differ m n S T GI GI' \<Longrightarrow>
   differ m n S T (stampOpampInput p2n c GI) (stampOpampInput p2n c GI')"
  by (cases GI; cases GI')
     (simp add: stampOpampInput_def Let_def differ_matAdd split: option.splits)

lemma differ_stampVoltageSourceDC:
  "differ (dc_numNodes ctx) n S T GI GI' \<Longrightarrow>
   differ (dc_numNodes ctx) n S T (stampVoltageSourceDC ctx iv GI) (stampVoltageSourceDC ctx iv GI')"
  by (cases GI; cases GI'; cases iv)
     (simp add: stampVoltageSourceDC_def Let_def differ_stampBranch differ_vecSet)

lemma differ_stampAmmeter:
  "differ (dc_numNodes ctx) n S T GI GI' \<Longrightarrow>
   differ (dc_numNodes ctx) n S T (stampAmmeter ctx ia GI) (stampAmmeter ctx ia GI')"
  by (cases GI; cases GI'; cases ia)
     (simp add: stampAmmeter_def Let_def differ_stampBranch differ_vecSet)

lemma differ_stampOpampDC:
  "differ (dc_numNodes ctx) n S T GI GI' \<Longrightarrow>
   differ (dc_numNodes ctx) n S T (stampOpampDC ctx cv iop GI) (stampOpampDC ctx cv iop GI')"
  by (cases GI; cases GI'; cases iop)
     (simp add: stampOpampDC_def Let_def differ_setAtNodeRow differ_setAtNodeCol differ_vecSet)

lemma differ_gate_inputs:
  "differ m n S T (G, I) (G', I') \<Longrightarrow>
   differ m n S T
     (fold (\<lambda>k Gx. case map_of p2n (g, k) of
                     Some nIn \<Rightarrow> if nIn \<noteq> 0
                                 then matAdd (getNodeIdx nIn) (getNodeIdx nIn) v Gx else Gx
                   | None \<Rightarrow> Gx) ks G, I)
     (fold (\<lambda>k Gx. case map_of p2n (g, k) of
                     Some nIn \<Rightarrow> if nIn \<noteq> 0
                                 then matAdd (getNodeIdx nIn) (getNodeIdx nIn) v Gx else Gx
                   | None \<Rightarrow> Gx) ks G', I')"
  by (induction ks arbitrary: G G') (simp_all add: differ_matAdd split: option.splits)

lemma differ_stampGate:
  "differ (dc_numNodes ctx) n S T GI GI' \<Longrightarrow>
   differ (dc_numNodes ctx) n S T (stampGate ctx gt ig GI) (stampGate ctx gt ig GI')"
  by (cases GI; cases GI'; cases ig)
     (simp add: stampGate_def Let_def differ_gate_inputs differ_setAtNodeRow differ_setAtNodeCol
        differ_vecSet)

lemma differ_fold:
  assumes "\<And>x GI GI'. differ m n S T GI GI' \<Longrightarrow> differ m n S T (f x GI) (f x GI')"
  shows "differ m n S T GI GI' \<Longrightarrow> differ m n S T (fold f xs GI) (fold f xs GI')"
  by (induction xs arbitrary: GI GI') (simp_all add: assms)

lemma differ_stampConductance:
  "differ m n S T GI GI' \<Longrightarrow>
   differ m n S T (stampConductance n1 n2 g i GI) (stampConductance n1 n2 g i GI')"
  by (cases GI; cases GI')
     (simp add: stampConductance_def Let_def differ_matAdd differ_vecAdd)

lemma differ_stampPassiveDC:
  assumes that: "differ m n S T GI GI'"
  shows "differ m n S T (stampPassiveDC p2n cv c GI) (stampPassiveDC p2n cv c GI')"
proof (cases "ctype c \<in> set dcSkipped")
  case True
  then show ?thesis using that by (simp add: stampPassiveDC_def)
next
  case False
  show ?thesis
  proof (cases "map_of p2n (cid c, 0)")
    case None
    then show ?thesis using that False by (simp add: stampPassiveDC_def)
  next
    case n1: (Some n1)
    show ?thesis
    proof (cases "map_of p2n (cid c, 1)")
      case None
      then show ?thesis using that False n1 by (simp add: stampPassiveDC_def)
    next
      case (Some n2)
      obtain g i where gi: "dcEquivalent cv c n1 n2 = (g, i)" by (cases "dcEquivalent cv c n1 n2")
      have e: "\<And>X. stampPassiveDC p2n cv c X = stampConductance n1 n2 g i X"
        using False n1 Some gi by (simp add: stampPassiveDC_def)
      show ?thesis unfolding e using that by (rule differ_stampConductance)
    qed
  qed
qed

lemma differ_same: "shaped n GI \<Longrightarrow> differ m n (\<lambda>r k. 0) (\<lambda>r. 0) GI GI"
  by (simp add: differ_def)

lemma differ_shaped: "differ m n S T GI GI' \<Longrightarrow> shaped n GI \<and> shaped n GI'"
  by (simp add: differ_def)

lemma shaped_stampPassiveDC: "shaped n GI \<Longrightarrow> shaped n (stampPassiveDC p2n cv c GI)"
  by (rule differ_shaped [THEN conjunct1], rule differ_stampPassiveDC, rule differ_same)

lemma passives_shaped: "shaped n GI \<Longrightarrow> shaped n (fold (stampPassiveDC p2n cv) cs GI)"
  by (induction cs arbitrary: GI) (simp_all add: shaped_stampPassiveDC)

lemma admittanceAt_support:
  assumes "n1 \<le> m" and "n2 \<le> m" and "m \<le> r \<or> m \<le> k"
  shows "admittanceAt n1 n2 Y r k = 0"
  using assms(3)
proof
  assume "m \<le> r"
  then have "Suc r \<noteq> n1" "Suc r \<noteq> n2" using assms(1,2) by linarith+
  then show ?thesis by (simp add: admittanceAt_def)
next
  assume "m \<le> k"
  then have "Suc k \<noteq> n1" "Suc k \<noteq> n2" using assms(1,2) by linarith+
  then show ?thesis by (simp add: admittanceAt_def)
qed

lemma currentAt_support:
  assumes "n1 \<le> m" and "n2 \<le> m" and "m \<le> r"
  shows "currentAt n1 n2 i r = 0"
proof -
  have "Suc r \<noteq> n1" "Suc r \<noteq> n2" using assms by linarith+
  then show ?thesis unfolding currentAt_def by simp
qed

lemma passive_stamp_differ:
  assumes sk: "ctype c \<notin> set dcSkipped"
    and p: "map_of p2n (cid c, 0) = Some n1" "map_of p2n (cid c, 1) = Some n2"
    and b: "n1 \<le> m" "n2 \<le> m" and s: "shaped n GI"
  shows "differ m n (admittanceAt n1 n2 (fst (dcEquivalent cv c n1 n2)))
           (currentAt n1 n2 (snd (dcEquivalent cv c n1 n2))) (stampPassiveDC p2n cv c GI) GI"
proof -
  obtain G I where GI: "GI = (G, I)" by (cases GI)
  let ?Y = "fst (dcEquivalent cv c n1 n2)" and ?J = "snd (dcEquivalent cv c n1 n2)"
  have e: "stampPassiveDC p2n cv c GI = stampConductance n1 n2 ?Y ?J (G, I)"
    using sk p by (simp add: stampPassiveDC_def GI split: prod.splits)
  have s1: "shaped n (stampPassiveDC p2n cv c GI)" using s by (rule shaped_stampPassiveDC)
  have l: "\<forall>r<n. r < length G \<and> length (G ! r) = n \<and> r < length I"
    using s shaped_lengths unfolding GI by blast
  have m: "\<forall>r<n. \<forall>k<n. fst (stampPassiveDC p2n cv c GI) ! r ! k
                          = fst GI ! r ! k + admittanceAt n1 n2 ?Y r k"
    unfolding e using l by (simp add: stampConductance_matrix GI)
  have v: "\<forall>r<n. snd (stampPassiveDC p2n cv c GI) ! r = snd GI ! r + currentAt n1 n2 ?J r"
    unfolding e using l by (simp add: stampConductance_rhs GI)
  show ?thesis
    unfolding differ_def using s s1 m v admittanceAt_support [OF b] currentAt_support [OF b]
    by blast
qed

lemma passives_differ:
  assumes sk: "ctype (cs ! j) \<notin> set dcSkipped" and j: "j < length cs"
    and p: "map_of p2n (cid (cs ! j), 0) = Some n1" "map_of p2n (cid (cs ! j), 1) = Some n2"
    and b: "n1 \<le> m" "n2 \<le> m" and s: "shaped n GI"
  shows "differ m n (admittanceAt n1 n2 (fst (dcEquivalent cv (cs ! j) n1 n2)))
           (currentAt n1 n2 (snd (dcEquivalent cv (cs ! j) n1 n2)))
           (fold (stampPassiveDC p2n cv) cs GI)
           (fold (stampPassiveDC p2n cv) (take j cs @ drop (Suc j) cs) GI)"
proof -
  let ?F = "stampPassiveDC p2n cv"
  let ?A = "fold ?F (take j cs) GI"
  have cs: "cs = take j cs @ cs ! j # drop (Suc j) cs" using j by (rule id_take_nth_drop)
  have a: "shaped n ?A" using s by (rule passives_shaped)
  have d: "differ m n (admittanceAt n1 n2 (fst (dcEquivalent cv (cs ! j) n1 n2)))
           (currentAt n1 n2 (snd (dcEquivalent cv (cs ! j) n1 n2))) (?F (cs ! j) ?A) ?A"
    using sk p b a by (rule passive_stamp_differ)
  have "differ m n (admittanceAt n1 n2 (fst (dcEquivalent cv (cs ! j) n1 n2)))
           (currentAt n1 n2 (snd (dcEquivalent cv (cs ! j) n1 n2)))
           (fold ?F (drop (Suc j) cs) (?F (cs ! j) ?A)) (fold ?F (drop (Suc j) cs) ?A)"
    using differ_stampPassiveDC d by (rule differ_fold)
  moreover have "fold ?F cs GI = fold ?F (drop (Suc j) cs) (?F (cs ! j) ?A)"
    by (subst cs) simp
  ultimately show ?thesis by simp
qed

lemma assembleDC_differ:
  assumes sk: "ctype (dc_components ctx ! j) \<notin> set dcSkipped" and j: "j < length (dc_components ctx)"
    and p: "map_of (dc_portToNode ctx) (cid (dc_components ctx ! j), 0) = Some n1"
           "map_of (dc_portToNode ctx) (cid (dc_components ctx ! j), 1) = Some n2"
    and b: "n1 \<le> dc_numNodes ctx" "n2 \<le> dc_numNodes ctx"
  shows "differ (dc_numNodes ctx) (dcSize ctx)
           (admittanceAt n1 n2 (fst (dcEquivalent cv (dc_components ctx ! j) n1 n2)))
           (currentAt n1 n2 (snd (dcEquivalent cv (dc_components ctx ! j) n1 n2)))
           (assembleDC ctx cv gt) (assembleDC (withoutComponent ctx j) cv gt)"
proof -
  let ?n = "dcSize ctx"
  have z: "shaped ?n (replicate ?n (replicate ?n (0::real)), replicate ?n (0::real))"
    by (rule zeros_shaped [THEN conjunct1])
  have w: "dcSize (withoutComponent ctx j) = ?n"
    "dc_portToNode (withoutComponent ctx j) = dc_portToNode ctx"
    "dc_numNodes (withoutComponent ctx j) = dc_numNodes ctx"
    "voltageSources (withoutComponent ctx j) = voltageSources ctx"
    "ammeters (withoutComponent ctx j) = ammeters ctx"
    "opamps (withoutComponent ctx j) = opamps ctx"
    "logicGates (withoutComponent ctx j) = logicGates ctx"
    "dc_components (withoutComponent ctx j)
       = take j (dc_components ctx) @ drop (Suc j) (dc_components ctx)"
    by (simp_all add: withoutComponent_def dcSize_def)
  have sg: "stampGate (withoutComponent ctx j) gt = stampGate ctx gt"
    by (rule ext, rule ext) (simp add: stampGate_def w split: prod.splits)
  have so: "stampOpampDC (withoutComponent ctx j) cv = stampOpampDC ctx cv"
    by (rule ext, rule ext) (simp add: stampOpampDC_def w split: prod.splits)
  have sa: "stampAmmeter (withoutComponent ctx j) = stampAmmeter ctx"
    by (rule ext, rule ext) (simp add: stampAmmeter_def w split: prod.splits)
  have sv: "stampVoltageSourceDC (withoutComponent ctx j) = stampVoltageSourceDC ctx"
    by (rule ext, rule ext) (simp add: stampVoltageSourceDC_def w split: prod.splits)
  note d1 = passives_differ [OF sk j p b z, of cv]
  note d2 = differ_fold [of _ _ _ _ "stampOpampInput (dc_portToNode ctx)", OF differ_stampOpampInput d1]
  note d3 = differ_fold [of _ _ _ _ "stampVoltageSourceDC ctx", OF differ_stampVoltageSourceDC d2]
  note d4 = differ_fold [of _ _ _ _ "stampAmmeter ctx", OF differ_stampAmmeter d3]
  note d5 = differ_fold [of _ _ _ _ "stampOpampDC ctx cv", OF differ_stampOpampDC d4]
  note d6 = differ_fold [of _ _ _ _ "stampGate ctx gt", OF differ_stampGate d5]
  show ?thesis
    unfolding assembleDC_stages w sg so sa sv by (rule d6)
qed

lemma dcIterate_shift: "dcIterate ctx (dcIteration ctx st) i = dcIteration ctx (dcIterate ctx st i)"
  by (induction i) simp_all

lemma dcLoop_last:
  "\<not> converged st \<Longrightarrow>
   \<exists>i\<le>k. dcLoop (Suc k) ctx st = dcIteration ctx (dcIterate ctx st i)
         \<and> (\<forall>i'\<le>i. \<not> converged (dcIterate ctx st i'))"
proof (induction k arbitrary: st)
  case 0
  then show ?case by simp
next
  case (Suc k)
  let ?st = "dcIteration ctx st"
  show ?case
  proof (cases "converged ?st")
    case True
    then have "dcLoop (Suc (Suc k)) ctx st = dcIteration ctx (dcIterate ctx st 0)"
      using Suc.prems by simp
    then show ?thesis using Suc.prems by (intro exI [of _ 0]) simp
  next
    case False
    from Suc.IH [OF False] obtain i where i: "i \<le> k"
      "dcLoop (Suc k) ctx ?st = dcIteration ctx (dcIterate ctx ?st i)"
      "\<forall>i'\<le>i. \<not> converged (dcIterate ctx ?st i')" by blast
    have a: "dcLoop (Suc (Suc k)) ctx st = dcIteration ctx (dcIterate ctx st (Suc i))"
      using Suc.prems i(2) by (simp add: dcIterate_shift)
    have "\<forall>i'\<le>Suc i. \<not> converged (dcIterate ctx st i')"
    proof (intro allI impI)
      fix i' assume "i' \<le> Suc i"
      then show "\<not> converged (dcIterate ctx st i')"
        using i(3) Suc.prems by (cases i') (simp_all add: dcIterate_shift)
    qed
    then show ?thesis using a i(1) by (intro exI [of _ "Suc i"]) simp
  qed
qed

lemma dcRun_last:
  "\<exists>i<maxIterations.
     dcRun components wires
       = dcIteration (circuitContext components wires)
           (dcIterate (circuitContext components wires)
              (dcInitial (circuitContext components wires)) i)
     \<and> (\<forall>i'\<le>i. \<not> converged (dcIterate (circuitContext components wires)
              (dcInitial (circuitContext components wires)) i'))"
proof -
  let ?ctx = "circuitContext components wires"
  have "\<not> converged (dcInitial ?ctx)" by (simp add: dcInitial_def)
  from dcLoop_last [OF this, of 19 ?ctx] obtain i where i: "i \<le> 19"
    "dcLoop (Suc 19) ?ctx (dcInitial ?ctx) = dcIteration ?ctx (dcIterate ?ctx (dcInitial ?ctx) i)"
    "\<forall>i'\<le>i. \<not> converged (dcIterate ?ctx (dcInitial ?ctx) i')" by blast
  have "dcRun components wires = dcLoop (Suc 19) ?ctx (dcInitial ?ctx)"
    by (simp add: dcRun_def circuitContext_def maxIterations_def Let_def del: dcLoop.simps)
  moreover have "i < maxIterations" using i(1) by (simp add: maxIterations_def)
  ultimately show ?thesis using i(2,3) by (intro exI [of _ i]) simp
qed

lemma dcIteration_solves:
  "finalX (dcIteration ctx st)
     = MatrixSolver_solve (fst (dcSystem ctx st)) (snd (dcSystem ctx st))
   \<and> currentVoltages (dcIteration ctx st)
     = snd (updateVoltages (dc_numNodes ctx) (finalX (dcIteration ctx st)) (currentVoltages st))"
  by (simp add: dcIteration_def dcSystem_def Let_def)

lemma without_gateTargets:
  "updateGateTargets (withoutComponent ctx j) cv gt = updateGateTargets ctx cv gt"
  by (simp add: updateGateTargets_def withoutComponent_def)

lemma solveCircuit_run:
  assumes "hasGround (portToNode (buildGraph components wires))"
  shows "nodeVoltages (solveCircuit components wires f)
           = resultVoltages (currentVoltages (dcRun components wires))"
  using assms by (simp add: solveCircuit_def dcRun_def Let_def)

text \<open>
  C5. In \<open>solveCircuit\<close>, a DIODE or LED at position \<open>j\<close> whose two ports map to
  the nodes \<open>n1\<close> and \<open>n2\<close> is stamped in every iteration from the iterate the
  iteration starts with: the system the iteration assembles is the system of the other
  components plus the admittance \<open>Y\<close> between \<open>n1\<close> and \<open>n2\<close> (added at the two
  diagonal entries, subtracted at the two off-diagonal ones, entries of ground dropped)
  and the current \<open>J\<close> added at \<open>n1\<close> and subtracted at \<open>n2\<close>, where
  \<open>Y = 0.1\<close> and \<open>J = 0.1 * vFwd\<close> when \<open>V(n1) - V(n2) > vFwd\<close>, and
  \<open>Y = 1e-9\<close> and \<open>J = 0\<close> otherwise, with \<open>vFwd\<close> the value of the component
  if positive, else 0.7. The iteration solves this system, the loop runs at least one and
  at most \<open>maxIterations\<close> iterations, each from the state the previous one left, and the
  node voltages of the result are those of the last iteration.
\<close>

theorem diode_stamp:
  assumes "ctx = circuitContext components wires"
    and "j < length components" and "c = components ! j"
    and "ctype c = DIODE \<or> ctype c = LED"
    and "map_of (dc_portToNode ctx) (cid c, 0) = Some n1"
    and "map_of (dc_portToNode ctx) (cid c, 1) = Some n2"
  shows "(\<forall>r<dcSize ctx. \<forall>k<dcSize ctx.
            fst (dcSystem ctx st) ! r ! k
              = fst (dcSystem (withoutComponent ctx j) st) ! r ! k
                + admittanceAt n1 n2 (diodeAdmittance (currentVoltages st) c n1 n2) r k)
       \<and> (\<forall>r<dcSize ctx.
            snd (dcSystem ctx st) ! r
              = snd (dcSystem (withoutComponent ctx j) st) ! r
                + currentAt n1 n2 (diodeCurrent (currentVoltages st) c n1 n2) r)
       \<and> finalX (dcIteration ctx st)
           = MatrixSolver_solve (fst (dcSystem ctx st)) (snd (dcSystem ctx st))
       \<and> currentVoltages (dcIteration ctx st)
           = snd (updateVoltages (dc_numNodes ctx) (finalX (dcIteration ctx st))
                    (currentVoltages st))
       \<and> (\<exists>last<maxIterations.
            dcRun components wires = dcIteration ctx (dcIterate ctx (dcInitial ctx) last)
            \<and> (\<forall>i\<le>last. \<not> converged (dcIterate ctx (dcInitial ctx) i)))
       \<and> (hasGround (portToNode (buildGraph components wires)) \<longrightarrow>
            nodeVoltages (solveCircuit components wires f)
              = resultVoltages (currentVoltages (dcRun components wires)))"
proof -
  have nb: "nodesBounded (dc_portToNode ctx) (dc_numNodes ctx)"
    unfolding assms(1) circuitContext_def by (rule dcContext_nodesBounded)
  have cs: "dc_components ctx = components"
    by (simp add: assms(1) circuitContext_def dcContext_def)
  have sk: "ctype (dc_components ctx ! j) \<notin> set dcSkipped"
    using assms(3,4) by (auto simp: cs dcSkipped_def)
  have b: "n1 \<le> dc_numNodes ctx" "n2 \<le> dc_numNodes ctx"
    using nb assms(5,6) by (blast dest: nodesBounded_map_of)+
  let ?cv = "currentVoltages st"
  let ?gt = "updateGateTargets ctx ?cv (gateTargets st)"
  have d: "differ (dc_numNodes ctx) (dcSize ctx)
             (admittanceAt n1 n2 (diodeAdmittance ?cv c n1 n2))
             (currentAt n1 n2 (diodeCurrent ?cv c n1 n2))
             (dcSystem ctx st) (dcSystem (withoutComponent ctx j) st)"
    using assembleDC_differ [of ctx j n1 n2 ?cv ?gt, OF sk] assms(2,3,5,6) b
      dcEquivalent_diode [OF assms(4), of ?cv n1 n2]
    by (simp add: cs dcSystem_def without_gateTargets)
  have m: "\<forall>r<dcSize ctx. \<forall>k<dcSize ctx.
            fst (dcSystem ctx st) ! r ! k
              = fst (dcSystem (withoutComponent ctx j) st) ! r ! k
                + admittanceAt n1 n2 (diodeAdmittance ?cv c n1 n2) r k"
    using d unfolding differ_def by blast
  have v: "\<forall>r<dcSize ctx.
            snd (dcSystem ctx st) ! r
              = snd (dcSystem (withoutComponent ctx j) st) ! r
                + currentAt n1 n2 (diodeCurrent ?cv c n1 n2) r"
    using d unfolding differ_def by blast
  have l: "\<exists>last<maxIterations.
            dcRun components wires = dcIteration ctx (dcIterate ctx (dcInitial ctx) last)
            \<and> (\<forall>i\<le>last. \<not> converged (dcIterate ctx (dcInitial ctx) i))"
    unfolding assms(1) by (rule dcRun_last)
  show ?thesis
    using m v l dcIteration_solves [of ctx st] solveCircuit_run [of components wires f]
    by blast
qed

lemma diode_graph:
  "buildGraph diodeCircuit diodeWires
     = \<lparr>portToNode = [((''g'', 0), 0), ((''r'', 1), 0), ((''v'', 1), 0), ((''v'', 0), 1),
                       ((''d'', 0), 1), ((''d'', 1), 2), ((''r'', 0), 2)], numNodes = 2\<rparr>"
  by code_simp

lemma diode_run:
  "currentVoltages (dcIteration (circuitContext diodeCircuit diodeWires)
      (dcInitial (circuitContext diodeCircuit diodeWires)))
     = [(0, 0), (1, 5), (2, 5 / 10000001)]"
  "finalX (dcRun diodeCircuit diodeWires) = [5, 43 / 11, - (43 / 1100)]"
  by code_simp+

lemma diode_without:
  "dcSystem (withoutComponent (circuitContext diodeCircuit diodeWires) 2)
     (dcInitial (circuitContext diodeCircuit diodeWires))
     = ([[0, 0, 1], [0, 1 / 100, 0], [1, 0, 0]], [0, 0, 5])"
  "dcSystem (withoutComponent (circuitContext diodeCircuit diodeWires) 2)
     (dcIteration (circuitContext diodeCircuit diodeWires)
        (dcInitial (circuitContext diodeCircuit diodeWires)))
     = ([[0, 0, 1], [0, 1 / 100, 0], [1, 0, 0]], [0, 0, 5])"
  by code_simp+

lemma diode_context:
  "dcSize (circuitContext diodeCircuit diodeWires) = 3"
  "map_of (dc_portToNode (circuitContext diodeCircuit diodeWires)) (''d'', 0) = Some 1"
  "map_of (dc_portToNode (circuitContext diodeCircuit diodeWires)) (''d'', 1) = Some 2"
  unfolding circuitContext_def dcContext_def dcSize_def diode_graph
  by (simp_all add: diodeCircuit_def exampleComponent_def isVoltageSource_def isLogicGate_def)

text \<open>
  The diode circuit: in the first iteration (all voltages 0) the diode is off and the
  entry between its nodes is \<open>-1e-9\<close>; in the second (5 V across it) it conducts: the
  entry is \<open>-0.1\<close> and the right-hand side holds \<open>0.07\<close> and \<open>-0.07\<close>.
\<close>

theorem diode_stamp_witness:
  "fst (dcSystem (circuitContext diodeCircuit diodeWires)
          (dcInitial (circuitContext diodeCircuit diodeWires))) ! 0 ! 1 = - (1 / 10 ^ 9)
   \<and> snd (dcSystem (circuitContext diodeCircuit diodeWires)
          (dcInitial (circuitContext diodeCircuit diodeWires))) ! 0 = 0
   \<and> fst (dcSystem (circuitContext diodeCircuit diodeWires)
          (dcIteration (circuitContext diodeCircuit diodeWires)
             (dcInitial (circuitContext diodeCircuit diodeWires)))) ! 0 ! 1 = - (1 / 10)
   \<and> fst (dcSystem (circuitContext diodeCircuit diodeWires)
          (dcIteration (circuitContext diodeCircuit diodeWires)
             (dcInitial (circuitContext diodeCircuit diodeWires)))) ! 1 ! 1 = 11 / 100
   \<and> snd (dcSystem (circuitContext diodeCircuit diodeWires)
          (dcIteration (circuitContext diodeCircuit diodeWires)
             (dcInitial (circuitContext diodeCircuit diodeWires)))) ! 0 = 7 / 100
   \<and> snd (dcSystem (circuitContext diodeCircuit diodeWires)
          (dcIteration (circuitContext diodeCircuit diodeWires)
             (dcInitial (circuitContext diodeCircuit diodeWires)))) ! 1 = - (7 / 100)
   \<and> finalX (dcRun diodeCircuit diodeWires) = [5, 43 / 11, - (43 / 1100)]"
proof -
  let ?ctx = "circuitContext diodeCircuit diodeWires"
  let ?d = "exampleComponent ''d'' DIODE 0"
  let ?s0 = "dcInitial ?ctx"
  let ?s1 = "dcIteration ?ctx ?s0"
  have j1: "2 < length diodeCircuit" "?d = diodeCircuit ! 2"
    by (simp_all add: diodeCircuit_def numeral_2_eq_2)
  have j2: "ctype ?d = DIODE \<or> ctype ?d = LED"
    "map_of (dc_portToNode ?ctx) (cid ?d, 0) = Some 1"
    "map_of (dc_portToNode ?ctx) (cid ?d, 1) = Some 2"
    using diode_context(2,3) by (simp_all add: exampleComponent_def)
  note j = j1 j2
  note t0 = diode_stamp [OF refl j, of ?s0 0]
  note t1 = diode_stamp [OF refl j, of ?s1 0]
  have cv0: "currentVoltages ?s0 = [(0, 0), (1, 0), (2, 0)]"
    by (simp add: dcInitial_def circuitContext_def dcContext_def diode_graph upt_rec)
  have off: "diodeAdmittance (currentVoltages ?s0) ?d (Suc 0) 2 = 1 / 10 ^ 9"
    "diodeCurrent (currentVoltages ?s0) ?d (Suc 0) 2 = 0"
    unfolding cv0
    by (simp_all add: diodeAdmittance_def diodeCurrent_def diodeConducting_def
          diodeForwardVoltage_def cvGet_def exampleComponent_def)
  have on: "diodeAdmittance (currentVoltages ?s1) ?d (Suc 0) 2 = 1 / 10"
    "diodeCurrent (currentVoltages ?s1) ?d (Suc 0) 2 = 7 / 100"
    unfolding diode_run(1)
    by (simp_all add: diodeAdmittance_def diodeCurrent_def diodeConducting_def
          diodeForwardVoltage_def cvGet_def exampleComponent_def)
  have a0: "fst (dcSystem ?ctx ?s0) ! 0 ! 1 = - (1 / 10 ^ 9)"
    using t0 [THEN conjunct1, rule_format, of 0 1]
    by (simp add: diode_context diode_without(1) off admittanceAt_def)
  have b0: "snd (dcSystem ?ctx ?s0) ! 0 = 0"
    using t0 [THEN conjunct2, THEN conjunct1, rule_format, of 0]
    by (simp add: diode_context diode_without(1) off currentAt_def)
  have a1: "fst (dcSystem ?ctx ?s1) ! 0 ! 1 = - (1 / 10)"
    using t1 [THEN conjunct1, rule_format, of 0 1]
    by (simp add: diode_context diode_without(2) on admittanceAt_def)
  have a2: "fst (dcSystem ?ctx ?s1) ! 1 ! 1 = 11 / 100"
    using t1 [THEN conjunct1, rule_format, of 1 1]
    by (simp add: diode_context diode_without(2) on admittanceAt_def)
  have b1: "snd (dcSystem ?ctx ?s1) ! 0 = 7 / 100"
    using t1 [THEN conjunct2, THEN conjunct1, rule_format, of 0]
    by (simp add: diode_context diode_without(2) on currentAt_def)
  have b2: "snd (dcSystem ?ctx ?s1) ! 1 = - (7 / 100)"
    using t1 [THEN conjunct2, THEN conjunct1, rule_format, of 1]
    by (simp add: diode_context diode_without(2) on currentAt_def)
  show ?thesis using a0 b0 a1 a2 b1 b2 diode_run(2) by simp
qed

end
